(* ===== verification/Prelude.thy ===== *)
theory Prelude
  imports Main "HOL-Library.Word" "HOL-Library.Char_ord" "HOL-Library.List_Lexorder"
begin

text \<open>
  Shared vocabulary of the development: errors as the left summand of a sum, bytes and
  strings, time, maps, and the reachability scheme every stateful component uses.

  A Go string is a sequence of bytes; it is a \<^typ>\<open>string\<close> here, whose characters are the 256
  byte values. A Go \<open>[]byte\<close> is a \<open>byte list\<close>, and \<open>to_bytes\<close> / \<open>of_bytes\<close> are the two
  conversions.
\<close>

named_theorems err_simps \<open>equations that evaluate sequencing of fallible steps\<close>
named_theorems go_string \<open>facts on string operations that carry the routing proofs\<close>

subsection \<open>Fallible steps\<close>

definition bind_err :: "'e + 'a \<Rightarrow> ('a \<Rightarrow> 'e + 'b) \<Rightarrow> 'e + 'b" where
  "bind_err r f = (case r of Inl e \<Rightarrow> Inl e | Inr x \<Rightarrow> f x)"

lemma bind_err_Inl [simp, err_simps]: "bind_err (Inl e) f = Inl e"
  by (simp add: bind_err_def)

lemma bind_err_Inr [simp, err_simps]: "bind_err (Inr x) f = f x"
  by (simp add: bind_err_def)

lemma bind_err_Inr_iff [err_simps]: "bind_err r f = Inr y \<longleftrightarrow> (\<exists>x. r = Inr x \<and> f x = Inr y)"
  by (cases r) auto

lemma bind_err_Inl_iff [err_simps]:
  "bind_err r f = Inl e \<longleftrightarrow> r = Inl e \<or> (\<exists>x. r = Inr x \<and> f x = Inl e)"
  by (cases r) auto

subsection \<open>Bytes, strings and time\<close>

type_synonym byte = "8 word"
type_synonym time = int \<comment> \<open>nanoseconds since the Unix epoch\<close>
type_synonym duration = int \<comment> \<open>nanoseconds\<close>

definition second :: duration where
  "second = 1000000000"

definition code :: "char \<Rightarrow> nat" where
  "code c = of_char c"

definition to_bytes :: "string \<Rightarrow> byte list" where
  "to_bytes s = map (\<lambda>c. word_of_nat (code c)) s"

definition of_bytes :: "byte list \<Rightarrow> string" where
  "of_bytes bs = map (\<lambda>b. char_of (unat b)) bs"

lemma code_less [simp]: "code c < 256"
  by (simp add: code_def)

lemma code_eq_iff: "code c = code d \<longleftrightarrow> c = d"
  by (simp add: code_def)

lemma char_of_code [simp]: "char_of (code c) = c"
  by (simp add: code_def)

lemma code_char_of: "n < 256 \<Longrightarrow> code (char_of n) = n"
  by (simp add: code_def)

lemma of_bytes_to_bytes [simp]: "of_bytes (to_bytes s) = s"
proof -
  have "char_of (unat (word_of_nat (code c) :: byte)) = c" for c
  proof -
    have "unat (word_of_nat (code c) :: byte) = code c"
      by (simp add: unat_of_nat take_bit_eq_mod)
    then show ?thesis by simp
  qed
  then show ?thesis by (induction s) (simp_all add: to_bytes_def of_bytes_def)
qed

lemma to_bytes_of_bytes [simp]: "to_bytes (of_bytes bs) = bs"
proof -
  have "word_of_nat (code (char_of (unat b))) = b" for b :: byte
  proof -
    have "unat b < 256" using unsigned_less [of b] by simp
    then show ?thesis by (simp add: code_char_of)
  qed
  then show ?thesis by (induction bs) (simp_all add: to_bytes_def of_bytes_def)
qed

lemma length_to_bytes [simp]: "length (to_bytes s) = length s"
  by (simp add: to_bytes_def)

lemma length_of_bytes [simp]: "length (of_bytes bs) = length bs"
  by (simp add: of_bytes_def)

subsection \<open>Lists and maps\<close>

lemma drop_append_exact [simp]: "drop (length xs) (xs @ ys) = ys"
  by simp

lemma take_append_exact [simp]: "take (length xs) (xs @ ys) = xs"
  by simp

lemma dom_map_upd_other: "m k = Some v \<Longrightarrow> dom (m(k \<mapsto> w)) = dom m"
  by auto

subsection \<open>Reachable states and invariants\<close>

text \<open>
  Every stateful component is a set of start states and a step relation. An invariant of
  the component is established by the start states and kept by each step; the locale gives
  the component the conclusion for its reachable states and for its finite runs.
\<close>

inductive reaches :: "('s \<Rightarrow> bool) \<Rightarrow> ('s \<Rightarrow> 's \<Rightarrow> bool) \<Rightarrow> 's \<Rightarrow> bool"
  for start :: "'s \<Rightarrow> bool" and step :: "'s \<Rightarrow> 's \<Rightarrow> bool" where
  reaches_start: "start s \<Longrightarrow> reaches start step s"
| reaches_step: "reaches start step s \<Longrightarrow> step s t \<Longrightarrow> reaches start step t"

lemma reaches_star: "reaches start step s \<Longrightarrow> step\<^sup>*\<^sup>* s t \<Longrightarrow> reaches start step t"
  by (rotate_tac, induction rule: rtranclp_induct) (auto intro: reaches_step)

locale invariant_system =
  fixes start :: "'s \<Rightarrow> bool" and step :: "'s \<Rightarrow> 's \<Rightarrow> bool" and inv :: "'s \<Rightarrow> bool"
  assumes inv_start: "start s \<Longrightarrow> inv s"
    and inv_step: "step s t \<Longrightarrow> inv s \<Longrightarrow> inv t"
begin

lemma inv_reaches: "reaches start step s \<Longrightarrow> inv s"
  by (induction rule: reaches.induct) (auto intro: inv_start inv_step)

lemma inv_star: "step\<^sup>*\<^sup>* s t \<Longrightarrow> inv s \<Longrightarrow> inv t"
  by (induction rule: rtranclp_induct) (auto intro: inv_step)

end

text \<open>
  Refinement of a deterministic component: the code's operation and the specification's
  operation run side by side, and the relation between the two states is kept as long as
  the environment respects the guard of each operation. The locale lifts the one-step fact
  to a whole sequence of operations.
\<close>

fun guarded :: "('op \<Rightarrow> 'a \<Rightarrow> bool) \<Rightarrow> ('op \<Rightarrow> 'a \<Rightarrow> 'a) \<Rightarrow> 'op list \<Rightarrow> 'a \<Rightarrow> bool" where
  "guarded ok astep [] a \<longleftrightarrow> True"
| "guarded ok astep (x # xs) a \<longleftrightarrow> ok x a \<and> guarded ok astep xs (astep x a)"

locale simulation =
  fixes cstep :: "'op \<Rightarrow> 'c \<Rightarrow> 'c" and astep :: "'op \<Rightarrow> 'a \<Rightarrow> 'a"
    and ok :: "'op \<Rightarrow> 'a \<Rightarrow> bool" and rel :: "'a \<Rightarrow> 'c \<Rightarrow> bool"
  assumes sim_step: "rel a c \<Longrightarrow> ok x a \<Longrightarrow> rel (astep x a) (cstep x c)"
begin

lemma sim_run: "rel a c \<Longrightarrow> guarded ok astep xs a \<Longrightarrow> rel (fold astep xs a) (fold cstep xs c)"
  by (induction xs arbitrary: a c) (auto intro: sim_step)

end

end
