(* ===== verification/GoStrings.thy ===== *)
theory GoStrings
  imports Prelude
begin

text \<open>
  The operations of the Go packages \<open>strings\<close> and \<open>strconv\<close> that the program calls, as
  executable functions on byte strings, with the facts the routing, configuration and
  token proofs rest on.

  Case mapping, folding and trimming are those of Go on ASCII text; bytes above 127 are
  neither letters nor white space here. Host headers, service labels and the keys and
  values of the configuration are ASCII.
\<close>

subsection \<open>Case mapping and trimming\<close>

definition is_upper :: "char \<Rightarrow> bool" where
  "is_upper c \<longleftrightarrow> 65 \<le> code c \<and> code c \<le> 90"

definition is_lower :: "char \<Rightarrow> bool" where
  "is_lower c \<longleftrightarrow> 97 \<le> code c \<and> code c \<le> 122"

definition is_digit :: "char \<Rightarrow> bool" where
  "is_digit c \<longleftrightarrow> 48 \<le> code c \<and> code c \<le> 57"

definition is_space :: "char \<Rightarrow> bool" where
  "is_space c \<longleftrightarrow> code c = 32 \<or> (9 \<le> code c \<and> code c \<le> 13)"

definition ascii_lower :: "char \<Rightarrow> char" where
  "ascii_lower c = (if is_upper c then char_of (code c + 32) else c)"

definition to_lower :: "string \<Rightarrow> string" where
  "to_lower s = map ascii_lower s"

definition equal_fold :: "string \<Rightarrow> string \<Rightarrow> bool" where
  "equal_fold s t \<longleftrightarrow> to_lower s = to_lower t"

definition trim_space :: "string \<Rightarrow> string" where
  "trim_space s = rev (dropWhile is_space (rev (dropWhile is_space s)))"

lemma code_ascii_lower: "code (ascii_lower c) = (if is_upper c then code c + 32 else code c)"
  by (simp add: ascii_lower_def is_upper_def code_char_of)

lemma not_upper_ascii_lower [simp]: "\<not> is_upper (ascii_lower c)"
  by (auto simp: is_upper_def code_ascii_lower)

lemma ascii_lower_idem [simp]: "ascii_lower (ascii_lower c) = ascii_lower c"
  by (simp add: ascii_lower_def [of "ascii_lower c"])

lemma ascii_lower_id: "\<not> is_upper c \<Longrightarrow> ascii_lower c = c"
  by (simp add: ascii_lower_def)

lemma ascii_lower_eq_iff [go_string]:
  assumes "\<not> is_upper d" "\<not> is_lower d"
  shows "ascii_lower c = d \<longleftrightarrow> c = d"
proof
  assume eq: "ascii_lower c = d"
  show "c = d"
  proof (cases "is_upper c")
    case True
    then have "code d = code c + 32" using eq code_ascii_lower [of c] by simp
    with True assms show ?thesis by (simp add: is_upper_def is_lower_def)
  next
    case False
    with eq show ?thesis by (simp add: ascii_lower_id)
  qed
next
  assume "c = d"
  with assms show "ascii_lower c = d" by (simp add: ascii_lower_id)
qed

lemma ascii_lower_dot [simp, go_string]: "ascii_lower c = CHR ''.'' \<longleftrightarrow> c = CHR ''.''"
  by (rule ascii_lower_eq_iff) (simp_all add: is_upper_def is_lower_def code_def)

lemma ascii_lower_colon [simp, go_string]: "ascii_lower c = CHR '':'' \<longleftrightarrow> c = CHR '':''"
  by (rule ascii_lower_eq_iff) (simp_all add: is_upper_def is_lower_def code_def)

lemma to_lower_Nil [simp]: "to_lower [] = []"
  by (simp add: to_lower_def)

lemma to_lower_Nil_iff [simp]: "to_lower s = [] \<longleftrightarrow> s = []"
  by (simp add: to_lower_def)

lemma to_lower_Cons [simp]: "to_lower (c # s) = ascii_lower c # to_lower s"
  by (simp add: to_lower_def)

lemma to_lower_append [simp]: "to_lower (s @ t) = to_lower s @ to_lower t"
  by (simp add: to_lower_def)

lemma to_lower_idem [simp]: "to_lower (to_lower s) = to_lower s"
  by (induction s) simp_all

lemma length_to_lower [simp]: "length (to_lower s) = length s"
  by (simp add: to_lower_def)

lemma to_lower_id: "\<forall>c \<in> set s. \<not> is_upper c \<Longrightarrow> to_lower s = s"
  by (induction s) (simp_all add: ascii_lower_id)

lemma to_lower_fixed: "to_lower s = s \<Longrightarrow> c \<in> set s \<Longrightarrow> \<not> is_upper c"
proof (induction s)
  case (Cons x s)
  from Cons.prems(1) have x: "ascii_lower x = x" and s: "to_lower s = s" by simp_all
  from x have "\<not> is_upper x" by (metis not_upper_ascii_lower)
  with Cons s show ?case by auto
qed simp

lemma dot_in_to_lower [simp, go_string]: "CHR ''.'' \<in> set (to_lower s) \<longleftrightarrow> CHR ''.'' \<in> set s"
  by (induction s) (simp_all add: eq_commute [of "CHR ''.''"])

lemma colon_in_to_lower [simp, go_string]: "CHR '':'' \<in> set (to_lower s) \<longleftrightarrow> CHR '':'' \<in> set s"
  by (induction s) (simp_all add: eq_commute [of "CHR '':''"])

lemma equal_fold_refl [simp]: "equal_fold s s"
  by (simp add: equal_fold_def)

lemma trim_space_id: "\<forall>c \<in> set s. \<not> is_space c \<Longrightarrow> trim_space s = s"
proof -
  assume a: "\<forall>c \<in> set s. \<not> is_space c"
  then have "dropWhile is_space s = s" by (cases s) simp_all
  moreover from a have "dropWhile is_space (rev s) = rev s" by (cases "rev s") (auto simp: rev_eq_Cons_iff)
  ultimately show ?thesis by (simp add: trim_space_def)
qed

lemma trim_space_Nil [simp]: "trim_space [] = []"
  by (simp add: trim_space_def)

subsection \<open>Prefixes and suffixes\<close>

definition has_prefix :: "string \<Rightarrow> string \<Rightarrow> bool" where
  "has_prefix s p \<longleftrightarrow> take (length p) s = p"

definition has_suffix :: "string \<Rightarrow> string \<Rightarrow> bool" where
  "has_suffix s p \<longleftrightarrow> length p \<le> length s \<and> drop (length s - length p) s = p"

definition trim_prefix :: "string \<Rightarrow> string \<Rightarrow> string" where
  "trim_prefix s p = (if has_prefix s p then drop (length p) s else s)"

definition trim_suffix :: "string \<Rightarrow> string \<Rightarrow> string" where
  "trim_suffix s p = (if has_suffix s p then take (length s - length p) s else s)"

lemma has_suffix_iff [go_string]: "has_suffix s p \<longleftrightarrow> (\<exists>a. s = a @ p)"
proof
  assume "has_suffix s p"
  then have "s = take (length s - length p) s @ p"
    by (metis append_take_drop_id has_suffix_def)
  then show "\<exists>a. s = a @ p" by blast
qed (auto simp: has_suffix_def)

lemma has_prefix_iff [go_string]: "has_prefix s p \<longleftrightarrow> (\<exists>a. s = p @ a)"
proof
  assume "has_prefix s p"
  then have "s = p @ drop (length p) s"
    by (metis append_take_drop_id has_prefix_def)
  then show "\<exists>a. s = p @ a" by blast
qed (auto simp: has_prefix_def)

lemma has_suffix_append [simp]: "has_suffix (s @ p) p"
  by (auto simp: has_suffix_iff)

lemma trim_suffix_append [simp]: "trim_suffix (s @ p) p = s"
  by (simp add: trim_suffix_def)

lemma trim_suffix_other: "\<not> has_suffix s p \<Longrightarrow> trim_suffix s p = s"
  by (simp add: trim_suffix_def)

subsection \<open>Searching and splitting\<close>

fun index_byte :: "string \<Rightarrow> char \<Rightarrow> nat option" where
  "index_byte [] c = None"
| "index_byte (x # xs) c = (if x = c then Some 0 else map_option Suc (index_byte xs c))"

fun last_index_byte :: "string \<Rightarrow> char \<Rightarrow> nat option" where
  "last_index_byte [] c = None"
| "last_index_byte (x # xs) c =
     (case last_index_byte xs c of
        Some i \<Rightarrow> Some (Suc i)
      | None \<Rightarrow> if x = c then Some 0 else None)"

fun split_byte :: "string \<Rightarrow> char \<Rightarrow> string list" where
  "split_byte [] c = [[]]"
| "split_byte (x # xs) c =
     (if x = c then [] # split_byte xs c
      else (case split_byte xs c of [] \<Rightarrow> [[x]] | p # ps \<Rightarrow> (x # p) # ps))"

fun join_byte :: "char \<Rightarrow> string list \<Rightarrow> string" where
  "join_byte c [] = []"
| "join_byte c [p] = p"
| "join_byte c (p # q # ps) = p @ c # join_byte c (q # ps)"

lemma index_byte_None [simp, go_string]: "index_byte s c = None \<longleftrightarrow> c \<notin> set s"
  by (induction s) auto

lemma index_byte_absent [simp, go_string]: "c \<notin> set s \<Longrightarrow> index_byte s c = None"
  by simp

lemma index_byte_first [simp, go_string]:
  "c \<notin> set a \<Longrightarrow> index_byte (a @ c # b) c = Some (length a)"
  by (induction a) auto

lemma index_byte_SomeE:
  assumes "index_byte s c = Some i"
  obtains a b where "s = a @ c # b" "length a = i" "c \<notin> set a"
proof -
  have "c \<in> set s" using assms by (metis index_byte_None option.distinct(1))
  then obtain a b where ab: "s = a @ c # b" "c \<notin> set a"
    using split_list_first [of c s] by blast
  with assms have "length a = i" by simp
  with ab that show ?thesis by blast
qed

lemma last_index_byte_None [simp, go_string]: "last_index_byte s c = None \<longleftrightarrow> c \<notin> set s"
  by (induction s) (auto split: option.splits)

lemma last_index_byte_absent [simp, go_string]: "c \<notin> set s \<Longrightarrow> last_index_byte s c = None"
  by simp

lemma last_index_byte_last [simp, go_string]:
  "c \<notin> set b \<Longrightarrow> last_index_byte (a @ c # b) c = Some (length a)"
  by (induction a) (auto split: option.splits)

lemma last_index_byte_SomeE:
  assumes "last_index_byte s c = Some i"
  obtains a b where "s = a @ c # b" "length a = i" "c \<notin> set b"
proof -
  have "c \<in> set s" using assms by (metis last_index_byte_None option.distinct(1))
  then obtain a b where ab: "s = a @ c # b" "c \<notin> set b"
    using split_list_last [of c s] by blast
  with assms have "length a = i" by simp
  with ab that show ?thesis by blast
qed

lemma split_byte_ne [simp]: "split_byte s c \<noteq> []"
  by (cases s) (auto split: list.splits)

lemma join_split_byte: "join_byte c (split_byte s c) = s"
proof (induction s)
  case (Cons x s)
  obtain p ps where sp: "split_byte s c = p # ps"
    by (meson split_byte_ne neq_Nil_conv)
  with Cons show ?case by (cases ps) simp_all
qed simp

lemma split_byte_no_sep: "p \<in> set (split_byte s c) \<Longrightarrow> c \<notin> set p"
proof (induction s arbitrary: p)
  case (Cons x s)
  obtain q ps where sp: "split_byte s c = q # ps"
    by (meson split_byte_ne neq_Nil_conv)
  with Cons show ?case by (auto split: if_splits)
qed simp

lemma split_byte_prefix: "c \<notin> set p \<Longrightarrow> split_byte (p @ c # s) c = p # split_byte s c"
  by (induction p) auto

lemma split_byte_single: "c \<notin> set p \<Longrightarrow> split_byte p c = [p]"
  by (induction p) auto

lemma split_join_append:
  "ps \<noteq> [] \<Longrightarrow> \<forall>p \<in> set ps. c \<notin> set p \<Longrightarrow> split_byte (join_byte c ps @ s) c = butlast ps @ split_byte (last ps @ s) c"
  by (induction c ps rule: join_byte.induct) (auto simp: split_byte_prefix)

lemma split_join_byte: "ps \<noteq> [] \<Longrightarrow> \<forall>p \<in> set ps. c \<notin> set p \<Longrightarrow> split_byte (join_byte c ps) c = ps"
  using split_join_append [of ps c "[]"] by (simp add: split_byte_single)

subsection \<open>Decimal and hexadecimal numerals\<close>

fun digits_base :: "nat \<Rightarrow> nat \<Rightarrow> nat list" where
  "digits_base b n = (if b < 2 \<or> n < b then [n] else digits_base b (n div b) @ [n mod b])"

declare digits_base.simps [simp del]

definition digit_char :: "nat \<Rightarrow> char" where
  "digit_char d = (if d < 10 then char_of (48 + d) else char_of (87 + d))"

definition format_nat :: "nat \<Rightarrow> string" where
  "format_nat n = map digit_char (digits_base 10 n)"

definition format_hex :: "nat \<Rightarrow> string" where
  "format_hex n = map digit_char (digits_base 16 n)"

fun parse_digits :: "string \<Rightarrow> nat \<Rightarrow> nat option" where
  "parse_digits [] acc = Some acc"
| "parse_digits (c # s) acc =
     (if is_digit c then parse_digits s (10 * acc + (code c - 48)) else None)"

text \<open>
  \<open>strconv.Atoi\<close>: an optional sign and at least one decimal digit; a value outside the
  64-bit range is an error.
\<close>

definition atoi :: "string \<Rightarrow> int option" where
  "atoi s =
     (let neg = has_prefix s ''-'';
          body = (if neg \<or> has_prefix s ''+'' then drop 1 s else s)
      in if body = [] then None
         else (case parse_digits body 0 of
                 None \<Rightarrow> None
               | Some n \<Rightarrow>
                   (let v = (if neg then - int n else int n)
                    in if - (2 ^ 63) \<le> v \<and> v < 2 ^ 63 then Some v else None)))"

lemma is_digit_digit_char: "d < 10 \<Longrightarrow> is_digit (digit_char d)"
  by (simp add: is_digit_def digit_char_def code_char_of)

lemma code_digit_char: "d < 10 \<Longrightarrow> code (digit_char d) = 48 + d"
  by (simp add: digit_char_def code_char_of)

lemma parse_digits_append:
  "parse_digits (s @ t) acc = (case parse_digits s acc of None \<Rightarrow> None | Some v \<Rightarrow> parse_digits t v)"
  by (induction s arbitrary: acc) auto

lemma digits_base_less: "2 \<le> b \<Longrightarrow> d \<in> set (digits_base b n) \<Longrightarrow> d < b"
proof (induction b n rule: digits_base.induct)
  case (1 b n)
  then show ?case by (subst (asm) (2) digits_base.simps) (auto split: if_splits)
qed

lemma digits_base_ne [simp]: "digits_base b n \<noteq> []"
  by (subst digits_base.simps) simp

lemma parse_format_nat: "parse_digits (format_nat n) 0 = Some n"
proof (induction n rule: less_induct)
  case (less n)
  show ?case
  proof (cases "n < 10")
    case True
    then show ?thesis
      by (simp add: format_nat_def digits_base.simps [of 10 n] is_digit_digit_char code_digit_char)
  next
    case False
    then have "parse_digits (format_nat (n div 10)) 0 = Some (n div 10)"
      using less by simp
    with False show ?thesis
      by (simp add: format_nat_def digits_base.simps [of 10 n] parse_digits_append
          is_digit_digit_char code_digit_char)
  qed
qed

lemma format_nat_digits: "c \<in> set (format_nat n) \<Longrightarrow> is_digit c"
  using digits_base_less [of 10] by (auto simp: format_nat_def intro: is_digit_digit_char)

lemma format_nat_ne [simp]: "format_nat n \<noteq> []"
  by (simp add: format_nat_def)

lemma atoi_format_nat: "n < 2 ^ 63 \<Longrightarrow> atoi (format_nat n) = Some (int n)"
proof -
  assume n: "n < 2 ^ 63"
  obtain c s where cs: "format_nat n = c # s" by (meson format_nat_ne neq_Nil_conv)
  have "is_digit c" using format_nat_digits [of c n] cs by simp
  then have "c \<noteq> CHR ''-''" "c \<noteq> CHR ''+''" by (auto simp: is_digit_def code_def)
  then have "\<not> has_prefix (format_nat n) ''-''" "\<not> has_prefix (format_nat n) ''+''"
    using cs by (simp_all add: has_prefix_def)
  moreover have "int n < 2 ^ 63"
    using n by (metis of_nat_less_iff of_nat_numeral of_nat_power)
  ultimately show ?thesis
    using parse_format_nat [of n] by (simp add: atoi_def Let_def)
qed

subsection \<open>Printed text\<close>

definition text_lines :: "string list \<Rightarrow> string" where
  "text_lines ls = concat (map (\<lambda>l. l @ [CHR 0x0A]) ls)"

text \<open>The two bytes of a middle dot.\<close>

definition middle_dot :: string where
  "middle_dot = [CHR 0xC2, CHR 0xB7]"

end
