(* ===== verification/Percentile.thy ===== *)
theory Percentile
  imports Prelude "HOL-Library.Multiset"
begin

text \<open>
  \<open>percentiles\<close> of \<open>server/stats.go\<close>: sort the samples and pick the entries at
  \<open>int(float64(n - 1) * p)\<close>. The float64 product is modelled with its rounding, and the
  lemmas show that for every ring fill it gives the exact rational index.
\<close>

subsection \<open>Percentiles\<close>

text \<open>
  \<open>int(float64(n) * p)\<close>. A float64 \<open>p\<close> in \<open>[1/2, 1)\<close> is \<open>m / 2^53\<close> with a 53-bit \<open>m\<close>; the
  product is rounded to 53 significant bits, ties to even, and truncated.
\<close>

fun bit_length :: "nat \<Rightarrow> nat" where
  "bit_length n = (if n = 0 then 0 else Suc (bit_length (n div 2)))"

declare bit_length.simps [simp del]

definition round_53 :: "nat \<Rightarrow> nat" where
  "round_53 x =
     (let k = bit_length x - 53; q = x div 2 ^ k; r = x mod 2 ^ k
      in if 2 * r < 2 ^ k \<or> (2 * r = 2 ^ k \<and> even q) then q * 2 ^ k else (q + 1) * 2 ^ k)"

definition f64_mul_trunc :: "nat \<Rightarrow> nat \<Rightarrow> nat" where
  "f64_mul_trunc n m = round_53 (n * m) div 2 ^ 53"

definition p50_mantissa :: nat where "p50_mantissa = 4503599627370496"
definition p95_mantissa :: nat where "p95_mantissa = 8556839292003942"
definition p99_mantissa :: nat where "p99_mantissa = 8917127262193582"

definition percentiles :: "32 word list \<Rightarrow> 32 word \<times> 32 word \<times> 32 word" where
  "percentiles samples =
     (if samples = [] then (0, 0, 0)
      else (let srt = sort samples;
                pick = (\<lambda>m. srt ! f64_mul_trunc (length samples - 1) m)
            in (pick p50_mantissa, pick p95_mantissa, pick p99_mantissa)))"

subsection \<open>The float64 index is exact\<close>

lemma bit_length_le: "x < 2 ^ j \<Longrightarrow> bit_length x \<le> j"
proof (induction j arbitrary: x)
  case 0
  then show ?case by (simp add: bit_length.simps)
next
  case (Suc j)
  then have "x div 2 < 2 ^ j" by auto
  then have "bit_length (x div 2) \<le> j" by (rule Suc.IH)
  then show ?case by (simp add: bit_length.simps [of x])
qed

lemma bit_length_gt: "2 ^ j \<le> x \<Longrightarrow> j < bit_length x"
proof (induction j arbitrary: x)
  case 0
  then show ?case by (simp add: bit_length.simps [of x])
next
  case (Suc j)
  then have "2 ^ j \<le> x div 2" by auto
  then have "j < bit_length (x div 2)" by (rule Suc.IH)
  moreover have "x \<noteq> 0" using Suc.prems by (cases x) auto
  ultimately show ?case by (simp add: bit_length.simps [of x])
qed

lemma round_53_at: "2 ^ (52 + k) \<le> x \<Longrightarrow> x < 2 ^ (53 + k) \<Longrightarrow>
  round_53 x = (let q = x div 2 ^ k; r = x mod 2 ^ k
      in if 2 * r < 2 ^ k \<or> (2 * r = 2 ^ k \<and> even q) then q * 2 ^ k else (q + 1) * 2 ^ k)"
proof -
  assume "2 ^ (52 + k) \<le> x" "x < 2 ^ (53 + k)"
  then have "bit_length x = 53 + k" using bit_length_le [of x "53 + k"] bit_length_gt [of "52 + k" x] by simp
  then show ?thesis by (simp add: round_53_def)
qed

lemma round_53_error:
  assumes "x < 2 ^ 61"
  shows "x \<le> round_53 x + 128" "round_53 x \<le> x + 128"
proof -
  define k where "k = bit_length x - 53"
  have "k \<le> 8" using bit_length_le [OF assms] by (simp add: k_def)
  then have p: "(2::nat) ^ k \<le> 256" using power_increasing [of k 8 "2::nat"] by simp
  have x: "x = x div 2 ^ k * 2 ^ k + x mod 2 ^ k" by (rule div_mult_mod_eq [symmetric])
  have r: "x mod 2 ^ k < 2 ^ k" by simp
  have "round_53 x = x div 2 ^ k * 2 ^ k \<and> 2 * (x mod 2 ^ k) \<le> 2 ^ k
     \<or> round_53 x = x div 2 ^ k * 2 ^ k + 2 ^ k \<and> 2 ^ k \<le> 2 * (x mod 2 ^ k)"
    by (auto simp: round_53_def Let_def k_def [symmetric])
  with x r p show "x \<le> round_53 x + 128" "round_53 x \<le> x + 128" by linarith+
qed

lemma floor_arith:
  fixes x d q s r :: nat
  assumes "100 * x + d = (100 * q + s) * 9007199254740992" "1 \<le> s" "s \<le> 99" "d \<le> 10200"
    "x \<le> r + 128" "r \<le> x + 128"
  shows "q * 9007199254740992 \<le> r \<and> r < (q + 1) * 9007199254740992"
  using assms by (simp add: algebra_simps)

lemma f64_floor:
  assumes "100 * m + d = c * 2 ^ 53" "d \<le> 40" "m < 2 ^ 53" "n < 256" "n * c mod 100 \<noteq> 0"
  shows "f64_mul_trunc n m = n * c div 100"
proof -
  let ?x = "n * m" and ?q = "n * c div 100" and ?s = "n * c mod 100"
  have x: "?x < 2 ^ 61" 
  proof -
    have "n * m \<le> 255 * m" using assms(4) by (intro mult_right_mono) auto
    also have "255 * m < 2 ^ 61" using assms(3) by simp
    finally show ?thesis .
  qed
  have nd: "n * d \<le> 255 * 40" using assms by (intro mult_le_mono) auto
  have "100 * ?x + n * d = n * c * 2 ^ 53" using arg_cong [OF assms(1), of "\<lambda>z. n * z"] by (simp add: algebra_simps)
  moreover have "n * c = 100 * ?q + ?s" by simp
  ultimately have eq: "100 * ?x + n * d = (100 * ?q + ?s) * 2 ^ 53" by metis
  have s: "1 \<le> ?s" "?s \<le> 99" using assms(5) by simp_all
  have "?q * 2 ^ 53 \<le> round_53 ?x \<and> round_53 ?x < (?q + 1) * 2 ^ 53"
    using floor_arith [of ?x "n * d" ?q ?s "round_53 ?x"] eq s nd round_53_error [OF x] by simp
  then show ?thesis unfolding f64_mul_trunc_def
    by (intro div_nat_eqI) (simp_all add: algebra_simps)
qed

lemma f64_eval:
  "2 ^ (52 + k) \<le> n * m \<Longrightarrow> n * m < 2 ^ (53 + k) \<Longrightarrow>
   f64_mul_trunc n m =
     (let q = n * m div 2 ^ k; r = n * m mod 2 ^ k
      in if 2 * r < 2 ^ k \<or> (2 * r = 2 ^ k \<and> even q) then q * 2 ^ k else (q + 1) * 2 ^ k) div 2 ^ 53"
  by (simp add: f64_mul_trunc_def round_53_at)

lemma f64_zero [simp]: "f64_mul_trunc 0 m = 0"
  by (simp add: f64_mul_trunc_def round_53_def bit_length.simps)

lemma f64_95_multiple:
  assumes "j < 13"
  shows "f64_mul_trunc (20 * j) p95_mantissa = 19 * j"
proof -
  from assms have "j \<in> {0,1,2,3,4,5,6,7,8,9,10,11,12}" by (simp; presburger)
  then show ?thesis
    using f64_eval [of 5 20 p95_mantissa] f64_eval [of 6 40 p95_mantissa] f64_eval [of 6 60 p95_mantissa]
      f64_eval [of 7 80 p95_mantissa] f64_eval [of 7 100 p95_mantissa] f64_eval [of 7 120 p95_mantissa]
      f64_eval [of 8 140 p95_mantissa] f64_eval [of 8 160 p95_mantissa] f64_eval [of 8 180 p95_mantissa]
      f64_eval [of 8 200 p95_mantissa] f64_eval [of 8 220 p95_mantissa] f64_eval [of 8 240 p95_mantissa]
    by (auto simp: p95_mantissa_def Let_def)
qed

lemma f64_99_multiple:
  assumes "j < 3"
  shows "f64_mul_trunc (100 * j) p99_mantissa = 99 * j"
proof -
  from assms have "j \<in> {0,1,2}" by (simp; presburger)
  then show ?thesis
    using f64_eval [of 7 100 p99_mantissa] f64_eval [of 8 200 p99_mantissa]
    by (auto simp: p99_mantissa_def Let_def)
qed

lemma f64_p95:
  assumes "n < 256"
  shows "f64_mul_trunc n p95_mantissa = n * 95 div 100"
proof (cases "n * 95 mod 100 = 0")
  case True
  then have "100 dvd 100 * n - 95 * n" by (intro dvd_diff_nat) (simp_all add: dvd_eq_mod_eq_0 mult.commute)
  then have "5 * 20 dvd 5 * n" by simp
  then have "20 dvd n" by (simp only: nat_mult_dvd_cancel_disj) simp
  then obtain j where "n = 20 * j" by (rule dvdE)
  with assms f64_95_multiple [of j] show ?thesis by simp
next
  case False
  with assms show ?thesis by (intro f64_floor [where d = 40]) (simp_all add: p95_mantissa_def)
qed

lemma f64_p99:
  assumes "n < 256"
  shows "f64_mul_trunc n p99_mantissa = n * 99 div 100"
proof (cases "n * 99 mod 100 = 0")
  case True
  then have "100 dvd 100 * n - 99 * n" by (intro dvd_diff_nat) (simp_all add: dvd_eq_mod_eq_0 mult.commute)
  then have "100 dvd n" by simp
  then obtain j where "n = 100 * j" by (rule dvdE)
  with assms f64_99_multiple [of j] show ?thesis by simp
next
  case False
  with assms show ?thesis by (intro f64_floor [where d = 8]) (simp_all add: p99_mantissa_def)
qed

lemma round_53_exact: "x < 2 ^ 53 \<Longrightarrow> round_53 (x * 2 ^ j) = x * 2 ^ j"
proof -
  assume "x < 2 ^ 53"
  then have "x * 2 ^ j < 2 ^ (53 + j)" by (simp add: power_add)
  then have "bit_length (x * 2 ^ j) - 53 \<le> j" using bit_length_le [of "x * 2 ^ j" "53 + j"] by simp
  then have "(2::nat) ^ (bit_length (x * 2 ^ j) - 53) dvd x * 2 ^ j"
    by (intro dvd_mult le_imp_power_dvd)
  then show ?thesis by (auto simp: round_53_def Let_def dvd_eq_mod_eq_0)
qed

lemma f64_p50:
  assumes "n < 256"
  shows "f64_mul_trunc n p50_mantissa = n * 50 div 100"
proof -
  have "p50_mantissa = 2 ^ 52" by (simp add: p50_mantissa_def)
  then have "f64_mul_trunc n p50_mantissa = n * 2 ^ 52 div 2 ^ 53"
    using assms round_53_exact [of n 52] by (simp add: f64_mul_trunc_def)
  also have "\<dots> = n div 2" by (simp add: power_add [of "2::nat" 52 1, simplified] div_mult2_eq)
  finally show ?thesis by simp
qed
lemma percentiles_sorted:
  assumes "samples \<noteq> []" "length samples \<le> 256"
  shows "percentiles samples =
    (sort samples ! ((length samples - 1) * 50 div 100),
     sort samples ! ((length samples - 1) * 95 div 100),
     sort samples ! ((length samples - 1) * 99 div 100))"
proof -
  have "length samples - 1 < 256" using assms by (cases samples) auto
  with assms show ?thesis by (simp add: percentiles_def Let_def f64_p50 f64_p95 f64_p99)
qed

lemma percentiles_mset: "mset xs = mset ys \<Longrightarrow> percentiles xs = percentiles ys"
proof -
  assume m: "mset xs = mset ys"
  then have "sort xs = sort ys" by (metis properties_for_sort mset_sort sorted_sort)
  moreover from m have "length xs = length ys" by (metis size_mset)
  moreover from m have "xs = [] \<longleftrightarrow> ys = []" by auto
  ultimately show ?thesis by (simp add: percentiles_def)
qed

end
