(* ===== verification/Stats.thy ===== *)
theory Stats
  imports GoStrings Percentile
begin

text \<open>
  \<open>server/stats.go\<close>: the per-service counters, the latency ring of 256 samples, the two
  60-second rate rings, their snapshot and the registry that owns them.

  Counters keep their width: \<open>atomic.Uint64\<close> and \<open>atomic.Int64\<close> are 64-bit words (the
  signed ones are read with \<open>sint\<close>), ring cells are 32- and 64-bit words, and every addition
  wraps as the hardware's does. Clock readings are naturals (nanoseconds since 1970); a zero
  \<open>time.Time\<close> is \<open>None\<close>.
\<close>

subsection \<open>State\<close>

definition latency_ring_size :: nat where "latency_ring_size = 256"
definition rate_ring_size :: nat where "rate_ring_size = 60"

record stats =
  st_service :: string
  connected :: bool
  remote :: string
  connected_at :: "nat option"
  disconnected_at :: "nat option"
  http_requests :: "64 word"
  http_bytes_in :: "64 word"
  http_bytes_out :: "64 word"
  http_active :: "64 word"
  ws_upgrades :: "64 word"
  ws_bytes_in :: "64 word"
  ws_bytes_out :: "64 word"
  ws_active :: "64 word"
  latency_ring :: "32 word list"
  latency_head :: nat
  latency_n :: nat
  rps_buckets :: "32 word list"
  bps_buckets :: "64 word list"
  bucket_unix :: nat

text \<open>\<open>&Stats{Service: service}\<close>: every other field is its zero value.\<close>

definition new_stats :: "string \<Rightarrow> stats" where
  "new_stats service =
     \<lparr> st_service = service, connected = False, remote = '''', connected_at = None,
       disconnected_at = None, http_requests = 0, http_bytes_in = 0, http_bytes_out = 0,
       http_active = 0, ws_upgrades = 0, ws_bytes_in = 0, ws_bytes_out = 0, ws_active = 0,
       latency_ring = replicate latency_ring_size 0, latency_head = 0, latency_n = 0,
       rps_buckets = replicate rate_ring_size 0, bps_buckets = replicate rate_ring_size 0,
       bucket_unix = 0 \<rparr>"

definition unix :: "nat \<Rightarrow> nat" where
  "unix now = now div 1000000000"

definition unix_milli :: "nat \<Rightarrow> nat" where
  "unix_milli now = now div 1000000"

subsection \<open>Connection state and counters\<close>

definition mark_connected :: "nat \<Rightarrow> string \<Rightarrow> stats \<Rightarrow> stats" where
  "mark_connected now rem s =
     s\<lparr>connected := True, remote := rem, connected_at := Some now, disconnected_at := None\<rparr>"

definition mark_disconnected :: "nat \<Rightarrow> stats \<Rightarrow> stats" where
  "mark_disconnected now s = s\<lparr>connected := False, disconnected_at := Some now\<rparr>"

definition http_stream_start :: "stats \<Rightarrow> stats" where
  "http_stream_start s = s\<lparr>http_active := http_active s + 1\<rparr>"

definition http_stream_end :: "stats \<Rightarrow> stats" where
  "http_stream_end s = s\<lparr>http_active := http_active s - 1\<rparr>"

definition ws_start :: "stats \<Rightarrow> stats" where
  "ws_start s = s\<lparr>ws_active := ws_active s + 1, ws_upgrades := ws_upgrades s + 1\<rparr>"

definition ws_end :: "stats \<Rightarrow> stats" where
  "ws_end s = s\<lparr>ws_active := ws_active s - 1\<rparr>"

subsection \<open>The rate rings\<close>

text \<open>The loop that zeroes the buckets of the seconds in \<open>(bucketUnix, now]\<close>.\<close>

fun zero_buckets :: "nat \<Rightarrow> nat \<Rightarrow> stats \<Rightarrow> stats" where
  "zero_buckets base 0 s = s"
| "zero_buckets base (Suc k) s =
     (let s' = zero_buckets base k s; idx = (base + Suc k) mod rate_ring_size
      in s'\<lparr>rps_buckets := (rps_buckets s')[idx := 0], bps_buckets := (bps_buckets s')[idx := 0]\<rparr>)"

definition advance_buckets :: "nat \<Rightarrow> stats \<Rightarrow> stats" where
  "advance_buckets now s =
     (if bucket_unix s = 0 then s\<lparr>bucket_unix := now\<rparr>
      else if now \<le> bucket_unix s then s
      else if rate_ring_size \<le> now - bucket_unix s
      then s\<lparr>rps_buckets := map (\<lambda>_. 0) (rps_buckets s), bps_buckets := map (\<lambda>_. 0) (bps_buckets s),
             bucket_unix := now\<rparr>
      else (zero_buckets (bucket_unix s) (now - bucket_unix s) s)\<lparr>bucket_unix := now\<rparr>)"

definition bump_bucket :: "nat \<Rightarrow> 32 word \<Rightarrow> 64 word \<Rightarrow> stats \<Rightarrow> stats" where
  "bump_bucket now requests bytes s0 =
     (let s = advance_buckets (unix now) s0; idx = unix now mod rate_ring_size
      in s\<lparr>rps_buckets := (rps_buckets s)[idx := rps_buckets s ! idx + requests],
           bps_buckets := (bps_buckets s)[idx := bps_buckets s ! idx + bytes]\<rparr>)"

definition add_http_bytes :: "nat \<Rightarrow> 64 word \<Rightarrow> 64 word \<Rightarrow> stats \<Rightarrow> stats" where
  "add_http_bytes now bin bout s0 =
     (let s1 = (if bin > 0 then s0\<lparr>http_bytes_in := http_bytes_in s0 + bin\<rparr> else s0);
          s2 = (if bout > 0 then s1\<lparr>http_bytes_out := http_bytes_out s1 + bout\<rparr> else s1)
      in bump_bucket now 0 (bin + bout) s2)"

definition add_ws_bytes :: "nat \<Rightarrow> 64 word \<Rightarrow> 64 word \<Rightarrow> stats \<Rightarrow> stats" where
  "add_ws_bytes now bin bout s0 =
     (let s1 = (if bin > 0 then s0\<lparr>ws_bytes_in := ws_bytes_in s0 + bin\<rparr> else s0);
          s2 = (if bout > 0 then s1\<lparr>ws_bytes_out := ws_bytes_out s1 + bout\<rparr> else s1)
      in bump_bucket now 0 (bin + bout) s2)"

subsection \<open>The latency ring\<close>

text \<open>\<open>Duration.Microseconds\<close> truncates towards zero; the sample is clamped to 32 bits.\<close>

definition clamp_usec :: "int \<Rightarrow> 32 word" where
  "clamp_usec latency =
     (let usec = sgn latency * (\<bar>latency\<bar> div 1000)
      in if usec < 0 then 0 else if usec > 4294967295 then 4294967295 else word_of_int usec)"

definition push_latency :: "32 word \<Rightarrow> stats \<Rightarrow> stats" where
  "push_latency usec s0 =
     (let s1 = s0\<lparr>latency_ring := (latency_ring s0)[latency_head s0 := usec]\<rparr>;
          s2 = s1\<lparr>latency_head := (latency_head s1 + 1) mod latency_ring_size\<rparr>
      in if latency_n s2 < latency_ring_size then s2\<lparr>latency_n := latency_n s2 + 1\<rparr> else s2)"

text \<open>
  \<open>HTTPCompleted\<close> reads the clock twice, once in each call of \<open>bumpBucket\<close>; both readings
  are arguments.
\<close>

definition http_completed :: "nat \<Rightarrow> nat \<Rightarrow> int \<Rightarrow> 64 word \<Rightarrow> 64 word \<Rightarrow> stats \<Rightarrow> stats" where
  "http_completed now1 now2 latency bytes_in bytes_out s0 =
     (let s1 = s0\<lparr>http_requests := http_requests s0 + 1\<rparr>;
          s2 = add_http_bytes now1 bytes_in bytes_out s1;
          s3 = push_latency (clamp_usec latency) s2
      in bump_bucket now2 1 0 s3)"

subsection \<open>Snapshots\<close>

record stats_snapshot =
  sn_service :: string
  sn_connected :: bool
  sn_remote :: string
  sn_connected_at_ms :: nat
  sn_disconnected_at_ms :: nat
  sn_http_requests :: "64 word"
  sn_http_bytes_in :: "64 word"
  sn_http_bytes_out :: "64 word"
  sn_http_active :: "64 word"
  sn_ws_upgrades :: "64 word"
  sn_ws_bytes_in :: "64 word"
  sn_ws_bytes_out :: "64 word"
  sn_ws_active :: "64 word"
  sn_p50 :: "32 word"
  sn_p95 :: "32 word"
  sn_p99 :: "32 word"
  sn_rps60 :: "32 word list"
  sn_bps60 :: "64 word list"

text \<open>Go's \<open>%\<close> truncates: its result has the sign of the dividend.\<close>

definition go_rem :: "int \<Rightarrow> int \<Rightarrow> int" where
  "go_rem a b = sgn a * (\<bar>a\<bar> mod \<bar>b\<bar>)"

definition ring_index :: "nat \<Rightarrow> nat \<Rightarrow> nat" where
  "ring_index now i =
     (let idx = go_rem (int now - (int rate_ring_size - 1) + int i) (int rate_ring_size)
      in nat (if idx < 0 then idx + int rate_ring_size else idx))"

definition latency_samples :: "stats \<Rightarrow> 32 word list" where
  "latency_samples s =
     (if latency_n s < latency_ring_size then take (latency_n s) (latency_ring s)
      else latency_ring s)"

definition milli_or_zero :: "nat option \<Rightarrow> nat" where
  "milli_or_zero t = (case t of None \<Rightarrow> 0 | Some n \<Rightarrow> unix_milli n)"

text \<open>\<open>Snapshot\<close> advances the rings, so it returns the new statistics beside the view.\<close>

definition snapshot :: "nat \<Rightarrow> stats \<Rightarrow> stats_snapshot \<times> stats" where
  "snapshot now s0 =
     (let s = advance_buckets (unix now) s0;
          rps = map (\<lambda>i. rps_buckets s ! ring_index (unix now) i) [0..<rate_ring_size];
          bps = map (\<lambda>i. bps_buckets s ! ring_index (unix now) i) [0..<rate_ring_size];
          (p50, p95, p99) = percentiles (latency_samples s)
      in (\<lparr> sn_service = st_service s, sn_connected = connected s, sn_remote = remote s,
            sn_connected_at_ms = milli_or_zero (connected_at s),
            sn_disconnected_at_ms = milli_or_zero (disconnected_at s),
            sn_http_requests = http_requests s, sn_http_bytes_in = http_bytes_in s,
            sn_http_bytes_out = http_bytes_out s, sn_http_active = http_active s,
            sn_ws_upgrades = ws_upgrades s, sn_ws_bytes_in = ws_bytes_in s,
            sn_ws_bytes_out = ws_bytes_out s, sn_ws_active = ws_active s,
            sn_p50 = p50, sn_p95 = p95, sn_p99 = p99, sn_rps60 = rps, sn_bps60 = bps \<rparr>, s))"

subsection \<open>The registry of statistics\<close>

text \<open>
  \<open>statsRegistry\<close> is a map from names to \<open>*Stats\<close>. No entry is ever removed or replaced, so
  the name stands for the pointer. \<open>Get\<close> creates an absent entry.
\<close>

type_synonym stats_registry = "string \<rightharpoonup> stats"

definition new_stats_registry :: stats_registry where
  "new_stats_registry = (\<lambda>_. None)"

definition stats_get :: "string \<Rightarrow> stats_registry \<Rightarrow> stats_registry" where
  "stats_get service m =
     (case m service of Some _ \<Rightarrow> m | None \<Rightarrow> m(service \<mapsto> new_stats service))"

text \<open>An operation on the \<open>Stats\<close> a session points to.\<close>

definition upd_stats :: "string \<Rightarrow> (stats \<Rightarrow> stats) \<Rightarrow> stats_registry \<Rightarrow> stats_registry" where
  "upd_stats service f m = (case m service of None \<Rightarrow> m | Some s \<Rightarrow> m(service \<mapsto> f s))"

text \<open>
  \<open>SnapshotAll\<close> visits the names in the order of the sorted index slice, which is the sorted
  list of names whatever order the map was ranged over (\<open>names\<close> lists the domain).
\<close>

fun snapshot_each :: "nat \<Rightarrow> string list \<Rightarrow> stats_registry \<Rightarrow> stats_snapshot list \<times> stats_registry" where
  "snapshot_each now [] m = ([], m)"
| "snapshot_each now (n # ns) m =
     (case m n of
        None \<Rightarrow> snapshot_each now ns m
      | Some s \<Rightarrow>
          (let (v, s') = snapshot now s; (vs, m') = snapshot_each now ns (m(n \<mapsto> s'))
           in (v # vs, m')))"

definition snapshot_all :: "nat \<Rightarrow> string list \<Rightarrow> stats_registry \<Rightarrow> stats_snapshot list \<times> stats_registry" where
  "snapshot_all now names m = snapshot_each now (sort names) m"

end
