(* ===== verification/StatsSpec.thy ===== *)
theory StatsSpec
  imports Stats
begin

text \<open>
  What the statistics promise, and the proof that the rings deliver it.

  The specification keeps the whole history: a log of \<open>(second, requests, bytes)\<close> entries and
  the list of all latency samples. The rings of the code refine it: bucket \<open>t mod 60\<close> holds
  the sum of the log entries of second \<open>t\<close> for each of the last sixty seconds, and the
  latency ring holds the last 256 samples.
\<close>

subsection \<open>Operations on one Stats object\<close>

datatype stats_op =
    OpConnected nat string
  | OpDisconnected nat
  | OpHttpStart
  | OpHttpEnd
  | OpWsStart
  | OpWsEnd
  | OpHttpBytes nat "64 word" "64 word"
  | OpWsBytes nat "64 word" "64 word"
  | OpHttpCompleted nat nat int "64 word" "64 word"
  | OpSnapshot nat

fun apply_op :: "stats_op \<Rightarrow> stats \<Rightarrow> stats" where
  "apply_op (OpConnected now r) s = mark_connected now r s"
| "apply_op (OpDisconnected now) s = mark_disconnected now s"
| "apply_op OpHttpStart s = http_stream_start s"
| "apply_op OpHttpEnd s = http_stream_end s"
| "apply_op OpWsStart s = ws_start s"
| "apply_op OpWsEnd s = ws_end s"
| "apply_op (OpHttpBytes now i out) s = add_http_bytes now i out s"
| "apply_op (OpWsBytes now i out) s = add_ws_bytes now i out s"
| "apply_op (OpHttpCompleted now1 now2 lat i out) s = http_completed now1 now2 lat i out s"
| "apply_op (OpSnapshot now) s = snd (snapshot now s)"

subsection \<open>The abstract history\<close>

type_synonym log_entry = "nat \<times> 32 word \<times> 64 word"

definition reqs_at :: "log_entry list \<Rightarrow> int \<Rightarrow> 32 word" where
  "reqs_at log t = sum_list (map (\<lambda>(u, r, b). if int u = t then r else 0) log)"

definition bytes_at :: "log_entry list \<Rightarrow> int \<Rightarrow> 64 word" where
  "bytes_at log t = sum_list (map (\<lambda>(u, r, b). if int u = t then b else 0) log)"

record history =
  h_log :: "log_entry list"
  h_latencies :: "32 word list"
  h_clock :: nat \<comment> \<open>the latest second at which a ring was advanced\<close>

definition new_history :: history where
  "new_history = \<lparr>h_log = [], h_latencies = [], h_clock = 0\<rparr>"

definition log_at :: "nat \<Rightarrow> log_entry list \<Rightarrow> history \<Rightarrow> history" where
  "log_at now es h = h\<lparr>h_log := h_log h @ es, h_clock := max (h_clock h) (unix now)\<rparr>"

fun history_op :: "stats_op \<Rightarrow> history \<Rightarrow> history" where
  "history_op (OpHttpBytes now i out) h = log_at now [(unix now, 0, i + out)] h"
| "history_op (OpWsBytes now i out) h = log_at now [(unix now, 0, i + out)] h"
| "history_op (OpHttpCompleted now1 now2 lat i out) h =
     (let h1 = log_at now1 [(unix now1, 0, i + out)] h;
          h2 = h1\<lparr>h_latencies := h_latencies h1 @ [clamp_usec lat]\<rparr>
      in log_at now2 [(unix now2, 1, 0)] h2)"
| "history_op (OpSnapshot now) h = log_at now [] h"
| "history_op _ h = h"

text \<open>
  The clock may stand still and may be set back, but not by a minute or more against the
  latest reading: that is the condition under which a bucket still belongs to its second.
\<close>

definition clock_ok :: "nat \<Rightarrow> nat \<Rightarrow> bool" where
  "clock_ok latest now \<longleftrightarrow> 0 < unix now \<and> latest < unix now + rate_ring_size"

fun op_clock_ok :: "stats_op \<Rightarrow> history \<Rightarrow> bool" where
  "op_clock_ok (OpHttpBytes now i out) h = clock_ok (h_clock h) now"
| "op_clock_ok (OpWsBytes now i out) h = clock_ok (h_clock h) now"
| "op_clock_ok (OpHttpCompleted now1 now2 lat i out) h =
     (clock_ok (h_clock h) now1 \<and> clock_ok (max (h_clock h) (unix now1)) now2)"
| "op_clock_ok (OpSnapshot now) h = (0 < unix now)"
| "op_clock_ok _ h = True"

subsection \<open>Sums over the log\<close>

lemma reqs_at_Nil [simp]: "reqs_at [] t = 0"
  by (simp add: reqs_at_def)

lemma bytes_at_Nil [simp]: "bytes_at [] t = 0"
  by (simp add: bytes_at_def)

lemma reqs_at_snoc [simp]: "reqs_at (log @ [(u, r, b)]) t = reqs_at log t + (if int u = t then r else 0)"
  by (simp add: reqs_at_def)

lemma bytes_at_snoc [simp]: "bytes_at (log @ [(u, r, b)]) t = bytes_at log t + (if int u = t then b else 0)"
  by (simp add: bytes_at_def)

lemma reqs_at_later: "\<forall>e \<in> set log. int (fst e) < t \<Longrightarrow> reqs_at log t = 0"
  by (induction log) (auto simp: reqs_at_def)

lemma bytes_at_later: "\<forall>e \<in> set log. int (fst e) < t \<Longrightarrow> bytes_at log t = 0"
  by (induction log) (auto simp: bytes_at_def)

subsection \<open>The rate rings refine the log\<close>

definition bucket_of :: "int \<Rightarrow> nat" where
  "bucket_of t = nat (t mod 60)"

definition in_window :: "nat \<Rightarrow> int \<Rightarrow> bool" where
  "in_window now t \<longleftrightarrow> int now - 60 < t \<and> t \<le> int now"

definition rate_rel :: "log_entry list \<Rightarrow> stats \<Rightarrow> bool" where
  "rate_rel log s \<longleftrightarrow>
     length (rps_buckets s) = 60 \<and> length (bps_buckets s) = 60 \<and>
     (\<forall>e \<in> set log. 0 < fst e \<and> fst e \<le> bucket_unix s) \<and>
     (\<forall>t. in_window (bucket_unix s) t \<longrightarrow>
        rps_buckets s ! bucket_of t = reqs_at log t \<and> bps_buckets s ! bucket_of t = bytes_at log t)"

lemma bucket_of_less [simp]: "bucket_of t < 60"
  by (simp add: bucket_of_def nat_less_iff)

lemma bucket_of_int [simp]: "bucket_of (int u) = u mod 60"
  by (simp add: bucket_of_def nat_mod_as_int)

lemma bucket_of_inj: "in_window now t \<Longrightarrow> in_window now t' \<Longrightarrow> bucket_of t = bucket_of t' \<Longrightarrow> t = t'"
proof -
  assume w: "in_window now t" "in_window now t'" and eq: "bucket_of t = bucket_of t'"
  from eq have "t mod 60 = t' mod 60" by (simp add: bucket_of_def)
  then have "60 dvd (t - t')" by (simp add: mod_eq_dvd_iff)
  moreover have "\<bar>t - t'\<bar> < 60" using w by (auto simp: in_window_def)
  ultimately show "t = t'" using zdvd_imp_le [of 60 "\<bar>t - t'\<bar>"] by auto
qed

lemma bucket_of_surj: "i < 60 \<Longrightarrow> \<exists>t. in_window now t \<and> bucket_of t = i"
proof -
  assume i: "i < 60"
  let ?t = "int now - ((int now - int i) mod 60)"
  have "?t mod 60 = int i mod 60" by (metis add_diff_cancel_left' cancel_comm_monoid_add_class.diff_zero diff_diff_eq2 minus_mod_eq_mult_div mod_diff_right_eq)
  with i have "bucket_of ?t = i" by (simp add: bucket_of_def)
  moreover have "in_window now ?t"
    using pos_mod_bound [of 60 "int now - int i"] pos_mod_sign [of 60 "int now - int i"]
    by (simp add: in_window_def)
  ultimately show ?thesis by blast
qed

lemma rate_rel_new: "rate_rel [] (new_stats name)"
  by (simp add: rate_rel_def new_stats_def rate_ring_size_def)

lemma length_zero_buckets [simp]:
  "length (rps_buckets (zero_buckets base k s)) = length (rps_buckets s)"
  "length (bps_buckets (zero_buckets base k s)) = length (bps_buckets s)"
  by (induction k) (simp_all add: Let_def)

lemma zero_buckets_frame [simp]:
  "bucket_unix (zero_buckets base k s) = bucket_unix s"
  "latency_ring (zero_buckets base k s) = latency_ring s"
  "latency_head (zero_buckets base k s) = latency_head s"
  "latency_n (zero_buckets base k s) = latency_n s"
  "http_requests (zero_buckets base k s) = http_requests s"
  "http_active (zero_buckets base k s) = http_active s"
  "ws_active (zero_buckets base k s) = ws_active s"
  by (induction k) (simp_all add: Let_def)

definition zeroed :: "nat \<Rightarrow> nat \<Rightarrow> nat set" where
  "zeroed base k = (\<lambda>j. (base + j) mod 60) ` {1..k}"

lemma zeroed_Suc: "zeroed base (Suc k) = insert ((base + Suc k) mod 60) (zeroed base k)"
  by (simp add: zeroed_def atLeastAtMostSuc_conv)

lemma zero_buckets_nth:
  assumes "i < 60" "length (rps_buckets s) = 60" "length (bps_buckets s) = 60"
  shows "rps_buckets (zero_buckets base k s) ! i = (if i \<in> zeroed base k then 0 else rps_buckets s ! i)
       \<and> bps_buckets (zero_buckets base k s) ! i = (if i \<in> zeroed base k then 0 else bps_buckets s ! i)"
proof (induction k)
  case 0
  show ?case by (simp add: zeroed_def)
next
  case (Suc k)
  then show ?case
    using assms by (simp add: zeroed_Suc Let_def rate_ring_size_def nth_list_update)
qed

text \<open>Which seconds of the new window the loop clears: those after the old head.\<close>

lemma in_zeroed_iff:
  assumes "old < now" "now - old < 60" "in_window now t"
  shows "bucket_of t \<in> zeroed old (now - old) \<longleftrightarrow> int old < t"
proof
  assume "bucket_of t \<in> zeroed old (now - old)"
  then obtain j where j: "1 \<le> j" "j \<le> now - old" and mod: "bucket_of t = (old + j) mod 60"
    by (auto simp: zeroed_def)
  have eq: "bucket_of t = bucket_of (int (old + j))" unfolding bucket_of_int by (rule mod)
  have "in_window now (int (old + j))" using assms j by (auto simp: in_window_def)
  from bucket_of_inj [OF assms(3) this eq] j(1) show "int old < t" by simp
next
  assume lt: "int old < t"
  define j where "j = nat t - old"
  have "1 \<le> j" "j \<le> now - old" "t = int (old + j)"
    using lt assms by (auto simp: j_def in_window_def)
  moreover from this have "bucket_of t = (old + j) mod 60" using bucket_of_int [of "old + j"] by simp
  ultimately show "bucket_of t \<in> zeroed old (now - old)" by (auto simp: zeroed_def)
qed

lemma rate_rel_advance:
  assumes rel: "rate_rel log s" and now: "0 < now"
  shows "rate_rel log (advance_buckets now s) \<and> bucket_unix (advance_buckets now s) = max (bucket_unix s) now"
proof -
  let ?b = "bucket_unix s"
  have len: "length (rps_buckets s) = 60" "length (bps_buckets s) = 60"
    and ev: "\<And>e. e \<in> set log \<Longrightarrow> 0 < fst e \<and> fst e \<le> ?b"
    and win: "\<And>t. in_window ?b t \<Longrightarrow> rps_buckets s ! bucket_of t = reqs_at log t
                \<and> bps_buckets s ! bucket_of t = bytes_at log t"
    using rel by (auto simp: rate_rel_def)
  have late: "reqs_at log t = 0 \<and> bytes_at log t = 0" if "int ?b < t" for t
    using that ev by (intro conjI reqs_at_later bytes_at_later) fastforce+
  consider (fresh) "?b = 0" | (same) "0 < ?b" "now \<le> ?b"
    | (far) "0 < ?b" "?b < now" "60 \<le> now - ?b" | (near) "0 < ?b" "?b < now" "now - ?b < 60"
    by linarith
  then show ?thesis
  proof cases
    case fresh
    have log: "log = []" using ev [of "hd log"] fresh by (cases log) auto
    have "rps_buckets s ! i = 0 \<and> bps_buckets s ! i = 0" if "i < 60" for i
      using win bucket_of_surj [OF that, of ?b] log by auto
    with fresh log len show ?thesis by (simp add: rate_rel_def advance_buckets_def)
  next
    case same
    with rel show ?thesis by (simp add: advance_buckets_def)
  next
    case far
    have "reqs_at log t = 0 \<and> bytes_at log t = 0" if "in_window now t" for t
      using late [of t] that far by (auto simp: in_window_def)
    with far ev len show ?thesis
      by (fastforce simp: rate_rel_def advance_buckets_def rate_ring_size_def)
  next
    case near
    let ?z = "zero_buckets ?b (now - ?b) s"
    have adv: "advance_buckets now s = ?z\<lparr>bucket_unix := now\<rparr>"
      using near by (simp add: advance_buckets_def rate_ring_size_def)
    have "rps_buckets ?z ! bucket_of t = reqs_at log t \<and> bps_buckets ?z ! bucket_of t = bytes_at log t"
      if w: "in_window now t" for t
    proof (cases "int ?b < t")
      case True
      with zero_buckets_nth [of "bucket_of t" s ?b "now - ?b"] in_zeroed_iff [OF near(2,3) w] late len
      show ?thesis by simp
    next
      case False
      then have "in_window ?b t" using w near by (auto simp: in_window_def)
      with False zero_buckets_nth [of "bucket_of t" s ?b "now - ?b"] in_zeroed_iff [OF near(2,3) w] win len
      show ?thesis by simp
    qed
    with near ev len show ?thesis by (fastforce simp: rate_rel_def adv)
  qed
qed

lemma rate_rel_bump:
  assumes rel: "rate_rel log s" and clk: "clock_ok (bucket_unix s) now"
  shows "rate_rel (log @ [(unix now, r, b)]) (bump_bucket now r b s)
    \<and> bucket_unix (bump_bucket now r b s) = max (bucket_unix s) (unix now)"
proof -
  let ?u = "unix now" and ?s = "advance_buckets (unix now) s"
  have u: "0 < ?u" "bucket_unix s < ?u + 60" using clk by (auto simp: clock_ok_def rate_ring_size_def)
  have rel': "rate_rel log ?s" and b': "bucket_unix ?s = max (bucket_unix s) ?u"
    using rate_rel_advance [OF rel u(1)] by auto
  have w: "in_window (bucket_unix ?s) (int ?u)" using u b' by (auto simp: in_window_def)
  have ix: "?u mod 60 = bucket_of t \<longleftrightarrow> int ?u = t" if "in_window (bucket_unix ?s) t" for t
    using bucket_of_inj [OF that w] by (metis bucket_of_int)
  show ?thesis
    using rel' u b' ix
    by (auto simp: rate_rel_def bump_bucket_def Let_def rate_ring_size_def nth_list_update)
qed

subsection \<open>The latency ring refines the list of samples\<close>

definition last_n :: "nat \<Rightarrow> 'a list \<Rightarrow> 'a list" where
  "last_n n xs = drop (length xs - n) xs"

definition latency_rel :: "32 word list \<Rightarrow> stats \<Rightarrow> bool" where
  "latency_rel hist s \<longleftrightarrow>
     length (latency_ring s) = 256 \<and>
     latency_n s = min (length hist) 256 \<and>
     latency_head s = length hist mod 256 \<and>
     (if length hist < 256 then take (length hist) (latency_ring s) = hist
      else drop (latency_head s) (latency_ring s) @ take (latency_head s) (latency_ring s) = last_n 256 hist)"

lemma length_last_n [simp]: "length (last_n n xs) = min (length xs) n"
  by (simp add: last_n_def)

lemma last_n_all: "length xs \<le> n \<Longrightarrow> last_n n xs = xs"
  by (simp add: last_n_def)

lemma last_n_snoc: "n \<le> length xs \<Longrightarrow> 0 < n \<Longrightarrow> last_n n (xs @ [x]) = tl (last_n n xs) @ [x]"
  by (simp add: last_n_def Suc_diff_le tl_drop drop_Suc)

lemma latency_rel_new: "latency_rel [] (new_stats name)"
  by (simp add: latency_rel_def new_stats_def latency_ring_size_def)

text \<open>Overwriting the oldest cell of a full ring and moving the head drops the oldest sample.\<close>

lemma rotate_overwrite:
  assumes "h < length r"
  shows "(let h' = (h + 1) mod length r in drop h' (r[h := x]) @ take h' (r[h := x])) =
    tl (drop h r @ take h r) @ [x]"
proof (cases "h + 1 = length r")
  case True
  then have "r[h := x] = take h r @ [x]" by (metis add_eq_self_zero append_Nil2 assms drop_all le_refl upd_conv_take_nth_drop Suc_eq_plus1)
  moreover have "tl (drop h r) = []" using True by (simp add: tl_drop drop_Suc [symmetric])
  ultimately show ?thesis using True assms by (simp add: Let_def)
next
  case False
  with assms have "(h + 1) mod length r = h + 1" by simp
  with assms False show ?thesis
    by (simp add: Let_def drop_update_cancel take_update_swap take_Suc_conv_app_nth
        Cons_nth_drop_Suc [symmetric] list_update_append)
qed

lemma latency_rel_push:
  assumes rel: "latency_rel hist s"
  shows "latency_rel (hist @ [x]) (push_latency x s)"
proof (cases "length hist < 256")
  case True
  then have ring: "take (length hist) (latency_ring s) = hist" "length (latency_ring s) = 256"
    and st: "latency_head s = length hist" "latency_n s = length hist"
    using rel by (auto simp: latency_rel_def)
  from True ring st have t: "take (Suc (length hist)) ((latency_ring s)[length hist := x]) = hist @ [x]"
    by (simp add: take_Suc_conv_app_nth)
  show ?thesis
  proof (cases "length hist = 255")
    case True
    with t ring st show ?thesis
      by (simp add: latency_rel_def push_latency_def latency_ring_size_def last_n_all)
  next
    case False
    with True t ring st show ?thesis
      by (simp add: latency_rel_def push_latency_def latency_ring_size_def)
  qed
next
  case False
  then have full: "drop (latency_head s) (latency_ring s) @ take (latency_head s) (latency_ring s) = last_n 256 hist"
    and len: "length (latency_ring s) = 256" and head: "latency_head s = length hist mod 256"
    and n: "latency_n s = 256"
    using rel by (auto simp: latency_rel_def)
  have h: "latency_head s < length (latency_ring s)" using len head by simp
  have "last_n 256 (hist @ [x]) = tl (last_n 256 hist) @ [x]"
    using False by (intro last_n_snoc) simp_all
  with rotate_overwrite [OF h, of x] full len
  have "(let h' = (latency_head s + 1) mod 256 in
      drop h' ((latency_ring s)[latency_head s := x]) @ take h' ((latency_ring s)[latency_head s := x])) =
      last_n 256 (hist @ [x])" by simp
  with False len head n show ?thesis
    by (simp add: latency_rel_def push_latency_def latency_ring_size_def Let_def mod_Suc_eq)
qed

lemma latency_samples_mset: "latency_rel hist s \<Longrightarrow> mset (latency_samples s) = mset (last_n 256 hist)"
proof (cases "length hist < 256")
  case True
  moreover assume "latency_rel hist s"
  ultimately show ?thesis by (simp add: latency_rel_def latency_samples_def latency_ring_size_def last_n_all)
next
  case False
  assume rel: "latency_rel hist s"
  have "mset (latency_ring s) = mset (drop (latency_head s) (latency_ring s) @ take (latency_head s) (latency_ring s))"
    by (metis append_take_drop_id mset_append union_commute)
  also have "\<dots> = mset (last_n 256 hist)" using rel False by (auto simp: latency_rel_def simp del: mset_append)
  finally show ?thesis using rel False by (simp add: latency_rel_def latency_samples_def latency_ring_size_def)
qed

subsection \<open>Every operation refines its abstract counterpart\<close>

definition stats_rel :: "history \<Rightarrow> stats \<Rightarrow> bool" where
  "stats_rel h s \<longleftrightarrow> rate_rel (h_log h) s \<and> latency_rel (h_latencies h) s \<and> h_clock h = bucket_unix s"

lemma advance_buckets_frame [simp]:
  "latency_ring (advance_buckets now s) = latency_ring s"
  "latency_head (advance_buckets now s) = latency_head s"
  "latency_n (advance_buckets now s) = latency_n s"
  "http_requests (advance_buckets now s) = http_requests s"
  "http_active (advance_buckets now s) = http_active s"
  "ws_active (advance_buckets now s) = ws_active s"
  by (simp_all add: advance_buckets_def)

lemma bump_bucket_frame [simp]:
  "latency_ring (bump_bucket now r b s) = latency_ring s"
  "latency_head (bump_bucket now r b s) = latency_head s"
  "latency_n (bump_bucket now r b s) = latency_n s"
  "http_requests (bump_bucket now r b s) = http_requests s"
  "http_active (bump_bucket now r b s) = http_active s"
  "ws_active (bump_bucket now r b s) = ws_active s"
  by (simp_all add: bump_bucket_def Let_def)

lemma latency_rel_cong:
  "latency_ring s' = latency_ring s \<Longrightarrow> latency_head s' = latency_head s \<Longrightarrow> latency_n s' = latency_n s \<Longrightarrow>
   latency_rel hist s' = latency_rel hist s"
  by (simp add: latency_rel_def)

lemma rate_rel_cong:
  "rps_buckets s' = rps_buckets s \<Longrightarrow> bps_buckets s' = bps_buckets s \<Longrightarrow> bucket_unix s' = bucket_unix s \<Longrightarrow>
   rate_rel log s' = rate_rel log s"
  by (simp add: rate_rel_def)

lemma stats_rel_cong:
  assumes "latency_ring s' = latency_ring s" "latency_head s' = latency_head s" "latency_n s' = latency_n s"
    "rps_buckets s' = rps_buckets s" "bps_buckets s' = bps_buckets s" "bucket_unix s' = bucket_unix s"
  shows "stats_rel h s' = stats_rel h s"
  using assms latency_rel_cong [of s' s] rate_rel_cong [of s' s] by (simp add: stats_rel_def)

lemma stats_rel_bump:
  assumes "stats_rel h s" "clock_ok (h_clock h) now"
  shows "stats_rel (log_at now [(unix now, r, b)] h) (bump_bucket now r b s)"
  using assms rate_rel_bump [of "h_log h" s now r b] latency_rel_cong [of "bump_bucket now r b s" s]
  by (simp add: stats_rel_def log_at_def)

lemma stats_rel_advance:
  assumes "stats_rel h s" "0 < unix now"
  shows "stats_rel (log_at now [] h) (advance_buckets (unix now) s)"
  using assms rate_rel_advance [of "h_log h" s "unix now"] latency_rel_cong [of "advance_buckets (unix now) s" s]
  by (simp add: stats_rel_def log_at_def)

lemma stats_rel_push:
  assumes "stats_rel h s"
  shows "stats_rel (h\<lparr>h_latencies := h_latencies h @ [x]\<rparr>) (push_latency x s)"
proof -
  have "rate_rel (h_log h) (push_latency x s)"
    using assms rate_rel_cong [of "push_latency x s" s]
    by (simp add: stats_rel_def push_latency_def Let_def)
  moreover have "bucket_unix (push_latency x s) = bucket_unix s" by (simp add: push_latency_def Let_def)
  ultimately show ?thesis using assms latency_rel_push [of "h_latencies h" s x] by (simp add: stats_rel_def)
qed

lemma stats_rel_new: "stats_rel new_history (new_stats name)"
  using rate_rel_new [of name] latency_rel_new [of name]
  by (simp add: stats_rel_def new_history_def new_stats_def)

lemma snd_snapshot [simp]: "snd (snapshot now s) = advance_buckets (unix now) s"
  by (simp add: snapshot_def Let_def split: prod.splits)

lemma stats_rel_http_bytes:
  assumes "stats_rel h s" "clock_ok (h_clock h) now"
  shows "stats_rel (log_at now [(unix now, 0, i + out)] h) (add_http_bytes now i out s)"
  unfolding add_http_bytes_def Let_def
  by (rule stats_rel_bump [OF _ assms(2)]) (rule stats_rel_cong [THEN iffD2, OF _ _ _ _ _ _ assms(1)], simp_all)

lemma stats_rel_ws_bytes:
  assumes "stats_rel h s" "clock_ok (h_clock h) now"
  shows "stats_rel (log_at now [(unix now, 0, i + out)] h) (add_ws_bytes now i out s)"
  unfolding add_ws_bytes_def Let_def
  by (rule stats_rel_bump [OF _ assms(2)]) (rule stats_rel_cong [THEN iffD2, OF _ _ _ _ _ _ assms(1)], simp_all)

lemma log_at_clock [simp]: "h_clock (log_at now es h) = max (h_clock h) (unix now)"
  by (simp add: log_at_def)

lemma stats_rel_completed:
  assumes "stats_rel h s" "clock_ok (h_clock h) now1" "clock_ok (max (h_clock h) (unix now1)) now2"
  shows "stats_rel (history_op (OpHttpCompleted now1 now2 lat i out) h) (http_completed now1 now2 lat i out s)"
proof -
  let ?s1 = "s\<lparr>http_requests := http_requests s + 1\<rparr>"
  have "stats_rel h ?s1" by (rule stats_rel_cong [THEN iffD2, OF _ _ _ _ _ _ assms(1)]) simp_all
  from stats_rel_push [OF stats_rel_http_bytes [OF this assms(2)]]
  have "stats_rel (let h1 = log_at now1 [(unix now1, 0, i + out)] h
      in h1\<lparr>h_latencies := h_latencies h1 @ [clamp_usec lat]\<rparr>)
      (push_latency (clamp_usec lat) (add_http_bytes now1 i out ?s1))" by (simp add: Let_def)
  from stats_rel_bump [OF this, of now2 1 0] assms(3) show ?thesis
    by (simp add: Let_def http_completed_def)
qed

lemma stats_rel_untouched [simp]:
  "stats_rel h (mark_connected now r s) = stats_rel h s"
  "stats_rel h (mark_disconnected now s) = stats_rel h s"
  "stats_rel h (http_stream_start s) = stats_rel h s"
  "stats_rel h (http_stream_end s) = stats_rel h s"
  "stats_rel h (ws_start s) = stats_rel h s"
  "stats_rel h (ws_end s) = stats_rel h s"
  by (rule stats_rel_cong; simp add: mark_connected_def mark_disconnected_def http_stream_start_def
      http_stream_end_def ws_start_def ws_end_def)+

lemma stats_op_refines: "stats_rel h s \<Longrightarrow> op_clock_ok x h \<Longrightarrow> stats_rel (history_op x h) (apply_op x s)"
proof (cases x)
  case (OpHttpCompleted n1 n2 l i out)
  moreover assume "stats_rel h s" "op_clock_ok x h"
  ultimately show ?thesis using stats_rel_completed [of h s n1 n2 l i out] by simp
qed (simp_all add: stats_rel_http_bytes stats_rel_ws_bytes stats_rel_advance)

interpretation stats_sim: simulation apply_op history_op op_clock_ok stats_rel
  by unfold_locales (rule stats_op_refines)

subsection \<open>The ring read by a snapshot\<close>

lemma go_rem_wrap:
  fixes a :: int
  shows "(if go_rem a 60 < 0 then go_rem a 60 + 60 else go_rem a 60) = a mod 60"
proof (cases "a < 0")
  case True
  then have "go_rem a 60 = (if a mod 60 = 0 then 0 else a mod 60 - 60)"
    by (simp add: go_rem_def zmod_zminus1_eq_if)
  moreover have "0 \<le> a mod 60" "a mod 60 < 60" by simp_all
  ultimately show ?thesis by simp
next
  case False
  then have "go_rem a 60 = a mod 60" by (cases "a = 0") (simp_all add: go_rem_def)
  then show ?thesis by simp
qed

lemma ring_index_bucket: "ring_index now i = bucket_of (int now - 59 + int i)"
proof -
  have "ring_index now i = nat ((int now - 59 + int i) mod 60)"
    using go_rem_wrap [of "int now - 59 + int i"]
    by (simp add: ring_index_def rate_ring_size_def Let_def split: if_splits)
  then show ?thesis by (simp add: bucket_of_def)
qed

lemma snapshot_reads_log:
  assumes "stats_rel h s" "h_clock h \<le> unix now" "0 < unix now"
  shows "sn_rps60 (fst (snapshot now s)) = map (\<lambda>i. reqs_at (h_log h) (int (unix now) - 59 + int i)) [0..<60]"
    and "sn_bps60 (fst (snapshot now s)) = map (\<lambda>i. bytes_at (h_log h) (int (unix now) - 59 + int i)) [0..<60]"
proof -
  let ?s = "advance_buckets (unix now) s"
  have rel: "rate_rel (h_log h) ?s" and b: "bucket_unix ?s = unix now"
    using rate_rel_advance [of "h_log h" s "unix now"] assms by (auto simp: stats_rel_def)
  have cell: "rps_buckets ?s ! ring_index (unix now) i = reqs_at (h_log h) (int (unix now) - 59 + int i) \<and>
      bps_buckets ?s ! ring_index (unix now) i = bytes_at (h_log h) (int (unix now) - 59 + int i)"
    if "i < 60" for i
    using rel that unfolding rate_rel_def b ring_index_bucket by (auto simp: in_window_def)
  show "sn_rps60 (fst (snapshot now s)) = map (\<lambda>i. reqs_at (h_log h) (int (unix now) - 59 + int i)) [0..<60]"
    and "sn_bps60 (fst (snapshot now s)) = map (\<lambda>i. bytes_at (h_log h) (int (unix now) - 59 + int i)) [0..<60]"
    using cell by (auto simp: snapshot_def Let_def rate_ring_size_def split: prod.splits)
qed

lemma snapshot_percentiles:
  "(sn_p50 (fst (snapshot now s)), sn_p95 (fst (snapshot now s)), sn_p99 (fst (snapshot now s))) =
   percentiles (latency_samples s)"
  by (simp add: snapshot_def Let_def latency_samples_def split: prod.splits)

subsection \<open>Properties\<close>

text \<open>
  C12. Rolling rates. Whatever sequence of operations a service's statistics went through, the
  60 cells of a snapshot are, oldest first, the numbers of requests completed (and of bytes
  moved) in each of the last sixty seconds, as long as the clock was never set back by a
  minute or more.
\<close>

theorem snapshot_shows_last_minute:
  assumes "guarded op_clock_ok history_op ops new_history"
    and "h_clock (fold history_op ops new_history) \<le> unix now" and "0 < unix now"
  shows "sn_rps60 (fst (snapshot now (fold apply_op ops (new_stats name)))) =
      map (\<lambda>i. reqs_at (h_log (fold history_op ops new_history)) (int (unix now) - 59 + int i)) [0..<60]
    \<and> sn_bps60 (fst (snapshot now (fold apply_op ops (new_stats name)))) =
      map (\<lambda>i. bytes_at (h_log (fold history_op ops new_history)) (int (unix now) - 59 + int i)) [0..<60]"
  using snapshot_reads_log [OF stats_sim.sim_run [OF stats_rel_new assms(1)] assms(2,3)] by blast

text \<open>
  C21. Latency percentiles. A snapshot's percentiles are those of the last 256 latencies, however
  often the ring wrapped: of \<open>n\<close> sorted samples the entries at \<open>(n - 1) p / 100\<close>, rounded down, for p = 50, 95 and 99; the float64
  product of the code is exact enough for every ring fill. (Rounding down gives no more than the nearest-rank
  percentile: of two samples the smaller one is shown as the 99th.)
\<close>

theorem snapshot_percentiles_exact:
  assumes "guarded op_clock_ok history_op ops new_history"
    and "samples = last_n 256 (h_latencies (fold history_op ops new_history))" and "samples \<noteq> []"
  shows "(sn_p50 (fst (snapshot now (fold apply_op ops (new_stats name)))),
          sn_p95 (fst (snapshot now (fold apply_op ops (new_stats name)))),
          sn_p99 (fst (snapshot now (fold apply_op ops (new_stats name))))) =
    (sort samples ! ((length samples - 1) * 50 div 100),
     sort samples ! ((length samples - 1) * 95 div 100),
     sort samples ! ((length samples - 1) * 99 div 100))"
proof -
  let ?s = "fold apply_op ops (new_stats name)"
  have "stats_rel (fold history_op ops new_history) ?s"
    by (rule stats_sim.sim_run [OF stats_rel_new assms(1)])
  then have "mset (latency_samples ?s) = mset samples"
    using latency_samples_mset assms(2) by (simp add: stats_rel_def)
  then have "percentiles (latency_samples ?s) = percentiles samples" by (rule percentiles_mset)
  with percentiles_sorted [of samples] assms(2,3) show ?thesis
    by (simp add: snapshot_percentiles)
qed

subsection \<open>A concrete service\<close>

definition demo_ops :: "stats_op list" where
  "demo_ops =
     [OpHttpStart, OpHttpCompleted (100 * 1000000000) (100 * 1000000000) 7000 1 2, OpHttpEnd,
      OpHttpCompleted (101 * 1000000000) (101 * 1000000000) 9000 0 5]"

lemma demo_guarded: "guarded op_clock_ok history_op demo_ops new_history"
  by (simp add: demo_ops_def new_history_def log_at_def clock_ok_def unix_def rate_ring_size_def)

lemma demo_history:
  "h_clock (fold history_op demo_ops new_history) = 101"
  "h_log (fold history_op demo_ops new_history) = [(100, 0, 3), (100, 1, 0), (101, 0, 5), (101, 1, 0)]"
  "h_latencies (fold history_op demo_ops new_history) = [clamp_usec 7000, clamp_usec 9000]"
  by (simp_all add: demo_ops_def new_history_def log_at_def unix_def)

theorem snapshot_shows_last_minute_witness:
  "let sn = fst (snapshot (102 * 1000000000) (fold apply_op demo_ops (new_stats ''foo'')))
   in sn_rps60 sn ! 58 = 1 \<and> sn_bps60 sn ! 57 = 3"
  using snapshot_shows_last_minute [OF demo_guarded, of "102 * 1000000000" "''foo''"]
  by (simp add: demo_history unix_def Let_def reqs_at_def bytes_at_def)

theorem snapshot_percentiles_exact_witness:
  "sn_p99 (fst (snapshot (102 * 1000000000) (fold apply_op demo_ops (new_stats ''foo'')))) = 7"
  using snapshot_percentiles_exact [OF demo_guarded refl, of "102 * 1000000000" "''foo''"]
  by (simp add: demo_history last_n_def clamp_usec_def)

end
