(* ===== verification/Registry.thy ===== *)
theory Registry
  imports StatsSpec
begin

text \<open>
  \<open>server/session.go\<close> and \<open>server/registry.go\<close>: sessions, the registry of live sessions with
  its takeover rule, and the reconnect grace window of \<open>Lookup\<close>.

  A \<open>*Session\<close> and a notifier channel are numbers that stand for the pointers; the registry
  record holds the heap of session objects and the state of the channels beside the fields of
  the Go struct. Every operation is split where the code takes and releases \<open>r.mu\<close>, so the
  same definitions serve the sequential lemmas here and the interleavings of the theory
  RegistryRaces.
\<close>

subsection \<open>State\<close>

record session =
  s_service :: string
  s_token :: string
  s_remote :: string
  s_stats :: "string option" \<comment> \<open>the \<open>*Stats\<close>, named by its key; \<open>None\<close> is nil\<close>
  s_mux_closed :: bool \<comment> \<open>the yamux session under it is closed\<close>
  s_closed :: bool \<comment> \<open>\<open>closeOnce\<close> has run and \<open>closed\<close> is closed\<close>

record registry =
  grace :: int
  reg_stats :: stats_registry
  sessions :: "string \<rightharpoonup> nat"
  notifiers :: "string \<rightharpoonup> nat"
  last_seen :: "string \<rightharpoonup> nat"
  objs :: "nat \<rightharpoonup> session"
  chans :: "nat \<rightharpoonup> bool" \<comment> \<open>every channel made so far, and whether it is closed\<close>
  panicked :: bool \<comment> \<open>a closed channel was closed again\<close>

definition new_registry :: "int \<Rightarrow> registry" where
  "new_registry g =
     \<lparr> grace = g, reg_stats = new_stats_registry, sessions = (\<lambda>_. None), notifiers = (\<lambda>_. None),
       last_seen = (\<lambda>_. None), objs = (\<lambda>_. None), chans = (\<lambda>_. None), panicked = False \<rparr>"

subsection \<open>Sessions\<close>

definition new_session :: "string \<Rightarrow> string \<Rightarrow> string \<Rightarrow> session" where
  "new_session service token rem =
     \<lparr> s_service = service, s_token = token, s_remote = rem, s_stats = None,
       s_mux_closed = False, s_closed = False \<rparr>"

text \<open>\<open>Session.Close\<close>: \<open>sync.Once\<close> makes every call after the first a no-op.\<close>

definition close_once :: "session \<Rightarrow> session" where
  "close_once s = (if s_closed s then s else s\<lparr>s_mux_closed := True, s_closed := True\<rparr>)"

definition session_close :: "nat \<Rightarrow> registry \<Rightarrow> registry" where
  "session_close sid r =
     (case objs r sid of None \<Rightarrow> r | Some s \<Rightarrow> r\<lparr>objs := (objs r)(sid \<mapsto> close_once s)\<rparr>)"

text \<open>\<open>OpenStream\<close>; \<open>mux_open\<close> is what yamux answers when the session is not closed.\<close>

definition open_stream :: "nat \<Rightarrow> (string + 'st) \<Rightarrow> registry \<Rightarrow> string + 'st" where
  "open_stream sid mux_open r =
     (case objs r sid of
        None \<Rightarrow> Inl ''session closed''
      | Some s \<Rightarrow> if s_mux_closed s then Inl ''session closed'' else mux_open)"

definition close_chan :: "nat \<Rightarrow> registry \<Rightarrow> registry" where
  "close_chan c r =
     (case chans r c of
        Some False \<Rightarrow> r\<lparr>chans := (chans r)(c \<mapsto> True)\<rparr>
      | _ \<Rightarrow> r\<lparr>panicked := True\<rparr>)"

subsection \<open>Register\<close>

text \<open>Before the lock: attach the statistics and mark them connected.\<close>

definition register_stats :: "nat \<Rightarrow> nat \<Rightarrow> registry \<Rightarrow> registry" where
  "register_stats now sid r =
     (case objs r sid of
        None \<Rightarrow> r
      | Some s \<Rightarrow>
          (case s_stats s of
             None \<Rightarrow>
               r\<lparr>objs := (objs r)(sid \<mapsto> s\<lparr>s_stats := Some (s_service s)\<rparr>),
                 reg_stats := upd_stats (s_service s) (mark_connected now (s_remote s))
                                (stats_get (s_service s) (reg_stats r))\<rparr>
           | Some k \<Rightarrow> r\<lparr>reg_stats := upd_stats k (mark_connected now (s_remote s)) (reg_stats r)\<rparr>))"

text \<open>The critical section: swap the slot, take the waiters' channel out of the map.\<close>

definition register_locked :: "nat \<Rightarrow> nat \<Rightarrow> registry \<Rightarrow> registry \<times> nat option \<times> nat option" where
  "register_locked now sid r =
     (case objs r sid of
        None \<Rightarrow> (r, None, None)
      | Some s \<Rightarrow>
          (r\<lparr>sessions := (sessions r)(s_service s \<mapsto> sid),
             last_seen := (last_seen r)(s_service s \<mapsto> now),
             notifiers := (notifiers r)(s_service s := None)\<rparr>,
           sessions r (s_service s), notifiers r (s_service s)))"

text \<open>After the lock: close the session that was replaced, wake the waiters.\<close>

definition close_old :: "nat \<Rightarrow> nat option \<Rightarrow> registry \<Rightarrow> registry" where
  "close_old sid old r =
     (case old of Some o' \<Rightarrow> (if o' \<noteq> sid then session_close o' r else r) | None \<Rightarrow> r)"

definition wake :: "nat option \<Rightarrow> registry \<Rightarrow> registry" where
  "wake ch r = (case ch of Some c \<Rightarrow> close_chan c r | None \<Rightarrow> r)"

definition register :: "nat \<Rightarrow> nat \<Rightarrow> registry \<Rightarrow> registry" where
  "register now sid r =
     (let (r1, old, ch) = register_locked now sid (register_stats now sid r)
      in wake ch (close_old sid old r1))"

subsection \<open>Unregister\<close>

definition unregister_locked :: "nat \<Rightarrow> nat \<Rightarrow> registry \<Rightarrow> registry \<times> bool" where
  "unregister_locked now sid r =
     (case objs r sid of
        None \<Rightarrow> (r, False)
      | Some s \<Rightarrow>
          if sessions r (s_service s) = Some sid
          then (r\<lparr>sessions := (sessions r)(s_service s := None),
                  last_seen := (last_seen r)(s_service s \<mapsto> now)\<rparr>, True)
          else (r, False))"

definition unregister_stats :: "nat \<Rightarrow> nat \<Rightarrow> bool \<Rightarrow> registry \<Rightarrow> registry" where
  "unregister_stats now sid current r =
     (case objs r sid of
        None \<Rightarrow> r
      | Some s \<Rightarrow>
          (case s_stats s of
             Some k \<Rightarrow> if current then r\<lparr>reg_stats := upd_stats k (mark_disconnected now) (reg_stats r)\<rparr> else r
           | None \<Rightarrow> r))"

definition unregister :: "nat \<Rightarrow> nat \<Rightarrow> registry \<Rightarrow> registry" where
  "unregister now sid r =
     (let (r1, current) = unregister_locked now sid r in unregister_stats now sid current r1)"

subsection \<open>Lookup\<close>

datatype lookup_error = ErrNoClient | ErrContext

datatype lookup_start =
    Found nat
  | NotFound
  | WaitOn nat int \<comment> \<open>the channel and the time left of the grace window\<close>

text \<open>
  The part under the lock. \<open>time.Since(last)\<close> is read twice, at \<open>now1\<close> for the test and at
  \<open>now2\<close> for the remaining time; \<open>fresh\<close> is the channel \<open>make\<close> returns if one is needed.
\<close>

definition lookup_locked :: "nat \<Rightarrow> nat \<Rightarrow> nat \<Rightarrow> string \<Rightarrow> registry \<Rightarrow> registry \<times> lookup_start" where
  "lookup_locked now1 now2 fresh service r =
     (case sessions r service of
        Some sid \<Rightarrow> (r, Found sid)
      | None \<Rightarrow>
          (case last_seen r service of
             None \<Rightarrow> (r, NotFound)
           | Some seen \<Rightarrow>
               if int now1 - int seen > grace r then (r, NotFound)
               else
                 (let (r', ch) =
                        (case notifiers r service of
                           Some c \<Rightarrow> (r, c)
                         | None \<Rightarrow> (r\<lparr>chans := (chans r)(fresh \<mapsto> False),
                                      notifiers := (notifiers r)(service \<mapsto> fresh)\<rparr>, fresh));
                      remaining = grace r - (int now2 - int seen)
                  in (r', if remaining \<le> 0 then NotFound else WaitOn ch remaining))))"

datatype wake_reason = Notified | TimerFired | CtxDone

text \<open>The \<open>select\<close>: what the waiting goroutine returns for each case.\<close>

definition lookup_select :: "wake_reason \<Rightarrow> string \<Rightarrow> registry \<Rightarrow> lookup_error + nat" where
  "lookup_select why service r =
     (case why of
        Notified \<Rightarrow> (case sessions r service of None \<Rightarrow> Inl ErrNoClient | Some sid \<Rightarrow> Inr sid)
      | TimerFired \<Rightarrow> Inl ErrNoClient
      | CtxDone \<Rightarrow> Inl ErrContext)"

subsection \<open>HasService and CloseAll\<close>

definition has_service :: "string \<Rightarrow> registry \<Rightarrow> bool" where
  "has_service service r \<longleftrightarrow> sessions r service \<noteq> None \<or> last_seen r service \<noteq> None"

text \<open>\<open>CloseAll\<close> collects the sessions under the lock; \<open>names\<close> lists the domain of the map.\<close>

definition close_all_locked :: "string list \<Rightarrow> registry \<Rightarrow> registry \<times> nat list" where
  "close_all_locked names r =
     (r\<lparr>sessions := (\<lambda>_. None)\<rparr>, List.map_filter (sessions r) names)"

definition close_all :: "string list \<Rightarrow> registry \<Rightarrow> registry" where
  "close_all names r =
     (let (r1, sess) = close_all_locked names r in fold session_close sess r1)"

subsection \<open>What each critical section does\<close>

lemma session_close_fields [simp]:
  "sessions (session_close sid r) = sessions r" "notifiers (session_close sid r) = notifiers r"
  "last_seen (session_close sid r) = last_seen r" "chans (session_close sid r) = chans r"
  "panicked (session_close sid r) = panicked r" "reg_stats (session_close sid r) = reg_stats r"
  "grace (session_close sid r) = grace r"
  by (simp_all add: session_close_def split: option.split)

lemma close_once_fields [simp]:
  "s_service (close_once s) = s_service s" "s_stats (close_once s) = s_stats s"
  "s_remote (close_once s) = s_remote s" "s_closed (close_once s)"
  by (simp_all add: close_once_def)

lemma objs_session_close:
  "objs (session_close sid r) x =
     (if x = sid then map_option close_once (objs r sid) else objs r x)"
  by (simp add: session_close_def split: option.split)

lemma close_chan_fields [simp]:
  "sessions (close_chan c r) = sessions r" "notifiers (close_chan c r) = notifiers r"
  "last_seen (close_chan c r) = last_seen r" "objs (close_chan c r) = objs r"
  "reg_stats (close_chan c r) = reg_stats r" "grace (close_chan c r) = grace r"
  by (auto simp: close_chan_def split: option.split bool.split)

lemma wake_fields [simp]:
  "sessions (wake ch r) = sessions r" "notifiers (wake ch r) = notifiers r"
  "last_seen (wake ch r) = last_seen r" "objs (wake ch r) = objs r"
  "reg_stats (wake ch r) = reg_stats r" "grace (wake ch r) = grace r"
  by (simp_all add: wake_def split: option.split)

lemma close_old_fields [simp]:
  "sessions (close_old sid old r) = sessions r" "notifiers (close_old sid old r) = notifiers r"
  "last_seen (close_old sid old r) = last_seen r" "chans (close_old sid old r) = chans r"
  "panicked (close_old sid old r) = panicked r" "reg_stats (close_old sid old r) = reg_stats r"
  "grace (close_old sid old r) = grace r"
  by (simp_all add: close_old_def split: option.split)

lemma objs_close_old:
  "objs (close_old sid old r) x =
     (if old = Some x \<and> x \<noteq> sid then map_option close_once (objs r x) else objs r x)"
  by (auto simp: close_old_def objs_session_close split: option.split)

lemma register_stats_fields [simp]:
  "sessions (register_stats now sid r) = sessions r" "notifiers (register_stats now sid r) = notifiers r"
  "last_seen (register_stats now sid r) = last_seen r" "chans (register_stats now sid r) = chans r"
  "panicked (register_stats now sid r) = panicked r" "grace (register_stats now sid r) = grace r"
  by (simp_all add: register_stats_def split: option.split)

lemma objs_register_stats:
  "objs (register_stats now sid r) x =
     (if x = sid then map_option (\<lambda>s. if s_stats s = None then s\<lparr>s_stats := Some (s_service s)\<rparr> else s) (objs r sid)
      else objs r x)"
  by (auto simp: register_stats_def split: option.split)

lemma unregister_stats_fields [simp]:
  "sessions (unregister_stats now sid cur r) = sessions r" "notifiers (unregister_stats now sid cur r) = notifiers r"
  "last_seen (unregister_stats now sid cur r) = last_seen r" "chans (unregister_stats now sid cur r) = chans r"
  "panicked (unregister_stats now sid cur r) = panicked r" "objs (unregister_stats now sid cur r) = objs r"
  "grace (unregister_stats now sid cur r) = grace r"
  by (simp_all add: unregister_stats_def split: option.split)

subsection \<open>The registry's invariant\<close>

definition owner :: "registry \<Rightarrow> nat \<Rightarrow> string option" where
  "owner r sid = map_option s_service (objs r sid)"

definition slots_ok :: "registry \<Rightarrow> bool" where
  "slots_ok r \<longleftrightarrow>
     (\<forall>svc sid. sessions r svc = Some sid \<longrightarrow> owner r sid = Some svc \<and> last_seen r svc \<noteq> None)"

definition chans_ok :: "registry \<Rightarrow> bool" where
  "chans_ok r \<longleftrightarrow>
     \<not> panicked r \<and>
     (\<forall>svc c. notifiers r svc = Some c \<longrightarrow> chans r c = Some False \<and> sessions r svc = None) \<and>
     (\<forall>svc svc' c. notifiers r svc = Some c \<longrightarrow> notifiers r svc' = Some c \<longrightarrow> svc = svc')"

definition registry_ok :: "registry \<Rightarrow> bool" where
  "registry_ok r \<longleftrightarrow> slots_ok r \<and> chans_ok r"

lemma owner_simps [simp]:
  "owner (session_close sid r) = owner r" "owner (close_chan c r) = owner r" "owner (wake ch r) = owner r"
  "owner (close_old sid old r) = owner r" "owner (register_stats now sid r) = owner r"
  "owner (unregister_stats now sid cur r) = owner r"
  by (auto simp: owner_def fun_eq_iff objs_session_close objs_close_old objs_register_stats
      option.map_comp comp_def intro!: map_option_cong)

lemma owner_updates [simp]:
  "owner (r\<lparr>sessions := a\<rparr>) = owner r" "owner (r\<lparr>last_seen := b\<rparr>) = owner r"
  "owner (r\<lparr>notifiers := c\<rparr>) = owner r" "owner (r\<lparr>chans := d\<rparr>) = owner r"
  "owner (r\<lparr>reg_stats := e\<rparr>) = owner r"
  by (simp_all add: owner_def fun_eq_iff)

lemma registry_ok_new [simp]: "registry_ok (new_registry g)"
  by (simp add: registry_ok_def slots_ok_def chans_ok_def new_registry_def)

lemma owner_SomeE:
  assumes "owner r sid = Some svc"
  obtains s where "objs r sid = Some s" "s_service s = svc"
  using assms by (auto simp: owner_def)

lemma register_fields:
  assumes "owner r sid = Some svc"
  shows "sessions (register now sid r) = (sessions r)(svc \<mapsto> sid)"
    and "last_seen (register now sid r) = (last_seen r)(svc \<mapsto> now)"
    and "notifiers (register now sid r) = (notifiers r)(svc := None)"
    and "owner (register now sid r) = owner r"
    and "chans (register now sid r) = chans (wake (notifiers r svc) r)"
    and "panicked (register now sid r) = panicked (wake (notifiers r svc) r)"
    and "grace (register now sid r) = grace r"
proof -
  obtain s where s: "objs r sid = Some s" "s_service s = svc" using assms by (rule owner_SomeE)
  let ?r0 = "register_stats now sid r"
  have o0: "\<exists>s0. objs ?r0 sid = Some s0 \<and> s_service s0 = svc" using s by (simp add: objs_register_stats)
  then have lk: "register_locked now sid ?r0 =
      (?r0\<lparr>sessions := (sessions r)(svc \<mapsto> sid), last_seen := (last_seen r)(svc \<mapsto> now),
           notifiers := (notifiers r)(svc := None)\<rparr>, sessions r svc, notifiers r svc)"
    by (auto simp: register_locked_def)
  have "owner ?r0 = owner r" by simp
  then have ow: "owner (fst (register_locked now sid ?r0)) = owner r"
    by (simp add: lk)
  show "sessions (register now sid r) = (sessions r)(svc \<mapsto> sid)"
    "last_seen (register now sid r) = (last_seen r)(svc \<mapsto> now)"
    "notifiers (register now sid r) = (notifiers r)(svc := None)"
    "grace (register now sid r) = grace r"
    by (simp_all add: register_def lk)
  show "owner (register now sid r) = owner r" using ow by (simp add: register_def lk)
  show "chans (register now sid r) = chans (wake (notifiers r svc) r)"
    "panicked (register now sid r) = panicked (wake (notifiers r svc) r)"
    by (simp_all add: register_def lk wake_def close_chan_def split: option.split bool.split)
qed

lemma register_ok:
  assumes ok: "registry_ok r" and own: "owner r sid = Some svc"
  shows "registry_ok (register now sid r)"
proof -
  have "chans (wake (notifiers r svc) r) c = (if notifiers r svc = Some c then Some True else chans r c)"
    and "\<not> panicked (wake (notifiers r svc) r)" for c
    using ok by (auto simp: registry_ok_def chans_ok_def wake_def close_chan_def split: option.split)
  with ok show ?thesis
    by (auto simp: registry_ok_def slots_ok_def chans_ok_def register_fields [OF own] own)
qed

lemma unregister_fields:
  assumes "owner r sid = Some svc"
  shows "sessions (unregister now sid r) =
      (if sessions r svc = Some sid then (sessions r)(svc := None) else sessions r)"
    and "last_seen (unregister now sid r) =
      (if sessions r svc = Some sid then (last_seen r)(svc \<mapsto> now) else last_seen r)"
    and "notifiers (unregister now sid r) = notifiers r" "owner (unregister now sid r) = owner r"
    and "chans (unregister now sid r) = chans r" "panicked (unregister now sid r) = panicked r"
    and "objs (unregister now sid r) = objs r" "grace (unregister now sid r) = grace r"
  using assms by (auto simp: unregister_def unregister_locked_def owner_def split: if_splits prod.splits)

lemma unregister_ok:
  assumes "registry_ok r" "owner r sid = Some svc"
  shows "registry_ok (unregister now sid r)"
  using assms by (auto simp: registry_ok_def slots_ok_def chans_ok_def unregister_fields split: if_splits)

lemma unregister_stale:
  assumes "owner r sid = Some svc" "sessions r svc \<noteq> Some sid"
  shows "unregister now sid r = r"
  using assms by (auto simp: owner_def unregister_def unregister_locked_def unregister_stats_def split: option.splits)

lemma register_objs:
  assumes "objs r sid = Some s" "registry_ok r"
  shows "objs (register now sid r) x =
    (if x = sid then Some (if s_stats s = None then s\<lparr>s_stats := Some (s_service s)\<rparr> else s)
     else if sessions r (s_service s) = Some x then map_option close_once (objs r x) else objs r x)"
proof -
  let ?r0 = "register_stats now sid r" and ?svc = "s_service s"
  have o0: "objs ?r0 sid = Some (if s_stats s = None then s\<lparr>s_stats := Some ?svc\<rparr> else s)"
    using assms by (simp add: objs_register_stats)
  then have lk: "register_locked now sid ?r0 =
      (?r0\<lparr>sessions := (sessions r)(?svc \<mapsto> sid), last_seen := (last_seen r)(?svc \<mapsto> now),
           notifiers := (notifiers r)(?svc := None)\<rparr>, sessions r ?svc, notifiers r ?svc)"
    by (auto simp: register_locked_def)
  show ?thesis
    using assms by (simp add: register_def lk objs_close_old objs_register_stats)
qed

lemma lookup_locked_hit:
  "sessions r service = Some sid \<Longrightarrow> lookup_locked now1 now2 fresh service r = (r, Found sid)"
  by (simp add: lookup_locked_def)

lemma lookup_locked_unknown:
  "sessions r service = None \<Longrightarrow> last_seen r service = None \<Longrightarrow>
   lookup_locked now1 now2 fresh service r = (r, NotFound)"
  by (simp add: lookup_locked_def)

lemma lookup_locked_stale:
  "sessions r service = None \<Longrightarrow> last_seen r service = Some seen \<Longrightarrow> grace r < int now1 - int seen \<Longrightarrow>
   lookup_locked now1 now2 fresh service r = (r, NotFound)"
  by (simp add: lookup_locked_def)

lemma lookup_locked_wait:
  assumes "sessions r service = None" "last_seen r service = Some seen" "int now1 - int seen \<le> grace r"
    and "int now2 - int seen < grace r"
  shows "\<exists>c. snd (lookup_locked now1 now2 fresh service r) = WaitOn c (grace r - (int now2 - int seen)) \<and>
    notifiers (fst (lookup_locked now1 now2 fresh service r)) service = Some c"
  using assms by (simp add: lookup_locked_def Let_def split: option.split)

lemma lookup_locked_ok:
  assumes "registry_ok r" "chans r fresh = None"
  shows "registry_ok (fst (lookup_locked now1 now2 fresh service r))"
proof -
  have "notifiers r svc \<noteq> Some fresh" for svc using assms by (auto simp: registry_ok_def chans_ok_def)
  with assms show ?thesis
    by (auto simp: lookup_locked_def Let_def registry_ok_def slots_ok_def chans_ok_def owner_def
        split: option.splits)
qed

lemma lookup_locked_frame [simp]:
  "sessions (fst (lookup_locked now1 now2 fresh service r)) = sessions r"
  "last_seen (fst (lookup_locked now1 now2 fresh service r)) = last_seen r"
  "objs (fst (lookup_locked now1 now2 fresh service r)) = objs r"
  "reg_stats (fst (lookup_locked now1 now2 fresh service r)) = reg_stats r"
  "grace (fst (lookup_locked now1 now2 fresh service r)) = grace r"
  "panicked (fst (lookup_locked now1 now2 fresh service r)) = panicked r"
  by (simp_all add: lookup_locked_def Let_def split: option.splits)

subsection \<open>The service directory as its clients see it\<close>

text \<open>
  The router and the certificate policy use the registry through four operations: which
  session answers for a service, whether a service was ever registered, a registration and
  the deregistration at the end of a connection. Everything they rely on follows from the
  laws below, which the registry discharges.
\<close>

locale service_directory =
  fixes inv :: "'r \<Rightarrow> bool" and owns :: "'r \<Rightarrow> 'k \<Rightarrow> 'n option"
    and find :: "'r \<Rightarrow> 'n \<Rightarrow> 'k option" and known :: "'n \<Rightarrow> 'r \<Rightarrow> bool"
    and add :: "nat \<Rightarrow> 'k \<Rightarrow> 'r \<Rightarrow> 'r" and remove :: "nat \<Rightarrow> 'k \<Rightarrow> 'r \<Rightarrow> 'r"
  assumes add_inv: "inv r \<Longrightarrow> owns r k = Some n \<Longrightarrow> inv (add t k r)"
    and remove_inv: "inv r \<Longrightarrow> owns r k = Some n \<Longrightarrow> inv (remove t k r)"
    and add_owns: "owns r k = Some n \<Longrightarrow> owns (add t k r) = owns r"
    and remove_owns: "owns r k = Some n \<Longrightarrow> owns (remove t k r) = owns r"
    and find_owned: "inv r \<Longrightarrow> find r n = Some k \<Longrightarrow> owns r k = Some n"
    and find_known: "inv r \<Longrightarrow> find r n = Some k \<Longrightarrow> known n r"
    and find_add: "owns r k = Some n \<Longrightarrow> find (add t k r) = (find r)(n \<mapsto> k)"
    and find_remove: "owns r k = Some n \<Longrightarrow>
      find (remove t k r) = (if find r n = Some k then (find r)(n := None) else find r)"
    and known_add: "owns r k = Some n \<Longrightarrow> known m (add t k r) \<longleftrightarrow> m = n \<or> known m r"
    and known_remove: "inv r \<Longrightarrow> owns r k = Some n \<Longrightarrow> known m (remove t k r) \<longleftrightarrow> known m r"
begin

text \<open>A takeover survives the late deregistration of the session it replaced.\<close>

lemma takeover_survives:
  assumes "owns r old = Some n" "owns r new = Some n" "old \<noteq> new"
  shows "find (remove t' old (add t new r)) n = Some new"
  using assms by (simp add: find_remove [of "add t new r" old n] find_add add_owns)

lemma other_services_untouched:
  assumes "owns r k = Some n" "m \<noteq> n"
  shows "find (add t k r) m = find r m" "find (remove t k r) m = find r m"
  using assms by (simp_all add: find_add find_remove)

text \<open>A history of registrations and deregistrations, each naming its session.\<close>

definition apply_event :: "nat \<times> bool \<times> 'k \<Rightarrow> 'r \<Rightarrow> 'r" where
  "apply_event e r = (case e of (t, up, k) \<Rightarrow> if up then add t k r else remove t k r)"

lemma split_last_event:
  "(\<exists>a t b. es @ [e] = a @ (t, True, k) # b \<and> Q b) \<longleftrightarrow>
   (\<exists>t. e = (t, True, k) \<and> Q []) \<or> (\<exists>a t b. es = a @ (t, True, k) # b \<and> Q (b @ [e]))"
    (is "?l \<longleftrightarrow> ?r")
proof
  assume ?l
  then obtain a t b where ab: "es @ [e] = a @ (t, True, k) # b" "Q b" by blast
  then show ?r by (cases b rule: rev_cases) auto
next
  assume ?r
  then show ?l
    by (metis append.assoc append_Cons append_Nil)
qed

lemma history_inv:
  "inv r \<Longrightarrow> \<forall>e \<in> set es. owns r (snd (snd e)) \<noteq> None \<Longrightarrow>
   inv (fold apply_event es r) \<and> owns (fold apply_event es r) = owns r"
proof (induction es arbitrary: r)
  case (Cons e es)
  obtain t up k where e: "e = (t, up, k)" by (metis prod_cases3)
  from Cons.prems e obtain n where n: "owns r k = Some n" by auto
  have "inv (apply_event e r)" "owns (apply_event e r) = owns r"
    using Cons.prems n e by (auto simp: apply_event_def add_inv remove_inv add_owns remove_owns)
  with Cons show ?case by simp
qed simp

lemma known_forever:
  "inv r \<Longrightarrow> known n r \<Longrightarrow> \<forall>e \<in> set es. owns r (snd (snd e)) \<noteq> None \<Longrightarrow> known n (fold apply_event es r)"
proof (induction es arbitrary: r)
  case (Cons e es)
  obtain t up k where e: "e = (t, up, k)" by (metis prod_cases3)
  from Cons.prems e obtain m where m: "owns r k = Some m" by auto
  have "inv (apply_event e r)" "owns (apply_event e r) = owns r" "known n (apply_event e r)"
    using Cons.prems m e
    by (auto simp: apply_event_def add_inv remove_inv add_owns remove_owns known_add known_remove)
  with Cons show ?case by simp
qed simp

text \<open>
  Who answers for a name after a history: the session that registered last for it, unless that
  session has deregistered since.
\<close>

lemma history_find:
  assumes "inv r" "find r n = None" "\<forall>(t, up, k) \<in> set es. owns r k \<noteq> None"
  shows "find (fold apply_event es r) n = Some k \<longleftrightarrow>
    owns r k = Some n \<and>
    (\<exists>a t b. es = a @ (t, True, k) # b \<and> (\<forall>(t', up, j) \<in> set b. owns r j = Some n \<longrightarrow> \<not> up \<and> j \<noteq> k))"
  using assms(3)
proof (induction es arbitrary: k rule: rev_induct)
  case Nil
  then show ?case using assms(2) by simp
next
  case (snoc e es)
  obtain t up j where e: "e = (t, up, j)" by (cases e)
  let ?r = "fold apply_event es r"
  obtain m where m: "owns r j = Some m" using snoc.prems e by auto
  have es: "\<forall>(t, up, k) \<in> set es. owns r k \<noteq> None" using snoc.prems by simp
  have "\<forall>e \<in> set es. owns r (snd (snd e)) \<noteq> None" using es by (auto simp: split_beta)
  then have own: "owns ?r = owns r" using history_inv [OF assms(1)] by blast
  then have step: "find (apply_event e ?r) n =
      (if up then (if m = n then Some j else find ?r n)
       else if find ?r m = Some j \<and> m = n then None else find ?r n)"
    using m by (auto simp: e apply_event_def find_add find_remove)
  define H :: "(nat \<times> bool \<times> 'k) list \<Rightarrow> 'k \<Rightarrow> bool" where "H es k \<longleftrightarrow>
    (\<exists>a t b. es = a @ (t, True, k) # b \<and> (\<forall>(t', up, j) \<in> set b. owns r j = Some n \<longrightarrow> \<not> up \<and> j \<noteq> k))" for es k
  have "H (es @ [e]) k \<longleftrightarrow> up \<and> j = k \<or> H es k \<and> (m = n \<longrightarrow> \<not> up \<and> j \<noteq> k)"
    unfolding H_def split_last_event using m by (auto simp: e)
  moreover have found: "find ?r n = Some i \<longleftrightarrow> owns r i = Some n \<and> H es i" for i
    unfolding H_def by (rule snoc.IH [OF es])
  moreover have "j = k" if "owns r j = Some n" "H es j" "owns r k = Some n" "H es k"
    using that found [of j] found [of k] by simp
  ultimately have "find (apply_event e ?r) n = Some k \<longleftrightarrow> owns r k = Some n \<and> H (es @ [e]) k"
    using step m by (cases up; cases "m = n"; cases "j = k") auto
  then show ?case by (simp add: H_def)
qed

end

interpretation directory: service_directory registry_ok owner sessions has_service register unregister
proof unfold_locales
  fix r k n t m
  show "registry_ok r \<Longrightarrow> owner r k = Some n \<Longrightarrow> registry_ok (register t k r)"
    by (rule register_ok)
  show "registry_ok r \<Longrightarrow> owner r k = Some n \<Longrightarrow> registry_ok (unregister t k r)"
    by (rule unregister_ok)
  show "registry_ok r \<Longrightarrow> owner r k = Some n \<Longrightarrow> has_service m (unregister t k r) \<longleftrightarrow> has_service m r"
    by (auto simp: has_service_def unregister_fields registry_ok_def slots_ok_def)
qed (auto simp: register_fields unregister_fields has_service_def registry_ok_def slots_ok_def)

subsection \<open>Properties\<close>

text \<open>A history of \<open>Register\<close> (\<open>True\<close>) and \<open>Unregister\<close> calls, each with its time and session.\<close>

definition registry_event :: "nat \<times> bool \<times> nat \<Rightarrow> registry \<Rightarrow> registry" where
  "registry_event e r = (case e of (t, up, sid) \<Rightarrow> if up then register t sid r else unregister t sid r)"

lemma registry_event_fold: "registry_event = directory.apply_event"
  by (intro ext) (simp add: registry_event_def directory.apply_event_def)

text \<open>
  C8. Last writer wins. After any sequence of registrations and deregistrations, the session that answers
  for a service is the one that registered last for it, if it has not deregistered since; so the late
  deregistration of a session that was taken over never disconnects its successor.
\<close>

theorem last_writer_wins:
  assumes "registry_ok r" "sessions r svc = None" "\<forall>(t, up, k) \<in> set es. owner r k \<noteq> None"
  shows "sessions (fold registry_event es r) svc = Some sid \<longleftrightarrow>
    owner r sid = Some svc \<and>
    (\<exists>a t b. es = a @ (t, True, sid) # b \<and> (\<forall>(t', up, k) \<in> set b. owner r k = Some svc \<longrightarrow> \<not> up \<and> k \<noteq> sid))"
  unfolding registry_event_fold by (rule directory.history_find [OF assms])

text \<open>
  C9. How long a request may wait: a look-up answers at once when the service has a session, waits only for a service that
  was seen within the grace period, for what is left of it (more than nothing, at most the whole period) and on
  an open channel that the next registration closes, and gives up at once otherwise.
\<close>

theorem lookup_wait_bounds:
  assumes "registry_ok r" "chans r fresh = None" "now1 \<le> now2"
    and "\<forall>seen. last_seen r svc = Some seen \<longrightarrow> seen \<le> now1"
  shows "case snd (lookup_locked now1 now2 fresh svc r) of
      Found sid \<Rightarrow> sessions r svc = Some sid
    | WaitOn c left \<Rightarrow> sessions r svc = None \<and> 0 < left \<and> left \<le> grace r \<and>
        (\<exists>seen. last_seen r svc = Some seen \<and> left = grace r - (int now2 - int seen)) \<and>
        notifiers (fst (lookup_locked now1 now2 fresh svc r)) svc = Some c \<and>
        chans (fst (lookup_locked now1 now2 fresh svc r)) c = Some False
    | NotFound \<Rightarrow> sessions r svc = None \<and>
        (\<forall>seen. last_seen r svc = Some seen \<longrightarrow> grace r \<le> int now2 - int seen)"
  using assms
  by (auto simp: lookup_locked_def Let_def registry_ok_def chans_ok_def split: option.split)

subsection \<open>A concrete registry\<close>

definition demo_registry :: registry where
  "demo_registry = (new_registry 10)\<lparr>objs := [0 \<mapsto> new_session ''foo'' ''a'' ''p'', 1 \<mapsto> new_session ''foo'' ''b'' ''q'']\<rparr>"

lemma demo_registry_ok: "registry_ok demo_registry" "sessions demo_registry svc = None"
  "owner demo_registry 0 = Some ''foo''" "owner demo_registry 1 = Some ''foo''" "chans demo_registry c = None"
  by (simp_all add: demo_registry_def registry_ok_def slots_ok_def chans_ok_def new_registry_def new_session_def owner_def)

theorem last_writer_wins_witness:
  "sessions (fold registry_event [(1, True, 0), (2, True, 1), (3, False, 0)] demo_registry) ''foo'' = Some 1"
proof -
  have "\<forall>(t, up, k) \<in> set [(1, True, 0), (2, True, 1), (3, False, 0)]. owner demo_registry k \<noteq> None"
    using demo_registry_ok(4) by (simp add: demo_registry_ok)
  note wins = last_writer_wins [OF demo_registry_ok(1,2) this, of "''foo''" 1]
  show ?thesis
    unfolding wins
    by (intro conjI exI [of _ "[(1, True, 0)]"] exI [of _ 2] exI [of _ "[(3, False, 0)]"]) (simp_all add: demo_registry_ok(4) [simplified])
qed

definition demo_gone :: registry where
  "demo_gone = demo_registry\<lparr>last_seen := [''foo'' \<mapsto> 2]\<rparr>"

theorem lookup_wait_bounds_witness:
  "snd (lookup_locked 5 6 0 ''foo'' demo_gone) = WaitOn 0 6 \<and> (6 :: int) \<le> grace demo_gone"
proof -
  have ok: "registry_ok demo_gone" "chans demo_gone 0 = None"
    using demo_registry_ok by (simp_all add: demo_gone_def registry_ok_def slots_ok_def chans_ok_def)
  have w: "snd (lookup_locked 5 6 0 ''foo'' demo_gone) = WaitOn 0 6"
    by (simp add: lookup_locked_def demo_gone_def demo_registry_def new_registry_def Let_def)
  have "\<forall>seen. last_seen demo_gone ''foo'' = Some seen \<longrightarrow> seen \<le> 5" by (simp add: demo_gone_def)
  from lookup_wait_bounds [OF ok _ this, of 6] w show ?thesis by simp
qed

end
