(* ===== verification/RegistryRaces.thy ===== *)
theory RegistryRaces
  imports Registry
begin

text \<open>
  The registry under concurrency. Each goroutine that touches it is a thread with a program
  counter: a connection handler (register, serve, unregister, as \<open>handleControl\<close> runs them),
  a public request inside \<open>Lookup\<close>, or the shutdown's \<open>CloseAll\<close>. A step is one critical
  section or one call between two critical sections, so every interleaving the mutex allows
  is a run of \<open>reg_step\<close>.
\<close>

subsection \<open>Threads and steps\<close>

datatype pc =
    ToRegister nat                                \<comment> \<open>session made, \<open>Register\<close> not entered\<close>
  | Marked nat                                    \<comment> \<open>statistics marked, before \<open>mu.Lock\<close>\<close>
  | Swapped nat "nat option" "nat option"         \<comment> \<open>slot swapped: the old session, the channel\<close>
  | Waking nat "nat option"                       \<comment> \<open>old session closed, waiters not woken yet\<close>
  | Serving nat                                   \<comment> \<open>in \<open><-sess.Closed()\<close>\<close>
  | Leaving nat                                   \<comment> \<open>in \<open>Unregister\<close>, before \<open>mu.Lock\<close>\<close>
  | Removed nat bool                              \<comment> \<open>after \<open>mu.Unlock\<close>, with \<open>current\<close>\<close>
  | Looking string                                \<comment> \<open>in \<open>Lookup\<close>, before \<open>mu.Lock\<close>\<close>
  | Waiting string nat int                        \<comment> \<open>in the \<open>select\<close>: channel and timer deadline\<close>
  | Answered "lookup_error + nat"
  | Closing "nat list"                            \<comment> \<open>\<open>CloseAll\<close>, sessions still to close\<close>
  | Done

record world =
  reg :: registry
  clk :: nat
  thr :: "nat \<rightharpoonup> pc"

definition goto :: "nat \<Rightarrow> pc \<Rightarrow> world \<Rightarrow> world" where
  "goto t p w = w\<lparr>thr := (thr w)(t \<mapsto> p)\<rparr>"

definition with_reg :: "registry \<Rightarrow> world \<Rightarrow> world" where
  "with_reg r w = w\<lparr>reg := r\<rparr>"

definition init_world :: "world \<Rightarrow> bool" where
  "init_world w \<longleftrightarrow> (\<exists>g now. w = \<lparr>reg = new_registry g, clk = now, thr = (\<lambda>_. None)\<rparr>)"

text \<open>The pc a lookup reaches from its critical section; \<open>now\<close> is the clock when the timer is made.\<close>

fun after_lookup :: "string \<Rightarrow> nat \<Rightarrow> lookup_start \<Rightarrow> pc" where
  "after_lookup svc now (Found sid) = Answered (Inr sid)"
| "after_lookup svc now NotFound = Answered (Inl ErrNoClient)"
| "after_lookup svc now (WaitOn c remaining) = Waiting svc c (int now + remaining)"

inductive reg_step :: "world \<Rightarrow> world \<Rightarrow> bool" where
  accept: "thr w t = None \<Longrightarrow> objs (reg w) sid = None \<Longrightarrow>
     r' = (reg w)\<lparr>objs := (objs (reg w))(sid \<mapsto> new_session svc tok rem)\<rparr> \<Longrightarrow>
     reg_step w (goto t (ToRegister sid) (with_reg r' w))"
| mark: "thr w t = Some (ToRegister sid) \<Longrightarrow>
     reg_step w (goto t (Marked sid) (with_reg (register_stats (clk w) sid (reg w)) w))"
| swap: "thr w t = Some (Marked sid) \<Longrightarrow> register_locked (clk w) sid (reg w) = (r', old, ch) \<Longrightarrow>
     reg_step w (goto t (Swapped sid old ch) (with_reg r' w))"
| evict: "thr w t = Some (Swapped sid old ch) \<Longrightarrow>
     reg_step w (goto t (Waking sid ch) (with_reg (close_old sid old (reg w)) w))"
| notify: "thr w t = Some (Waking sid ch) \<Longrightarrow>
     reg_step w (goto t (Serving sid) (with_reg (wake ch (reg w)) w))"
| connection_lost: "objs (reg w) sid = Some s \<Longrightarrow>
     reg_step w (with_reg ((reg w)\<lparr>objs := (objs (reg w))(sid \<mapsto> s\<lparr>s_mux_closed := True\<rparr>)\<rparr>) w)"
| watch: "objs (reg w) sid = Some s \<Longrightarrow> s_mux_closed s \<Longrightarrow>
     reg_step w (with_reg (session_close sid (reg w)) w)"
| leave: "thr w t = Some (Serving sid) \<Longrightarrow> objs (reg w) sid = Some s \<Longrightarrow> s_closed s \<Longrightarrow>
     reg_step w (goto t (Leaving sid) w)"
| remove: "thr w t = Some (Leaving sid) \<Longrightarrow> unregister_locked (clk w) sid (reg w) = (r', cur) \<Longrightarrow>
     reg_step w (goto t (Removed sid cur) (with_reg r' w))"
| unmark: "thr w t = Some (Removed sid cur) \<Longrightarrow>
     reg_step w (goto t Done (with_reg (unregister_stats (clk w) sid cur (reg w)) w))"
| request: "thr w t = None \<Longrightarrow> reg_step w (goto t (Looking svc) w)"
| look: "thr w t = Some (Looking svc) \<Longrightarrow> clk w \<le> now2 \<Longrightarrow> chans (reg w) fresh = None \<Longrightarrow>
     lookup_locked (clk w) now2 fresh svc (reg w) = (r', res) \<Longrightarrow>
     reg_step w (goto t (after_lookup svc now2 res) (with_reg r' (w\<lparr>clk := now2\<rparr>)))"
| notified: "thr w t = Some (Waiting svc c dl) \<Longrightarrow> chans (reg w) c = Some True \<Longrightarrow>
     reg_step w (goto t (Answered (lookup_select Notified svc (reg w))) w)"
| timer: "thr w t = Some (Waiting svc c dl) \<Longrightarrow> dl \<le> int (clk w) \<Longrightarrow>
     reg_step w (goto t (Answered (lookup_select TimerFired svc (reg w))) w)"
| cancelled: "thr w t = Some (Waiting svc c dl) \<Longrightarrow>
     reg_step w (goto t (Answered (lookup_select CtxDone svc (reg w))) w)"
| shutdown: "thr w t = None \<Longrightarrow> close_all_locked names (reg w) = (r', sess) \<Longrightarrow>
     reg_step w (goto t (Closing sess) (with_reg r' w))"
| close_next: "thr w t = Some (Closing (x # xs)) \<Longrightarrow>
     reg_step w (goto t (Closing xs) (with_reg (session_close x (reg w)) w))"
| tick: "clk w \<le> now \<Longrightarrow> reg_step w (w\<lparr>clk := now\<rparr>)"

lemma goto_simps [simp]:
  "reg (goto t p w) = reg w" "clk (goto t p w) = clk w" "thr (goto t p w) = (thr w)(t \<mapsto> p)"
  by (simp_all add: goto_def)

lemma with_reg_simps [simp]:
  "reg (with_reg r w) = r" "clk (with_reg r w) = clk w" "thr (with_reg r w) = thr w"
  by (simp_all add: with_reg_def)

subsection \<open>No channel is closed twice and no waiter is forgotten\<close>

text \<open>The channel a thread has taken out of the map and not closed yet.\<close>

fun held :: "pc \<Rightarrow> nat option" where
  "held (Swapped sid old ch) = ch"
| "held (Waking sid ch) = ch"
| "held _ = None"

definition holds :: "world \<Rightarrow> nat \<Rightarrow> nat \<Rightarrow> bool" where
  "holds w t c \<longleftrightarrow> (\<exists>p. thr w t = Some p \<and> held p = Some c)"

definition chan_inv :: "world \<Rightarrow> bool" where
  "chan_inv w \<longleftrightarrow>
     chans_ok (reg w) \<and>
     (\<forall>t c. holds w t c \<longrightarrow> chans (reg w) c = Some False) \<and>
     (\<forall>t t' c. holds w t c \<longrightarrow> holds w t' c \<longrightarrow> t = t') \<and>
     (\<forall>t c svc. holds w t c \<longrightarrow> notifiers (reg w) svc \<noteq> Some c)"

definition waiters_inv :: "world \<Rightarrow> bool" where
  "waiters_inv w \<longleftrightarrow>
     (\<forall>t svc c dl. thr w t = Some (Waiting svc c dl) \<longrightarrow>
        chans (reg w) c = Some True \<or> notifiers (reg w) svc = Some c \<or> (\<exists>t'. holds w t' c))"

lemma holds_goto: "holds (goto t p w) u c \<longleftrightarrow> (if u = t then held p = Some c else holds w u c)"
  by (simp add: holds_def)

lemma holds_with_reg [simp]: "holds (with_reg r w) = holds w"
  by (simp add: holds_def fun_eq_iff)

lemma holds_goto_with_reg [simp]: "holds (goto t p (with_reg r w)) = holds (goto t p w)"
  by (simp add: holds_goto fun_eq_iff)

lemma holds_clk [simp]: "holds (w\<lparr>clk := n\<rparr>) = holds w"
  by (simp add: holds_def fun_eq_iff)

lemma register_locked_cases:
  assumes "register_locked now sid r = (r', old, ch)"
  obtains "r' = r" "old = None" "ch = None"
  | s where "objs r sid = Some s" "old = sessions r (s_service s)" "ch = notifiers r (s_service s)"
      "r' = r\<lparr>sessions := (sessions r)(s_service s \<mapsto> sid), last_seen := (last_seen r)(s_service s \<mapsto> now),
             notifiers := (notifiers r)(s_service s := None)\<rparr>"
  using assms by (auto simp: register_locked_def split: option.splits)

lemma unregister_locked_cases:
  assumes "unregister_locked now sid r = (r', cur)"
  obtains "r' = r" "\<not> cur"
  | s where "objs r sid = Some s" "sessions r (s_service s) = Some sid" "cur"
      "r' = r\<lparr>sessions := (sessions r)(s_service s := None), last_seen := (last_seen r)(s_service s \<mapsto> now)\<rparr>"
  using assms by (auto simp: unregister_locked_def split: option.splits if_splits)

lemma lookup_locked_cases:
  assumes "lookup_locked now1 now2 fresh svc r = (r', res)"
  obtains "r' = r" "\<And>c d. res \<noteq> WaitOn c d"
  | c d where "r' = r" "notifiers r svc = Some c" "res = NotFound \<or> res = WaitOn c d" "sessions r svc = None"
  | d where "notifiers r svc = None" "sessions r svc = None" "last_seen r svc \<noteq> None"
      "res = NotFound \<or> res = WaitOn fresh d"
      "r' = r\<lparr>chans := (chans r)(fresh \<mapsto> False), notifiers := (notifiers r)(svc \<mapsto> fresh)\<rparr>"
  using assms by (auto simp: lookup_locked_def Let_def split: option.splits if_splits)

lemma after_lookup_held [simp]: "held (after_lookup svc now res) = None"
  by (cases res) simp_all

lemma chans_ok_close: "chans_ok r \<Longrightarrow> chans r c = Some False \<Longrightarrow> (\<And>svc. notifiers r svc \<noteq> Some c) \<Longrightarrow>
  chans_ok (close_chan c r)"
  by (auto simp: chans_ok_def close_chan_def)

lemma chans_ok_cong:
  assumes "sessions r' = sessions r" "notifiers r' = notifiers r" "chans r' = chans r" "panicked r' = panicked r"
  shows "chans_ok r' = chans_ok r"
  using assms by (simp add: chans_ok_def)

lemma chan_inv_with_reg:
  assumes "chan_inv w" "sessions r' = sessions (reg w)" "notifiers r' = notifiers (reg w)"
    "chans r' = chans (reg w)" "panicked r' = panicked (reg w)"
  shows "chan_inv (with_reg r' w)"
  using assms chans_ok_cong [of r' "reg w"] by (simp add: chan_inv_def)

lemma chan_inv_clk [simp]: "chan_inv (w\<lparr>clk := n\<rparr>) = chan_inv w"
  by (simp add: chan_inv_def)

lemma chan_inv_goto: "chan_inv w \<Longrightarrow> held p = None \<Longrightarrow> chan_inv (goto t p w)"
  by (auto simp: chan_inv_def holds_goto)

lemma chan_inv_frame:
  assumes "chan_inv w" "held p = None" "sessions r' = sessions (reg w)" "notifiers r' = notifiers (reg w)"
    "chans r' = chans (reg w)" "panicked r' = panicked (reg w)"
  shows "chan_inv (goto t p (with_reg r' w))"
  using assms by (intro chan_inv_goto chan_inv_with_reg)

lemma chan_inv_swap:
  assumes inv: "chan_inv w" and rl: "register_locked now sid (reg w) = (r', old, ch)"
  shows "chan_inv (goto t (Swapped sid old ch) (with_reg r' w))"
  using rl
proof (rule register_locked_cases)
  fix s
  assume s: "objs (reg w) sid = Some s" "old = sessions (reg w) (s_service s)"
    "ch = notifiers (reg w) (s_service s)"
    and r': "r' = (reg w)\<lparr>sessions := (sessions (reg w))(s_service s \<mapsto> sid),
        last_seen := (last_seen (reg w))(s_service s \<mapsto> now), notifiers := (notifiers (reg w))(s_service s := None)\<rparr>"
  from inv have ok: "chans_ok (reg w)" by (simp add: chan_inv_def)
  then have ok': "chans_ok r'" by (auto simp: chans_ok_def r')
  have taken: "chans (reg w) c = Some False" "\<not> holds w u c" "notifiers r' x \<noteq> Some c"
    if "ch = Some c" for c u x
    using that ok inv by (auto simp: s(3) r' chans_ok_def chan_inv_def)
  have hd: "holds (goto t (Swapped sid old ch) (with_reg r' w)) u d \<longleftrightarrow>
      (if u = t then ch = Some d else holds w u d)" for u d
    by (simp add: holds_goto)
  have kept: "notifiers r' x \<noteq> Some d" if "holds w u d" for u d x
    using that inv by (auto simp: r' chan_inv_def)
  have fl: "chans r' = chans (reg w)" by (simp add: r')
  show ?thesis
    using inv ok' taken kept unfolding chan_inv_def hd by (simp add: fl) metis
qed (use inv in \<open>auto simp: chan_inv_def holds_goto\<close>)

lemma holds_move: "thr w t = Some q \<Longrightarrow> held p = held q \<Longrightarrow> holds (goto t p w) = holds w"
  by (auto simp: fun_eq_iff holds_def)

lemma chan_inv_evict:
  assumes inv: "chan_inv w" and t: "thr w t = Some (Swapped sid old ch)"
  shows "chan_inv (goto t (Waking sid ch) (with_reg (close_old sid old (reg w)) w))"
proof -
  have "holds (goto t (Waking sid ch) w) = holds w" using t by (rule holds_move) simp
  with inv chans_ok_cong [of "close_old sid old (reg w)" "reg w"] show ?thesis
    by (simp add: chan_inv_def)
qed

lemma chan_inv_notify:
  assumes inv: "chan_inv w" and t: "thr w t = Some (Waking sid ch)"
  shows "chan_inv (goto t (Serving sid) (with_reg (wake ch (reg w)) w))"
proof (cases ch)
  case None
  with inv show ?thesis by (simp add: wake_def chan_inv_frame)
next
  case (Some c)
  with t have h: "holds w t c" by (simp add: holds_def)
  with inv have op: "chans (reg w) c = Some False" and free: "\<And>svc. notifiers (reg w) svc \<noteq> Some c"
    and uniq: "\<And>u. holds w u c \<Longrightarrow> u = t"
    unfolding chan_inv_def by blast+
  have r': "wake ch (reg w) = (reg w)\<lparr>chans := (chans (reg w))(c \<mapsto> True)\<rparr>"
    using op by (simp add: Some wake_def close_chan_def)
  have ok: "chans_ok (wake ch (reg w))"
    using inv free op chans_ok_close [of "reg w" c] by (simp add: Some wake_def chan_inv_def)
  have hd: "holds (goto t (Serving sid) (with_reg (wake ch (reg w)) w)) u d \<longleftrightarrow> u \<noteq> t \<and> holds w u d" for u d
    by (simp add: holds_goto)
  have other: "chans (wake ch (reg w)) d = Some False" if "u \<noteq> t" "holds w u d" for u d
  proof -
    have "d \<noteq> c" using that uniq by blast
    with that inv show ?thesis by (auto simp: r' chan_inv_def)
  qed
  show ?thesis
    using inv ok other unfolding chan_inv_def hd by simp blast
qed

lemma chan_inv_look:
  assumes inv: "chan_inv w" and fresh: "chans (reg w) fresh = None"
    and ll: "lookup_locked now1 now2 fresh svc (reg w) = (r', res)"
  shows "chan_inv (goto t (after_lookup svc now2 res) (with_reg r' (w\<lparr>clk := now2\<rparr>)))"
  using ll
proof (rule lookup_locked_cases)
  fix d
  assume r': "r' = (reg w)\<lparr>chans := (chans (reg w))(fresh \<mapsto> False), notifiers := (notifiers (reg w))(svc \<mapsto> fresh)\<rparr>"
    and none: "sessions (reg w) svc = None"
  have nf: "notifiers (reg w) x \<noteq> Some fresh" for x
    using inv fresh by (auto simp: chan_inv_def chans_ok_def)
  have hf: "\<not> holds w u fresh" for u using inv fresh by (auto simp: chan_inv_def)
  have "chans_ok r'" using inv none nf by (auto simp: chan_inv_def chans_ok_def r')
  with inv nf hf show ?thesis by (auto simp: chan_inv_def holds_goto r')
qed (use inv in \<open>auto simp: chan_inv_def holds_goto\<close>)

lemma chan_inv_step: "reg_step w w' \<Longrightarrow> chan_inv w \<Longrightarrow> chan_inv w'"
proof (induction rule: reg_step.induct)
  case (remove w t sid r' cur)
  from remove(2) show ?case
    by (rule unregister_locked_cases)
      (use remove.prems in \<open>auto simp: chan_inv_def chans_ok_def holds_goto\<close>)
next
  case (shutdown w t names r' sess)
  then show ?case by (auto simp: close_all_locked_def chan_inv_def chans_ok_def holds_goto)
qed (simp_all add: chan_inv_frame chan_inv_with_reg chan_inv_goto chan_inv_swap chan_inv_evict chan_inv_notify chan_inv_look)

text \<open>
  A waiter's channel is covered if it is closed, still offered to the next registration, or in
  the hands of a thread that is about to close it.
\<close>

definition covered :: "world \<Rightarrow> string \<Rightarrow> nat \<Rightarrow> bool" where
  "covered w svc c \<longleftrightarrow>
     chans (reg w) c = Some True \<or> notifiers (reg w) svc = Some c \<or> (\<exists>t. holds w t c)"

lemma coveredI:
  "chans (reg w) c = Some True \<Longrightarrow> covered w svc c"
  "notifiers (reg w) svc = Some c \<Longrightarrow> covered w svc c"
  "holds w t c \<Longrightarrow> covered w svc c"
  by (auto simp: covered_def)

lemma coveredE:
  assumes "covered w svc c"
  obtains "chans (reg w) c = Some True" | "notifiers (reg w) svc = Some c" | t where "holds w t c"
  using assms by (auto simp: covered_def)

lemma waiters_inv_alt:
  "waiters_inv w \<longleftrightarrow> (\<forall>t svc c dl. thr w t = Some (Waiting svc c dl) \<longrightarrow> covered w svc c)"
  by (simp add: waiters_inv_def covered_def)

lemma waiters_inv_mono:
  assumes inv: "waiters_inv w" and cov: "\<And>svc c. covered w svc c \<Longrightarrow> covered w' svc c"
    and new: "\<And>t svc c dl. thr w' t = Some (Waiting svc c dl) \<Longrightarrow>
        thr w t = Some (Waiting svc c dl) \<or> covered w' svc c"
  shows "waiters_inv w'"
  using assms unfolding waiters_inv_alt by blast

lemma covered_frame:
  assumes "chans r' = chans (reg w)" "notifiers r' = notifiers (reg w)" "covered w svc c"
  shows "covered (with_reg r' w) svc c"
    and "\<And>t p q. thr w t = Some q \<Longrightarrow> held p = held q \<Longrightarrow> covered (goto t p (with_reg r' w)) svc c"
    and "\<And>t p. thr w t = None \<Longrightarrow> covered (goto t p (with_reg r' w)) svc c"
proof -
  show "covered (with_reg r' w) svc c" using assms by (simp add: covered_def)
next
  fix t p q assume "thr w t = Some q" "held p = held q"
  then have "holds (goto t p w) = holds w" by (rule holds_move)
  with assms show "covered (goto t p (with_reg r' w)) svc c" by (simp add: covered_def)
next
  fix t p assume "thr w t = None"
  then have no: "\<not> holds w t c" by (simp add: holds_def)
  from assms(3) show "covered (goto t p (with_reg r' w)) svc c"
  proof (rule coveredE)
    fix u assume "holds w u c"
    with no have "holds (goto t p (with_reg r' w)) u c" by (auto simp: holds_goto)
    then show ?thesis by (rule coveredI)
  qed (auto intro: coveredI simp: assms)
qed

lemma covered_goto:
  assumes "covered w svc c"
  shows "thr w t = Some q \<Longrightarrow> held p = held q \<Longrightarrow> covered (goto t p w) svc c"
    and "thr w t = None \<Longrightarrow> covered (goto t p w) svc c"
  using covered_frame(2,3) [of "reg w" w svc c t] assms by (simp_all add: with_reg_def)

lemma covered_swap:
  assumes t: "thr w t = Some (Marked sid)" and rl: "register_locked now sid (reg w) = (r', old, ch)"
    and cov: "covered w svc c"
  shows "covered (goto t (Swapped sid old ch) (with_reg r' w)) svc c"
  using rl
proof (rule register_locked_cases)
  assume "r' = reg w" "old = None" "ch = None"
  with t cov show ?thesis by (simp add: covered_frame(2))
next
  fix s
  assume s: "ch = notifiers (reg w) (s_service s)"
    and r': "r' = (reg w)\<lparr>sessions := (sessions (reg w))(s_service s \<mapsto> sid),
        last_seen := (last_seen (reg w))(s_service s \<mapsto> now), notifiers := (notifiers (reg w))(s_service s := None)\<rparr>"
  have old_holder: "u \<noteq> t" if "holds w u c" for u using that t by (auto simp: holds_def)
  show ?thesis
  proof (cases "svc = s_service s \<and> notifiers (reg w) svc = Some c")
    case True
    then have "holds (goto t (Swapped sid old ch) (with_reg r' w)) t c"
      using s by (auto simp: holds_goto)
    then show ?thesis by (rule coveredI)
  next
    case False
    from cov show ?thesis
    proof (rule coveredE)
      fix u assume "holds w u c"
      with old_holder have "holds (goto t (Swapped sid old ch) (with_reg r' w)) u c" by (simp add: holds_goto)
      then show ?thesis by (rule coveredI)
    qed (use False in \<open>auto simp: r' intro: coveredI\<close>)
  qed
qed

lemma covered_notify:
  assumes inv: "chan_inv w" and t: "thr w t = Some (Waking sid ch)" and cov: "covered w svc c"
  shows "covered (goto t (Serving sid) (with_reg (wake ch (reg w)) w)) svc c"
proof (cases ch)
  case None
  with t cov show ?thesis by (simp add: wake_def covered_frame(2))
next
  case (Some d)
  with t have "holds w t d" by (simp add: holds_def)
  with inv have "chans (reg w) d = Some False" by (auto simp: chan_inv_def)
  then have r': "wake ch (reg w) = (reg w)\<lparr>chans := (chans (reg w))(d \<mapsto> True)\<rparr>"
    by (simp add: Some wake_def close_chan_def)
  from cov show ?thesis
  proof (rule coveredE)
    fix u assume u: "holds w u c"
    show ?thesis
    proof (cases "u = t")
      case True
      with u t Some have "c = d" by (auto simp: holds_def)
      then show ?thesis by (simp add: r' coveredI(1))
    next
      case False
      with u have "holds (goto t (Serving sid) (with_reg (wake ch (reg w)) w)) u c" by (simp add: holds_goto)
      then show ?thesis by (rule coveredI)
    qed
  qed (auto simp: r' intro: coveredI)
qed

lemma waiters_look:
  assumes inv: "waiters_inv w" "chan_inv w" and t: "thr w t = Some (Looking svc)"
    and fresh: "chans (reg w) fresh = None"
    and ll: "lookup_locked now1 now2 fresh svc (reg w) = (r', res)"
  shows "waiters_inv (goto t (after_lookup svc now2 res) (with_reg r' (w\<lparr>clk := now2\<rparr>)))" (is "waiters_inv ?w'")
proof (rule waiters_inv_mono [OF inv(1)])
  have hd: "holds (goto t (after_lookup svc now2 res) (with_reg r0 (w\<lparr>clk := now2\<rparr>))) = holds w" for r0
    using t by (auto simp: fun_eq_iff holds_goto) (auto simp: holds_def)
  show cov: "covered ?w' x c" if c: "covered w x c" for x c
    using ll
  proof (rule lookup_locked_cases)
    fix d
    assume r': "r' = (reg w)\<lparr>chans := (chans (reg w))(fresh \<mapsto> False), notifiers := (notifiers (reg w))(svc \<mapsto> fresh)\<rparr>"
      and none: "notifiers (reg w) svc = None"
    from c show ?thesis
    proof (rule coveredE)
      assume "chans (reg w) c = Some True"
      with fresh have "c \<noteq> fresh" "chans (reg w) c = Some True" by auto
      then show ?thesis by (simp add: r' coveredI(1))
    next
      fix u assume "holds w u c"
      then have "holds ?w' u c" unfolding hd .
      then show ?thesis by (rule coveredI)
    qed (rule coveredI(2), use none in \<open>auto simp: r'\<close>)
  qed (use c in \<open>simp_all add: covered_def hd del: holds_goto_with_reg\<close>)
  show "thr w u = Some (Waiting x c dl) \<or> covered ?w' x c" if "thr ?w' u = Some (Waiting x c dl)" for u x c dl
  proof (cases "u = t")
    case True
    with that have "after_lookup svc now2 res = Waiting x c dl" by simp
    then have res: "\<exists>d. res = WaitOn c d" and x: "x = svc" by (cases res; simp)+
    from ll have "notifiers r' svc = Some c"
      by (rule lookup_locked_cases) (use res in auto)
    with x show ?thesis by (simp add: covered_def)
  next
    case False
    with that show ?thesis by simp
  qed
qed

lemma waiters_inv_step: "reg_step w w' \<Longrightarrow> chan_inv w \<Longrightarrow> waiters_inv w \<Longrightarrow> waiters_inv w'"
proof (induction rule: reg_step.induct)
  case (swap w t sid r' old ch)
  then show ?case by (intro waiters_inv_mono [OF swap.prems(2)] covered_swap) (auto split: if_splits)
next
  case (notify w t sid ch)
  then show ?case by (intro waiters_inv_mono [OF notify.prems(2)] covered_notify) (auto split: if_splits)
next
  case (look w t svc now2 fresh r' res)
  then show ?case by (intro waiters_look)
next
  case (evict w t sid old ch)
  then show ?case
    by (intro waiters_inv_mono [OF evict.prems(2)]) (auto split: if_splits intro: covered_frame(2))
next
  case (remove w t sid r' cur)
  from remove(2) have "chans r' = chans (reg w)" "notifiers r' = notifiers (reg w)"
    by (auto elim: unregister_locked_cases)
  with remove show ?case
    by (intro waiters_inv_mono [OF remove.prems(2)]) (auto split: if_splits intro: covered_frame(2))
next
  case (shutdown w t names r' sess)
  then have "chans r' = chans (reg w)" "notifiers r' = notifiers (reg w)"
    by (auto simp: close_all_locked_def)
  with shutdown show ?case
    by (intro waiters_inv_mono [OF shutdown.prems(2)]) (auto split: if_splits intro: covered_frame(3))
next
  case (tick w now)
  then show ?case by (simp add: waiters_inv_def)
next
  case (leave w t sid s)
  then show ?case
    by (intro waiters_inv_mono [OF leave.prems(2)]) (auto split: if_splits intro: covered_goto)
next
  case (request w t svc)
  then show ?case
    by (intro waiters_inv_mono [OF request.prems(2)]) (auto split: if_splits intro: covered_goto)
next
  case (notified w t svc c dl)
  then show ?case
    by (intro waiters_inv_mono [OF notified.prems(2)]) (auto split: if_splits intro: covered_goto)
next
  case (timer w t svc c dl)
  then show ?case
    by (intro waiters_inv_mono [OF timer.prems(2)]) (auto split: if_splits intro: covered_goto)
next
  case (cancelled w t svc c dl)
  then show ?case
    by (intro waiters_inv_mono [OF cancelled.prems(2)]) (auto split: if_splits intro: covered_goto)
next
  case (connection_lost w sid s)
  then show ?case by (intro waiters_inv_mono [OF connection_lost.prems(2)]) (auto intro: covered_frame(1))
next
  case (watch w sid s)
  then show ?case by (intro waiters_inv_mono [OF watch.prems(2)]) (auto intro: covered_frame(1))
next
  case (accept w t sid r' svc tok rem)
  then show ?case
    by (intro waiters_inv_mono [OF accept.prems(2)]) (auto split: if_splits intro: covered_frame(3))
next
  case (mark w t sid)
  then show ?case
    by (intro waiters_inv_mono [OF mark.prems(2)]) (auto split: if_splits intro: covered_frame(2))
next
  case (unmark w t sid cur)
  then show ?case
    by (intro waiters_inv_mono [OF unmark.prems(2)]) (auto split: if_splits intro: covered_frame(2))
next
  case (close_next w t x xs)
  then show ?case
    by (intro waiters_inv_mono [OF close_next.prems(2)]) (auto split: if_splits intro: covered_frame(2))
qed

subsection \<open>The combined invariant\<close>

definition race_inv :: "world \<Rightarrow> bool" where
  "race_inv w \<longleftrightarrow> slots_ok (reg w) \<and> chan_inv w \<and> waiters_inv w"

lemma slots_ok_frame:
  assumes "slots_ok r" "sessions r' = sessions r" "last_seen r' = last_seen r" "owner r' = owner r"
  shows "slots_ok r'"
  using assms by (simp add: slots_ok_def)

lemma owner_register_locked:
  "register_locked now sid r = (r', old, ch) \<Longrightarrow> owner r' = owner r"
  by (erule register_locked_cases) simp_all

lemma slots_step: "reg_step w w' \<Longrightarrow> slots_ok (reg w) \<Longrightarrow> slots_ok (reg w')"
proof (induction rule: reg_step.induct)
  case (accept w t sid r' svc tok rem)
  then have "owner (reg w) sid = None" by (simp add: owner_def)
  moreover have "owner r' x = (if x = sid then Some svc else owner (reg w) x)" for x
    using accept by (simp add: owner_def new_session_def)
  moreover have "sessions r' = sessions (reg w)" "last_seen r' = last_seen (reg w)" using accept by simp_all
  ultimately show ?case using accept.prems by (fastforce simp: slots_ok_def)
next
  case (swap w t sid r' old ch)
  from swap(2) show ?case
    by (rule register_locked_cases) (use swap.prems in \<open>auto simp: slots_ok_def owner_def\<close>)
next
  case (remove w t sid r' cur)
  from remove(2) show ?case
    by (rule unregister_locked_cases) (use remove.prems in \<open>auto simp: slots_ok_def\<close>)
next
  case (look w t svc now2 fresh r' res)
  from look(4) show ?case
    by (rule lookup_locked_cases) (use look.prems in \<open>auto simp: slots_ok_def\<close>)
next
  case (connection_lost w sid s)
  then have "owner ((reg w)\<lparr>objs := (objs (reg w))(sid \<mapsto> s\<lparr>s_mux_closed := True\<rparr>)\<rparr>) = owner (reg w)"
    by (auto simp: owner_def fun_eq_iff)
  with connection_lost.prems show ?case by (simp add: slots_ok_def)
next
  case (shutdown w t names r' sess)
  then show ?case by (auto simp: slots_ok_def close_all_locked_def)
qed (auto intro: slots_ok_frame)

interpretation races: invariant_system init_world reg_step race_inv
proof unfold_locales
  fix w :: world
  assume "init_world w"
  then obtain g now where "w = \<lparr>reg = new_registry g, clk = now, thr = (\<lambda>_. None)\<rparr>"
    by (auto simp: init_world_def)
  then show "race_inv w"
    by (simp add: race_inv_def slots_ok_def chan_inv_def chans_ok_def waiters_inv_def holds_def new_registry_def)
next
  fix w w' :: world
  show "reg_step w w' \<Longrightarrow> race_inv w \<Longrightarrow> race_inv w'"
    unfolding race_inv_def by (blast intro: slots_step chan_inv_step waiters_inv_step)
qed

text \<open>The steps left to a thread that holds a channel, and what they lead to.\<close>

lemma holder_closes:
  assumes "chan_inv w" "holds w u c"
  obtains w' where "reg_step\<^sup>*\<^sup>* w w'" "chans (reg w') c = Some True"
    "sessions (reg w') = sessions (reg w)" "\<And>t. t \<noteq> u \<Longrightarrow> thr w' t = thr w t"
proof -
  note conclude = that
  have waking: thesis
    if st: "reg_step\<^sup>*\<^sup>* w v" and at: "thr v u = Some (Waking sid (Some c))" and "chan_inv v"
      and same: "sessions (reg v) = sessions (reg w)" "\<And>t. t \<noteq> u \<Longrightarrow> thr v t = thr w t" for v sid
  proof -
    have "holds v u c" using at by (simp add: holds_def)
    with \<open>chan_inv v\<close> have "chans (reg v) c = Some False" by (auto simp: chan_inv_def)
    then have "chans (wake (Some c) (reg v)) c = Some True" by (simp add: wake_def close_chan_def)
    moreover have "reg_step\<^sup>*\<^sup>* w (goto u (Serving sid) (with_reg (wake (Some c) (reg v)) v))"
      using st reg_step.notify [OF at] by simp
    ultimately show thesis using same
      by (intro conclude [of "goto u (Serving sid) (with_reg (wake (Some c) (reg v)) v)"]) auto
  qed
  from assms(2) obtain p where p: "thr w u = Some p" "held p = Some c" by (auto simp: holds_def)
  then consider sid old where "p = Swapped sid old (Some c)" | sid where "p = Waking sid (Some c)"
    by (cases p) auto
  then show thesis
  proof cases
    case 1
    with p have st: "reg_step w (goto u (Waking sid (Some c)) (with_reg (close_old sid old (reg w)) w))"
      by (intro reg_step.evict) simp
    show thesis
      by (rule waking [OF r_into_rtranclp [of reg_step, OF st]]) (use chan_inv_step [OF st assms(1)] in auto)
  next
    case 2
    with p assms show thesis by (intro waking) auto
  qed
qed

lemma waiter_served:
  assumes inv: "race_inv w" and t: "thr w t = Some (Waiting svc c dl)" and live: "sessions (reg w) svc = Some sid"
  shows "\<exists>w'. reg_step\<^sup>*\<^sup>* w w' \<and> thr w' t = Some (Answered (Inr sid))"
proof -
  have served: "\<exists>w'. reg_step\<^sup>*\<^sup>* w w' \<and> thr w' t = Some (Answered (Inr sid))"
    if st: "reg_step\<^sup>*\<^sup>* w v" and cl: "chans (reg v) c = Some True" and ss: "sessions (reg v) = sessions (reg w)"
      and tv: "thr v t = thr w t" for v
  proof -
    have "reg_step v (goto t (Answered (lookup_select Notified svc (reg v))) v)"
      using t tv cl by (intro reg_step.notified) simp_all
    with st live ss show ?thesis
      by (intro exI [of _ "goto t (Answered (lookup_select Notified svc (reg v))) v"])
        (simp add: lookup_select_def)
  qed
  have "covered w svc c" using inv t by (auto simp: race_inv_def waiters_inv_alt)
  then show ?thesis
  proof (rule coveredE)
    assume "chans (reg w) c = Some True"
    then show ?thesis by (intro served) auto
  next
    assume "notifiers (reg w) svc = Some c"
    with inv live show ?thesis by (auto simp: race_inv_def chan_inv_def chans_ok_def)
  next
    fix u assume h: "holds w u c"
    with t have "t \<noteq> u" by (auto simp: holds_def)
    with h inv show ?thesis
      by (auto simp: race_inv_def elim!: holder_closes intro!: served)
  qed
qed

subsection \<open>Scheduled runs\<close>

text \<open>
  A schedule is a list of moves; \<open>run\<close> plays it and stops with \<open>None\<close> at a move that is not
  enabled. Every played schedule is a run of the step relation, which makes concrete
  interleavings computable.
\<close>

datatype move =
    MAccept nat nat string string string
  | MRequest nat string
  | MOwn nat
  | MLose nat
  | MWatch nat

definition own_move :: "nat \<Rightarrow> world \<Rightarrow> world option" where
  "own_move t w =
     (case thr w t of
        Some (ToRegister sid) \<Rightarrow> Some (goto t (Marked sid) (with_reg (register_stats (clk w) sid (reg w)) w))
      | Some (Marked sid) \<Rightarrow>
          (let (r', old, ch) = register_locked (clk w) sid (reg w)
           in Some (goto t (Swapped sid old ch) (with_reg r' w)))
      | Some (Swapped sid old ch) \<Rightarrow> Some (goto t (Waking sid ch) (with_reg (close_old sid old (reg w)) w))
      | Some (Waking sid ch) \<Rightarrow> Some (goto t (Serving sid) (with_reg (wake ch (reg w)) w))
      | Some (Serving sid) \<Rightarrow>
          (case objs (reg w) sid of
             Some s \<Rightarrow> if s_closed s then Some (goto t (Leaving sid) w) else None
           | None \<Rightarrow> None)
      | Some (Leaving sid) \<Rightarrow>
          (let (r', cur) = unregister_locked (clk w) sid (reg w)
           in Some (goto t (Removed sid cur) (with_reg r' w)))
      | Some (Removed sid cur) \<Rightarrow>
          Some (goto t Done (with_reg (unregister_stats (clk w) sid cur (reg w)) w))
      | Some (Looking svc) \<Rightarrow>
          (if chans (reg w) t = None
           then (let (r', res) = lookup_locked (clk w) (clk w) t svc (reg w)
                 in Some (goto t (after_lookup svc (clk w) res) (with_reg r' (w\<lparr>clk := clk w\<rparr>))))
           else None)
      | _ \<Rightarrow> None)"

fun play :: "move \<Rightarrow> world \<Rightarrow> world option" where
  "play (MAccept t sid svc tok rem) w =
     (if thr w t = None \<and> objs (reg w) sid = None
      then Some (goto t (ToRegister sid)
             (with_reg ((reg w)\<lparr>objs := (objs (reg w))(sid \<mapsto> new_session svc tok rem)\<rparr>) w))
      else None)"
| "play (MRequest t svc) w = (if thr w t = None then Some (goto t (Looking svc) w) else None)"
| "play (MOwn t) w = own_move t w"
| "play (MLose sid) w =
     (case objs (reg w) sid of
        Some s \<Rightarrow> Some (with_reg ((reg w)\<lparr>objs := (objs (reg w))(sid \<mapsto> s\<lparr>s_mux_closed := True\<rparr>)\<rparr>) w)
      | None \<Rightarrow> None)"
| "play (MWatch sid) w =
     (case objs (reg w) sid of
        Some s \<Rightarrow> if s_mux_closed s then Some (with_reg (session_close sid (reg w)) w) else None
      | None \<Rightarrow> None)"

fun run :: "move list \<Rightarrow> world \<Rightarrow> world option" where
  "run [] w = Some w"
| "run (m # ms) w = (case play m w of None \<Rightarrow> None | Some w' \<Rightarrow> run ms w')"

lemma look_now:
  "thr w t = Some (Looking svc) \<Longrightarrow> chans (reg w) fresh = None \<Longrightarrow>
   lookup_locked (clk w) (clk w) fresh svc (reg w) = (r', res) \<Longrightarrow>
   reg_step w (goto t (after_lookup svc (clk w) res) (with_reg r' w))"
  using reg_step.look [of w t svc "clk w" fresh r' res] by simp

lemma own_move_step: "own_move t w = Some w' \<Longrightarrow> reg_step w w'"
  by (auto simp: own_move_def Let_def split: option.splits pc.splits prod.splits if_splits
      intro: reg_step.intros look_now)

lemma play_step: "play m w = Some w' \<Longrightarrow> reg_step w w'"
  by (cases m) (auto intro: reg_step.intros own_move_step split: if_splits option.splits)

lemma run_reaches: "reaches init_world reg_step w \<Longrightarrow> run ms w = Some w' \<Longrightarrow> reaches init_world reg_step w'"
  by (induction ms arbitrary: w) (auto split: option.splits dest: play_step intro: reaches_step)

definition start_world :: world where
  "start_world = \<lparr>reg = new_registry 3000000000, clk = 5000000000, thr = (\<lambda>_. None)\<rparr>"

lemma reaches_start_world: "reaches init_world reg_step start_world"
  by (rule reaches_start) (auto simp: init_world_def start_world_def)

lemma played: "run ms start_world = Some w \<Longrightarrow> reaches init_world reg_step w"
  using run_reaches [OF reaches_start_world] .

text \<open>A session connects, drops, a request waits for it, and the client is back.\<close>

definition reconnect_schedule :: "move list" where
  "reconnect_schedule =
     [MAccept 0 0 ''foo'' ''tok'' ''a'', MOwn 0, MOwn 0, MOwn 0, MOwn 0, MLose 0, MWatch 0, MOwn 0, MOwn 0, MOwn 0,
      MRequest 1 ''foo'', MOwn 1, MAccept 2 2 ''foo'' ''tok'' ''b'', MOwn 2, MOwn 2]"

text \<open>
  A reconnect whose \<open>MarkConnected\<close> runs before, and whose critical section runs after, the
  \<open>Unregister\<close> of the connection it replaces.
\<close>

definition stale_flag_schedule :: "move list" where
  "stale_flag_schedule =
     [MAccept 0 0 ''foo'' ''tok'' ''a'', MOwn 0, MOwn 0, MOwn 0, MOwn 0, MLose 0, MWatch 0, MOwn 0,
      MAccept 2 2 ''foo'' ''tok'' ''b'', MOwn 2, MOwn 0, MOwn 0, MOwn 2, MOwn 2, MOwn 2]"

lemmas run_defs = run.simps play.simps own_move_def goto_def with_reg_def start_world_def new_registry_def
  register_stats_def register_locked_def close_old_def wake_def unregister_locked_def unregister_stats_def
  lookup_locked_def session_close_def close_once_def close_chan_def new_session_def Let_def
  upd_stats_def stats_get_def new_stats_registry_def mark_connected_def mark_disconnected_def new_stats_def

lemma reconnect_run:
  "\<exists>w. run reconnect_schedule start_world = Some w \<and>
     thr w 1 = Some (Waiting ''foo'' 1 8000000000) \<and> sessions (reg w) ''foo'' = Some 2"
  by (simp add: reconnect_schedule_def run_defs)

text \<open>The registration is finished: its waiter's channel is closed.\<close>

lemma woken_run:
  "\<exists>w. run (reconnect_schedule @ [MOwn 2, MOwn 2]) start_world = Some w \<and>
     thr w 2 = Some (Serving 2) \<and> chans (reg w) 1 = Some True \<and> sessions (reg w) ''foo'' = Some 2"
  by (simp add: reconnect_schedule_def run_defs)

lemma stale_flag_run:
  "\<exists>w. run stale_flag_schedule start_world = Some w \<and>
     thr w 0 = Some Done \<and> thr w 2 = Some (Serving 2) \<and> sessions (reg w) ''foo'' = Some 2 \<and>
     map_option s_closed (objs (reg w) 2) = Some False \<and>
     map_option connected (reg_stats (reg w) ''foo'') = Some False"
  by (simp add: stale_flag_schedule_def run_defs)

subsection \<open>Properties\<close>

text \<open>
  C14. No double close. In every interleaving of connections, requests and shutdown, a notifier
  channel is closed at most once, so \<open>close(ch)\<close> in \<open>Register\<close> never panics; and the session in
  the slot of a service is one that was made for that service.
\<close>

theorem no_double_close:
  assumes "reaches init_world reg_step w"
  shows "\<not> panicked (reg w) \<and>
    (\<forall>svc sid. sessions (reg w) svc = Some sid \<longrightarrow> owner (reg w) sid = Some svc)"
  using races.inv_reaches [OF assms] by (auto simp: race_inv_def chan_inv_def chans_ok_def slots_ok_def)

text \<open>
  C1. No lost wake-up. Whenever a request waits in \<open>Lookup\<close> while its service has a live session,
  the steps already under way end with the request answered by that session; no registration
  slips past a waiter.
\<close>

theorem no_lost_wakeup:
  assumes "reaches init_world reg_step w"
    and "thr w t = Some (Waiting svc c dl)" and "sessions (reg w) svc = Some sid"
  shows "\<exists>w'. reg_step\<^sup>*\<^sup>* w w' \<and> thr w' t = Some (Answered (Inr sid))"
  using waiter_served [OF races.inv_reaches [OF assms(1)] assms(2,3)] .


theorem no_double_close_witness:
  "\<exists>w. run (reconnect_schedule @ [MOwn 2, MOwn 2]) start_world = Some w \<and> chans (reg w) 1 = Some True \<and>
     \<not> panicked (reg w) \<and> sessions (reg w) ''foo'' = Some 2 \<and> owner (reg w) 2 = Some ''foo''"
proof -
  obtain w where w: "run (reconnect_schedule @ [MOwn 2, MOwn 2]) start_world = Some w" "chans (reg w) 1 = Some True"
      "sessions (reg w) ''foo'' = Some 2"
    using woken_run by blast
  from no_double_close [OF played [OF w(1)]] w show ?thesis by blast
qed

theorem no_lost_wakeup_witness:
  "\<exists>w w'. reaches init_world reg_step w \<and> thr w 1 = Some (Waiting ''foo'' 1 8000000000) \<and>
     reg_step\<^sup>*\<^sup>* w w' \<and> thr w' 1 = Some (Answered (Inr 2))"
proof -
  obtain w where w: "run reconnect_schedule start_world = Some w"
      "thr w 1 = Some (Waiting ''foo'' 1 8000000000)" "sessions (reg w) ''foo'' = Some 2"
    using reconnect_run by blast
  from no_lost_wakeup [OF played [OF w(1)] w(2,3)] played [OF w(1)] w(2) show ?thesis by blast
qed

text \<open>
  A race in the statistics. \<open>Register\<close> marks a service connected before it takes the lock and
  \<open>Unregister\<close> marks it disconnected after it has released it, so a reconnect can end with a live,
  registered session whose statistics say disconnected, although every operation has finished.
\<close>

lemma connected_flag_race:
  "\<exists>w. reaches init_world reg_step w \<and>
     thr w 0 = Some Done \<and> thr w 2 = Some (Serving 2) \<and> sessions (reg w) ''foo'' = Some 2 \<and>
     map_option s_closed (objs (reg w) 2) = Some False \<and>
     map_option connected (reg_stats (reg w) ''foo'') = Some False"
  using stale_flag_run played by blast

end
