(* ===== verification/JsonString.thy ===== *)
theory JsonString
  imports GoStrings
begin

text \<open>
  The string literals of \<open>encoding/json\<close>: what \<open>json.Marshal\<close> writes for a Go string (with HTML
  escaping, as \<open>Marshal\<close> does) and what the decoder reads back, on bytes, UTF-8 included.
\<close>

subsection \<open>UTF-8\<close>

definition is_cont :: "char \<Rightarrow> bool" where
  "is_cont c \<longleftrightarrow> 128 \<le> code c \<and> code c < 192"

text \<open>The range of the second byte depends on the first (no overlong forms, no surrogates).\<close>

definition second_ok :: "char \<Rightarrow> char \<Rightarrow> bool" where
  "second_ok a b \<longleftrightarrow>
     (if code a = 224 then 160 else if code a = 240 then 144 else 128) \<le> code b \<and>
     code b \<le> (if code a = 237 then 159 else if code a = 244 then 143 else 191)"

text \<open>
  \<open>utf8.DecodeRuneInString\<close>: the length of the valid encoding at the head, 0 where the function
  returns \<open>(RuneError, 1)\<close>.
\<close>

fun rune_len :: "string \<Rightarrow> nat" where
  "rune_len [] = 0"
| "rune_len (a # s) =
     (if code a < 128 then 1
      else if 194 \<le> code a \<and> code a \<le> 223 then
        (case s of b # _ \<Rightarrow> if is_cont b then 2 else 0 | _ \<Rightarrow> 0)
      else if 224 \<le> code a \<and> code a \<le> 239 then
        (case s of b # c # _ \<Rightarrow> if second_ok a b \<and> is_cont c then 3 else 0 | _ \<Rightarrow> 0)
      else if 240 \<le> code a \<and> code a \<le> 244 then
        (case s of b # c # d # _ \<Rightarrow> if second_ok a b \<and> is_cont c \<and> is_cont d then 4 else 0 | _ \<Rightarrow> 0)
      else 0)"

function valid_utf8 :: "string \<Rightarrow> bool" where
  "valid_utf8 [] = True"
| "valid_utf8 (a # s) \<longleftrightarrow> rune_len (a # s) \<noteq> 0 \<and> valid_utf8 (drop (rune_len (a # s) - 1) s)"
  by pat_completeness auto
termination
  by (relation "measure length") auto

text \<open>\<open>utf8.EncodeRune\<close> of a code point that is not a surrogate.\<close>

definition encode_rune :: "nat \<Rightarrow> string" where
  "encode_rune n =
     (if n < 128 then [char_of n]
      else if n < 2048 then [char_of (192 + n div 64), char_of (128 + n mod 64)]
      else if n < 65536 then
        [char_of (224 + n div 4096), char_of (128 + n div 64 mod 64), char_of (128 + n mod 64)]
      else
        [char_of (240 + n div 262144), char_of (128 + n div 4096 mod 64), char_of (128 + n div 64 mod 64),
         char_of (128 + n mod 64)])"

definition rune_error :: string where
  "rune_error = encode_rune 65533"

subsection \<open>Writing\<close>

definition bslash :: char where "bslash = CHR 0x5C"
definition dquote :: char where "dquote = CHR 0x22"

definition hex4 :: "nat \<Rightarrow> string" where
  "hex4 n = [digit_char (n div 4096), digit_char (n div 256 mod 16), digit_char (n div 16 mod 16), digit_char (n mod 16)]"

definition escape_ascii :: "char \<Rightarrow> string" where
  "escape_ascii c =
     (if c = dquote \<or> c = bslash then [bslash, c]
      else if code c = 8 then [bslash, CHR ''b'']
      else if code c = 12 then [bslash, CHR ''f'']
      else if code c = 10 then [bslash, CHR ''n'']
      else if code c = 13 then [bslash, CHR ''r'']
      else if code c = 9 then [bslash, CHR ''t'']
      else if code c < 32 \<or> c = CHR ''<'' \<or> c = CHR ''>'' \<or> c = CHR ''&''
      then bslash # CHR ''u'' # hex4 (code c)
      else [c])"

function escape :: "string \<Rightarrow> string" where
  "escape [] = []"
| "escape (a # s) =
     (if code a < 128 then escape_ascii a @ escape s
      else if rune_len (a # s) = 0 then bslash # CHR ''u'' # hex4 65533 @ escape s
      else (let n = rune_len (a # s); r = take n (a # s)
            in (if r = encode_rune 8232 \<or> r = encode_rune 8233
                then bslash # CHR ''u'' # hex4 (if r = encode_rune 8232 then 8232 else 8233)
                else r) @ escape (drop (n - 1) s)))"
  by pat_completeness auto
termination
  by (relation "measure length") auto

definition json_string :: "string \<Rightarrow> string" where
  "json_string s = dquote # escape s @ [dquote]"

subsection \<open>Reading\<close>

definition hex_val :: "char \<Rightarrow> nat option" where
  "hex_val c =
     (if is_digit c then Some (code c - 48)
      else if 97 \<le> code c \<and> code c \<le> 102 then Some (code c - 87)
      else if 65 \<le> code c \<and> code c \<le> 70 then Some (code c - 55)
      else None)"

fun get_u4 :: "string \<Rightarrow> (nat \<times> string) option" where
  "get_u4 (a # b # c # d # s) =
     (case (hex_val a, hex_val b, hex_val c, hex_val d) of
        (Some w, Some x, Some y, Some z) \<Rightarrow> Some (w * 4096 + x * 256 + y * 16 + z, s)
      | _ \<Rightarrow> None)"
| "get_u4 _ = None"

text \<open>A second escape that completes a surrogate pair, if there is one.\<close>

definition low_surrogate :: "string \<Rightarrow> (nat \<times> string) option" where
  "low_surrogate s =
     (case s of
        a # b # r \<Rightarrow>
          if a = bslash \<and> b = CHR ''u''
          then (case get_u4 r of
                  Some (n, r') \<Rightarrow> if 56320 \<le> n \<and> n < 57344 then Some (n, r') else None
                | None \<Rightarrow> None)
          else None
      | _ \<Rightarrow> None)"

text \<open>The rune an escape \<open>uXXXX\<close> stands for, and the input left.\<close>

definition unescape_rune :: "nat \<Rightarrow> string \<Rightarrow> string \<times> string" where
  "unescape_rune n s =
     (if n < 55296 \<or> 57344 \<le> n then (encode_rune n, s)
      else if n < 56320 then
        (case low_surrogate s of
           Some (m, s') \<Rightarrow> (encode_rune (65536 + (n - 55296) * 1024 + (m - 56320)), s')
         | None \<Rightarrow> (rune_error, s))
      else (rune_error, s))"

definition simple_escape :: "char \<Rightarrow> char option" where
  "simple_escape c =
     (if c = dquote \<or> c = bslash \<or> c = CHR ''/'' then Some c
      else if c = CHR ''b'' then Some (char_of (8 :: nat))
      else if c = CHR ''f'' then Some (char_of (12 :: nat))
      else if c = CHR ''n'' then Some (char_of (10 :: nat))
      else if c = CHR ''r'' then Some (char_of (13 :: nat))
      else if c = CHR ''t'' then Some (char_of (9 :: nat))
      else None)"

lemma get_u4_shorter: "get_u4 s = Some (n, r) \<Longrightarrow> length r < length s"
  by (induction s rule: get_u4.induct) (auto split: option.splits)

lemma low_surrogate_shorter: "low_surrogate s = Some (n, r) \<Longrightarrow> length r < length s"
  by (auto simp: low_surrogate_def split: list.splits if_splits option.splits dest: get_u4_shorter)

lemma unescape_rune_shorter: "length (snd (unescape_rune n s)) \<le> length s"
  by (auto simp: unescape_rune_def split: option.splits dest: low_surrogate_shorter)

text \<open>
  The rest of a string literal after its opening quote: the decoded string and the input after
  the closing quote.
\<close>

function unquote :: "string \<Rightarrow> (string \<times> string) option" where
  "unquote [] = None"
| "unquote (a # s) =
     (if a = dquote then Some ([], s)
      else if code a < 32 then None
      else if a = bslash then
        (case s of
           [] \<Rightarrow> None
         | e # t \<Rightarrow>
             (case simple_escape e of
                Some c \<Rightarrow> map_option (apfst ((#) c)) (unquote t)
              | None \<Rightarrow>
                  if e = CHR ''u''
                  then (case get_u4 t of
                          None \<Rightarrow> None
                        | Some (n, u) \<Rightarrow>
                            map_option (apfst ((@) (fst (unescape_rune n u)))) (unquote (snd (unescape_rune n u))))
                  else None))
      else if code a < 128 then map_option (apfst ((#) a)) (unquote s)
      else (let n = rune_len (a # s)
            in if n = 0 then map_option (apfst ((@) rune_error)) (unquote s)
               else map_option (apfst ((@) (take n (a # s)))) (unquote (drop (n - 1) s))))"
  by pat_completeness auto
termination
  by (relation "measure length")
    (auto dest!: get_u4_shorter intro: le_less_trans [OF unescape_rune_shorter])

declare unquote.simps(2) [simp del] escape.simps(2) [simp del]

subsection \<open>Reading back what was written\<close>

lemma code_consts [simp]: "code bslash = 92" "code dquote = 34"
  by (simp_all add: bslash_def dquote_def code_def)

lemma bslash_dquote [simp]: "bslash \<noteq> dquote" "dquote \<noteq> bslash"
  by (simp_all add: bslash_def dquote_def)

lemma hex_val_digit: "d < 16 \<Longrightarrow> hex_val (digit_char d) = Some d"
  by (auto simp: hex_val_def digit_char_def is_digit_def code_char_of)

lemma get_u4_hex4: "n < 65536 \<Longrightarrow> get_u4 (hex4 n @ s) = Some (n, s)"
proof -
  assume n: "n < 65536"
  then have "n div 4096 < 16" "n div 256 mod 16 < 16" "n div 16 mod 16 < 16" "n mod 16 < 16" by auto
  moreover have "n div 4096 * 4096 + n div 256 mod 16 * 256 + n div 16 mod 16 * 16 + n mod 16 = n"
  proof -
    have "n div 256 = n div 16 div 16" "n div 4096 = n div 256 div 16" by (simp_all flip: div_mult2_eq)
    then show ?thesis
      using div_mult_mod_eq [of n 16] div_mult_mod_eq [of "n div 16" 16] div_mult_mod_eq [of "n div 256" 16]
      by linarith
  qed
  ultimately show ?thesis by (simp add: hex4_def hex_val_digit)
qed

lemma simple_escape_u [simp]: "simple_escape CHR ''u'' = None"
  by (simp add: simple_escape_def bslash_def dquote_def)

lemma unquote_quote [simp]: "unquote (dquote # s) = Some ([], s)"
  by (subst unquote.simps(2)) simp

lemma unquote_u_escape:
  "n < 55296 \<or> 57344 \<le> n \<and> n < 65536 \<Longrightarrow>
   unquote (bslash # CHR ''u'' # hex4 n @ s) = map_option (apfst ((@) (encode_rune n))) (unquote s)"
proof -
  assume n: "n < 55296 \<or> 57344 \<le> n \<and> n < 65536"
  then have "get_u4 (hex4 n @ s) = Some (n, s)" by (intro get_u4_hex4) auto
  moreover have "unescape_rune n s = (encode_rune n, s)" using n by (auto simp: unescape_rune_def)
  ultimately show ?thesis by (subst unquote.simps(2)) simp
qed

lemma unquote_simple_escape:
  "simple_escape e = Some c \<Longrightarrow> unquote (bslash # e # s) = map_option (apfst ((#) c)) (unquote s)"
  by (subst unquote.simps(2)) simp

lemma simple_escape_letters:
  "simple_escape CHR ''b'' = Some (char_of (8 :: nat))" "simple_escape CHR ''f'' = Some (char_of (12 :: nat))"
  "simple_escape CHR ''n'' = Some (char_of (10 :: nat))" "simple_escape CHR ''r'' = Some (char_of (13 :: nat))"
  "simple_escape CHR ''t'' = Some (char_of (9 :: nat))"
  by (simp_all add: simple_escape_def bslash_def dquote_def)

lemma char_of_eqI: "code c = n \<Longrightarrow> char_of n = c"
  by auto

lemma unquote_escape_ascii:
  assumes "code a < 128"
  shows "unquote (escape_ascii a @ s) = map_option (apfst ((#) a)) (unquote s)"
proof -
  consider (self) "a = dquote \<or> a = bslash"
    | (letter) d where "simple_escape d = Some a" "escape_ascii a = [bslash, d]"
    | (hex) "escape_ascii a = bslash # CHR ''u'' # hex4 (code a)"
    | (plain) "escape_ascii a = [a]" "a \<noteq> dquote" "a \<noteq> bslash" "32 \<le> code a"
  proof (cases "a = dquote \<or> a = bslash \<or> code a \<in> {8, 12, 10, 13, 9}")
    case True
    then consider "a = dquote \<or> a = bslash" | "code a = 8" | "code a = 12" | "code a = 10" | "code a = 13"
      | "code a = 9" by auto
    then show thesis
    proof cases
      case 1 with self show thesis by blast
    next
      case 2 then have "a = char_of (8::nat)" by (simp add: char_of_eqI)
      then show thesis by (intro letter [of "CHR ''b''"]) (simp_all add: simple_escape_letters escape_ascii_def code_char_of flip: code_eq_iff)
    next
      case 3 then have "a = char_of (12::nat)" by (simp add: char_of_eqI)
      then show thesis by (intro letter [of "CHR ''f''"]) (simp_all add: simple_escape_letters escape_ascii_def code_char_of flip: code_eq_iff)
    next
      case 4 then have "a = char_of (10::nat)" by (simp add: char_of_eqI)
      then show thesis by (intro letter [of "CHR ''n''"]) (simp_all add: simple_escape_letters escape_ascii_def code_char_of flip: code_eq_iff)
    next
      case 5 then have "a = char_of (13::nat)" by (simp add: char_of_eqI)
      then show thesis by (intro letter [of "CHR ''r''"]) (simp_all add: simple_escape_letters escape_ascii_def code_char_of flip: code_eq_iff)
    next
      case 6 then have "a = char_of (9::nat)" by (simp add: char_of_eqI)
      then show thesis by (intro letter [of "CHR ''t''"]) (simp_all add: simple_escape_letters escape_ascii_def code_char_of flip: code_eq_iff)
    qed
  next
    case False
    then show thesis
      using hex plain by (cases "code a < 32 \<or> a = CHR ''<'' \<or> a = CHR ''>'' \<or> a = CHR ''&''")
        (simp_all add: escape_ascii_def)
  qed
  then show ?thesis
  proof cases
    case self
    then have "escape_ascii a = [bslash, a]" "simple_escape a = Some a"
      by (auto simp: escape_ascii_def simple_escape_def)
    then show ?thesis by (simp add: unquote_simple_escape)
  next
    case letter
    then show ?thesis by (simp add: unquote_simple_escape)
  next
    case hex
    have "encode_rune (code a) = [a]" using assms by (simp add: encode_rune_def)
    with hex assms show ?thesis
      by (cases "unquote s") (auto simp: unquote_u_escape)
  next
    case plain
    with assms show ?thesis by (simp add: unquote.simps(2) [of a s])
  qed
qed

lemma rune_len_le: "rune_len s \<le> length s"
  by (cases s) (auto split: list.splits if_splits)

text \<open>The decoder looks at no byte after the rune.\<close>

lemma rune_len_prefix:
  assumes "rune_len (a # s) = n" "n \<noteq> 0"
  shows "rune_len (a # take (n - 1) s @ t) = n"
  using assms by (auto split: list.splits if_splits)

lemma escape_valid_multi:
  assumes "128 \<le> code a" "rune_len (a # s) = n" "n \<noteq> 0"
  shows "escape (a # s) =
    (if take n (a # s) = encode_rune 8232 \<or> take n (a # s) = encode_rune 8233
     then bslash # CHR ''u'' # hex4 (if take n (a # s) = encode_rune 8232 then 8232 else 8233)
     else take n (a # s)) @ escape (drop (n - 1) s)"
  using assms by (subst escape.simps) (simp add: Let_def del: rune_len.simps)

lemma unquote_multi:
  assumes "128 \<le> code a" "rune_len (a # s) = n" "n \<noteq> 0"
  shows "unquote (a # s) = map_option (apfst ((@) (take n (a # s)))) (unquote (drop (n - 1) s))"
  using assms by (subst unquote.simps) (auto simp: Let_def simp del: rune_len.simps)

lemma unquote_escape_append:
  "valid_utf8 s \<Longrightarrow> unquote (escape s @ dquote # rest) = Some (s, rest)"
proof (induction s rule: valid_utf8.induct)
  case 1
  then show ?case by simp
next
  case (2 a s)
  let ?n = "rune_len (a # s)"
  have n: "?n \<noteq> 0" and v: "valid_utf8 (drop (?n - 1) s)" using "2.prems" by (simp_all del: rune_len.simps)
  have IH: "unquote (escape (drop (?n - 1) s) @ dquote # rest) = Some (drop (?n - 1) s, rest)"
    by (rule "2.IH" [OF v])
  have whole: "take ?n (a # s) @ drop (?n - 1) s = a # s" using n by (simp add: take_Cons' del: rune_len.simps)
  show ?case
  proof (cases "code a < 128")
    case True
    with IH show ?thesis by (simp add: escape.simps unquote_escape_ascii)
  next
    case False
    then have a: "128 \<le> code a" by simp
    show ?thesis
    proof (cases "take ?n (a # s) = encode_rune 8232 \<or> take ?n (a # s) = encode_rune 8233")
      case True
      let ?m = "if take ?n (a # s) = encode_rune 8232 then 8232 else 8233 :: nat"
      have "encode_rune ?m = take ?n (a # s)"
        using True by (cases "take ?n (a # s) = encode_rune 8232") (simp_all del: rune_len.simps take_Suc_Cons)
      moreover have "escape (a # s) = bslash # CHR ''u'' # hex4 ?m @ escape (drop (?n - 1) s)"
        unfolding escape_valid_multi [OF a refl n] using True by (simp only: if_True append_Cons append_assoc)
      moreover have "?m < 55296 \<or> 57344 \<le> ?m \<and> ?m < 65536" by simp
      ultimately show ?thesis
        using unquote_u_escape [of ?m "escape (drop (?n - 1) s) @ dquote # rest"] IH whole
        by (simp only: append_Cons append_assoc option.map apfst_conv)
    next
      case False
      let ?t = "take (?n - 1) s"
      have tk: "take ?n (a # s) = a # ?t" using n by (simp add: take_Cons' del: rune_len.simps)
      have lt: "length ?t = ?n - 1" using rune_len_le [of "a # s"] n by (simp del: rune_len.simps)
      have "rune_len (a # ?t @ escape (drop (?n - 1) s) @ dquote # rest) = ?n"
        by (rule rune_len_prefix [OF refl n])
      moreover have "take ?n (a # ?t @ x) = a # ?t" for x
        using lt n by (cases "?n") (simp_all del: rune_len.simps)
      ultimately show ?thesis
        using unquote_multi [OF a _ n, of "?t @ escape (drop (?n - 1) s) @ dquote # rest"] lt IH whole tk
          escape_valid_multi [OF a refl n] False
        by (simp del: rune_len.simps take_Suc_Cons)
    qed
  qed
qed

end
