(* ===== verification/Json.thy ===== *)
theory Json
  imports JsonString
begin

text \<open>
  \<open>encoding/json\<close> as the program uses it: \<open>json.Unmarshal\<close> into a struct with string fields (the
  handshake messages) and into a \<open>map[string]string\<close> (the tokens), and \<open>json.Marshal\<close> of objects with
  string members. The decoder first checks the whole input and only then stores anything, so
  a value is parsed first and stored from its tree.
\<close>

datatype json =
    JNull
  | JBool bool
  | JNum string
  | JStr string
  | JArr "json list"
  | JObj "(string \<times> json) list"

subsection \<open>White space, literals and numbers\<close>

definition json_space :: "char \<Rightarrow> bool" where
  "json_space c \<longleftrightarrow> code c = 32 \<or> code c = 9 \<or> code c = 10 \<or> code c = 13"

definition skip_ws :: "string \<Rightarrow> string" where
  "skip_ws s = dropWhile json_space s"

definition json_literal :: "string \<Rightarrow> json \<Rightarrow> string \<Rightarrow> (json \<times> string) option" where
  "json_literal name v s = (if has_prefix s name then Some (v, drop (length name) s) else None)"

definition digits1 :: "string \<Rightarrow> (string \<times> string) option" where
  "digits1 s =
     (let ds = takeWhile is_digit s
      in if ds = [] then None else Some (ds, dropWhile is_digit s))"

definition json_int :: "string \<Rightarrow> (string \<times> string) option" where
  "json_int s =
     (case s of
        c # r \<Rightarrow> if c = CHR ''0'' then Some ([c], r) else digits1 s
      | [] \<Rightarrow> None)"

definition json_frac :: "string \<Rightarrow> (string \<times> string) option" where
  "json_frac s =
     (case s of
        c # r \<Rightarrow> if c = CHR ''.'' then map_option (apfst ((#) c)) (digits1 r) else Some ([], s)
      | [] \<Rightarrow> Some ([], s))"

definition json_exp :: "string \<Rightarrow> (string \<times> string) option" where
  "json_exp s =
     (case s of
        c # r \<Rightarrow>
          if c = CHR ''e'' \<or> c = CHR ''E''
          then (case r of
                  d # r' \<Rightarrow>
                    if d = CHR ''+'' \<or> d = CHR ''-'' then map_option (apfst (\<lambda>ds. c # d # ds)) (digits1 r')
                    else map_option (apfst ((#) c)) (digits1 r)
                | [] \<Rightarrow> None)
          else Some ([], s)
      | [] \<Rightarrow> Some ([], s))"

definition json_unsigned :: "string \<Rightarrow> (string \<times> string) option" where
  "json_unsigned s =
     (case json_int s of
        None \<Rightarrow> None
      | Some (i, r) \<Rightarrow>
          (case json_frac r of
             None \<Rightarrow> None
           | Some (f, r') \<Rightarrow> map_option (apfst (\<lambda>e. i @ f @ e)) (json_exp r')))"

definition json_number :: "string \<Rightarrow> (string \<times> string) option" where
  "json_number s =
     (case s of
        c # r \<Rightarrow> if c = CHR ''-'' then map_option (apfst ((#) c)) (json_unsigned r) else json_unsigned s
      | [] \<Rightarrow> None)"

subsection \<open>Values\<close>

text \<open>The scanner refuses more than 10000 nested arrays and objects.\<close>

definition max_nesting :: nat where
  "max_nesting = 10000"

definition json_scalar :: "string \<Rightarrow> (json \<times> string) option" where
  "json_scalar s =
     (case s of
        [] \<Rightarrow> None
      | c # r \<Rightarrow>
          if c = dquote then map_option (apfst JStr) (unquote r)
          else if c = CHR ''t'' then json_literal ''true'' (JBool True) s
          else if c = CHR ''f'' then json_literal ''false'' (JBool False) s
          else if c = CHR ''n'' then json_literal ''null'' JNull s
          else map_option (apfst JNum) (json_number s))"

text \<open>A member's key and the colon after it.\<close>

definition json_key :: "string \<Rightarrow> (string \<times> string) option" where
  "json_key s =
     (case s of
        [] \<Rightarrow> None
      | q # r \<Rightarrow>
          if q = dquote
          then (case unquote r of
                  None \<Rightarrow> None
                | Some (k, r') \<Rightarrow>
                    (case skip_ws r' of
                       [] \<Rightarrow> None
                     | c # r'' \<Rightarrow> if c = CHR '':'' then Some (k, skip_ws r'') else None))
          else None)"

text \<open>
  The first argument is fuel, the second the nesting depth. The input of \<open>json_value\<close> has no
  white space in front; \<open>json_elems\<close> and \<open>json_members\<close> start at an element or member.
\<close>

fun json_value :: "nat \<Rightarrow> nat \<Rightarrow> string \<Rightarrow> (json \<times> string) option"
  and json_elems :: "nat \<Rightarrow> nat \<Rightarrow> string \<Rightarrow> (json list \<times> string) option"
  and json_members :: "nat \<Rightarrow> nat \<Rightarrow> string \<Rightarrow> ((string \<times> json) list \<times> string) option" where
  "json_value 0 d s = None"
| "json_value (Suc n) d s =
     (case s of
        [] \<Rightarrow> None
      | c # r \<Rightarrow>
          if c = CHR ''['' then
            if max_nesting < d + 1 then None
            else (case skip_ws r of
                    [] \<Rightarrow> None
                  | e # r' \<Rightarrow> if e = CHR '']'' then Some (JArr [], r')
                               else map_option (apfst JArr) (json_elems n (d + 1) (e # r')))
          else if c = CHR ''{'' then
            if max_nesting < d + 1 then None
            else (case skip_ws r of
                    [] \<Rightarrow> None
                  | e # r' \<Rightarrow> if e = CHR ''}'' then Some (JObj [], r')
                               else map_option (apfst JObj) (json_members n (d + 1) (e # r')))
          else json_scalar s)"
| "json_elems 0 d s = None"
| "json_elems (Suc n) d s =
     (case json_value n d s of
        None \<Rightarrow> None
      | Some (v, r) \<Rightarrow>
          (case skip_ws r of
             [] \<Rightarrow> None
           | c # r' \<Rightarrow>
               if c = CHR '','' then map_option (apfst ((#) v)) (json_elems n d (skip_ws r'))
               else if c = CHR '']'' then Some ([v], r')
               else None))"
| "json_members 0 d s = None"
| "json_members (Suc n) d s =
     (case json_key s of
        None \<Rightarrow> None
      | Some (k, t) \<Rightarrow>
          (case json_value n d t of
             None \<Rightarrow> None
           | Some (v, r) \<Rightarrow>
               (case skip_ws r of
                  [] \<Rightarrow> None
                | c # r' \<Rightarrow>
                    if c = CHR '','' then map_option (apfst ((#) (k, v))) (json_members n d (skip_ws r'))
                    else if c = CHR ''}'' then Some ([(k, v)], r')
                    else None)))"

text \<open>
  \<open>json.Valid\<close> and the decoder together: one value with only white space around it. A value nests
  at most one call per byte, and an element or member adds one call, so twice the length is
  fuel enough.
\<close>

definition json_parse :: "string \<Rightarrow> json option" where
  "json_parse s =
     (case json_value (2 * length s) 0 (skip_ws s) of
        Some (v, r) \<Rightarrow> if skip_ws r = [] then Some v else None
      | None \<Rightarrow> None)"

subsection \<open>Fuel\<close>

lemma skip_ws_le: "length (skip_ws s) \<le> length s"
  by (simp add: skip_ws_def length_dropWhile_le)

lemma skip_ws_Cons_less: "skip_ws s = c # r \<Longrightarrow> length r < length s"
  using skip_ws_le [of s] by simp

lemma unquote_shorter: "unquote s = Some (t, r) \<Longrightarrow> length r < length s"
proof (induction s arbitrary: t r rule: unquote.induct)
  case (2 a s)
  show ?case
  proof (cases "a = dquote \<or> code a < 32")
    case True
    with "2.prems" show ?thesis by (auto simp: unquote.simps(2) [of a s] split: if_splits)
  next
    case plain: False
    show ?thesis
    proof (cases "a = bslash")
      case True
      with plain "2.prems" obtain e u where s: "s = e # u"
        by (cases s) (auto simp: unquote.simps(2) [of bslash])
      show ?thesis
      proof (cases "simple_escape e")
        case (Some c)
        with plain True s "2.prems" obtain t' where "unquote u = Some (t', r)"
          by (auto simp: unquote.simps(2) [of bslash])
        with "2.IH"(2) [of e u] plain True s Some show ?thesis by fastforce
      next
        case None
        with plain True s "2.prems" obtain n v where v: "e = CHR ''u''" "get_u4 u = Some (n, v)"
          by (auto simp: unquote.simps(2) [of bslash] split: if_splits option.splits)
        with plain True s None "2.prems" obtain t' where w: "unquote (snd (unescape_rune n v)) = Some (t', r)"
          by (auto simp: unquote.simps(2) [of bslash])
        with "2.IH"(1) [of e u "(n, v)" n v] plain True s None v w
        have "length r < length (snd (unescape_rune n v))" by simp
        with unescape_rune_shorter [of n v] get_u4_shorter [OF v(2)] s show ?thesis by simp
      qed
    next
      case nob: False
      show ?thesis
      proof (cases "code a < 128")
        case True
        with plain nob "2.prems" obtain t' where "unquote s = Some (t', r)"
          by (auto simp: unquote.simps(2) [of a s])
        with "2.IH"(3) plain nob True show ?thesis by fastforce
      next
        case False
        let ?n = "rune_len (a # s)"
        show ?thesis
        proof (cases "?n = 0")
          case True
          with plain nob False "2.prems" obtain t' where "unquote s = Some (t', r)"
            by (auto simp: unquote.simps(2) [of a s] Let_def simp del: rune_len.simps)
          with "2.IH"(4) [OF _ _ _ _ refl] plain nob False True show ?thesis by fastforce
        next
          case n: False
          with plain nob False "2.prems" obtain t' where "unquote (drop (?n - 1) s) = Some (t', r)"
            by (auto simp: unquote.simps(2) [of a s] Let_def simp del: rune_len.simps)
          with "2.IH"(5) [OF _ _ _ _ refl] plain nob False n have "length r < length (drop (?n - 1) s)" by blast
          then show ?thesis by simp
        qed
      qed
    qed
  qed
qed simp

lemma digits1_shorter: "digits1 s = Some (x, r) \<Longrightarrow> length r < length s"
proof -
  assume "digits1 s = Some (x, r)"
  then have "takeWhile is_digit s \<noteq> []" "r = dropWhile is_digit s"
    by (auto simp: digits1_def Let_def split: if_splits)
  moreover have "length s = length (takeWhile is_digit s) + length (dropWhile is_digit s)"
    by (metis length_append takeWhile_dropWhile_id)
  ultimately show ?thesis by simp
qed

lemma json_int_shorter: "json_int s = Some (x, r) \<Longrightarrow> length r < length s"
  by (auto simp: json_int_def split: list.splits if_splits dest: digits1_shorter)

lemma json_frac_le: "json_frac s = Some (x, r) \<Longrightarrow> length r \<le> length s"
  by (auto simp: json_frac_def split: list.splits if_splits dest!: digits1_shorter)

lemma json_exp_le: "json_exp s = Some (x, r) \<Longrightarrow> length r \<le> length s"
  by (auto simp: json_exp_def split: list.splits if_splits dest!: digits1_shorter)

lemma json_unsigned_shorter: "json_unsigned s = Some (x, r) \<Longrightarrow> length r < length s"
  by (fastforce simp: json_unsigned_def split: option.splits
      dest: json_int_shorter json_frac_le json_exp_le)

lemma json_number_shorter: "json_number s = Some (x, r) \<Longrightarrow> length r < length s"
  by (fastforce simp: json_number_def split: list.splits if_splits dest: json_unsigned_shorter)

lemma json_scalar_shorter: "json_scalar s = Some (v, r) \<Longrightarrow> length r < length s"
  by (auto simp: json_scalar_def json_literal_def split: list.splits if_splits
      dest!: unquote_shorter json_number_shorter)

lemma json_key_shorter: "json_key s = Some (k, r) \<Longrightarrow> Suc (length r) < length s"
proof -
  assume "json_key s = Some (k, r)"
  then obtain q r0 r1 c r2 where "s = q # r0" "unquote r0 = Some (k, r1)" "skip_ws r1 = c # r2" "r = skip_ws r2"
    by (auto simp: json_key_def split: list.splits if_splits option.splits)
  with skip_ws_le [of r2] skip_ws_Cons_less [of r1 c r2] unquote_shorter [of r0 k r1] show ?thesis by simp
qed

lemma value_shorter_all:
  "(\<forall>d s v r. json_value n d s = Some (v, r) \<longrightarrow> length r < length s) \<and>
   (\<forall>d s v r. json_elems n d s = Some (v, r) \<longrightarrow> length r < length s) \<and>
   (\<forall>d s v r. json_members n d s = Some (v, r) \<longrightarrow> length r < length s)"
proof (induction n)
  case (Suc n)
  note IH = conjunct1 [OF Suc.IH, rule_format] conjunct1 [OF conjunct2 [OF Suc.IH], rule_format]
    conjunct2 [OF conjunct2 [OF Suc.IH], rule_format]
  have val: "length r < length s" if p: "json_value (Suc n) d s = Some (v, r)" for d s v r
  proof -
    from p obtain c t where s: "s = c # t" by (cases s) simp_all
    consider (arr) ws where "json_elems n (d + 1) (skip_ws t) = Some (ws, r)"
      | (obj) ws where "json_members n (d + 1) (skip_ws t) = Some (ws, r)"
      | (empty) e where "skip_ws t = e # r"
      | (scalar) "json_scalar s = Some (v, r)"
      using p s by (auto split: list.splits if_splits)
    then show ?thesis
      using s skip_ws_le [of t]
      by cases (auto dest!: IH skip_ws_Cons_less json_scalar_shorter)
  qed
  have elems: "length r < length s" if p: "json_elems (Suc n) d s = Some (ws, r)" for d s ws r
  proof -
    from p obtain x t c r' where v: "json_value n d s = Some (x, t)" "skip_ws t = c # r'"
      and r: "(\<exists>us. json_elems n d (skip_ws r') = Some (us, r)) \<or> r = r'"
      by (auto split: option.splits list.splits if_splits)
    from IH(1) [OF v(1)] skip_ws_Cons_less [OF v(2)] skip_ws_le [of r'] r show ?thesis
      by (auto dest!: IH)
  qed
  have members: "length r < length s" if p: "json_members (Suc n) d s = Some (ws, r)" for d s ws r
  proof -
    from p obtain k u x t c r' where v: "json_key s = Some (k, u)" "json_value n d u = Some (x, t)"
        "skip_ws t = c # r'"
      and r: "(\<exists>us. json_members n d (skip_ws r') = Some (us, r)) \<or> r = r'"
      by (auto split: option.splits list.splits if_splits)
    from json_key_shorter [OF v(1)] IH(1) [OF v(2)] skip_ws_Cons_less [OF v(3)] skip_ws_le [of r'] r
    show ?thesis by (auto dest!: IH)
  qed
  from val elems members show ?case by blast
qed simp

lemmas value_shorter =
  conjunct1 [OF value_shorter_all, rule_format]
  conjunct1 [OF conjunct2 [OF value_shorter_all], rule_format]
  conjunct2 [OF conjunct2 [OF value_shorter_all], rule_format]

text \<open>More fuel than the input needs changes nothing.\<close>

lemma enough_fuel:
  "(\<forall>d s m. 2 * length s \<le> n \<longrightarrow> 2 * length s \<le> m \<longrightarrow> json_value n d s = json_value m d s) \<and>
   (\<forall>d s m. 2 * length s < n \<longrightarrow> 2 * length s < m \<longrightarrow> json_elems n d s = json_elems m d s) \<and>
   (\<forall>d s m. 2 * length s < n \<longrightarrow> 2 * length s < m \<longrightarrow> json_members n d s = json_members m d s)"
proof (induction n)
  case 0
  have "json_value m d [] = None" for m d by (cases m) simp_all
  then show ?case by simp
next
  case (Suc n)
  note IH = conjunct1 [OF Suc.IH, rule_format] conjunct1 [OF conjunct2 [OF Suc.IH], rule_format]
    conjunct2 [OF conjunct2 [OF Suc.IH], rule_format]
  have val: "json_value (Suc n) d s = json_value m d s"
    if p: "2 * length s \<le> Suc n" "2 * length s \<le> m" for d s m
  proof (cases s)
    case Nil
    then show ?thesis by (cases m) simp_all
  next
    case (Cons c t)
    then obtain m' where m: "m = Suc m'" using p by (cases m) simp_all
    have "2 * length (skip_ws t) < n" "2 * length (skip_ws t) < m'"
      using p Cons m skip_ws_le [of t] by simp_all
    with IH(2,3) [of "skip_ws t" m' "d + 1"] m Cons show ?thesis
      by (auto split: list.splits)
  qed
  have elems: "json_elems (Suc n) d s = json_elems m d s"
    if p: "2 * length s < Suc n" "2 * length s < m" for d s m
  proof -
    from p obtain m' where m: "m = Suc m'" by (cases m) simp_all
    have v: "json_value n d s = json_value m' d s" using p m by (intro IH) simp_all
    have "json_elems n d (skip_ws r') = json_elems m' d (skip_ws r')"
      if "json_value m' d s = Some (x, t)" "skip_ws t = c # r'" for x t c r'
      using value_shorter(1) [OF that(1)] skip_ws_Cons_less [OF that(2)] skip_ws_le [of r'] p m
      by (intro IH) simp_all
    with v m show ?thesis by (auto split: option.splits list.splits)
  qed
  have members: "json_members (Suc n) d s = json_members m d s"
    if p: "2 * length s < Suc n" "2 * length s < m" for d s m
  proof -
    from p obtain m' where m: "m = Suc m'" by (cases m) simp_all
    have v: "json_value n d u = json_value m' d u" if "json_key s = Some (k, u)" for k u
      using json_key_shorter [OF that] p m by (intro IH) simp_all
    have "json_members n d (skip_ws r') = json_members m' d (skip_ws r')"
      if "json_key s = Some (k, u)" "json_value m' d u = Some (x, t)" "skip_ws t = c # r'" for k u x t c r'
      using json_key_shorter [OF that(1)] value_shorter(1) [OF that(2)] skip_ws_Cons_less [OF that(3)]
        skip_ws_le [of r'] p m
      by (intro IH) simp_all
    note rest = this
    show ?thesis
    proof (cases "json_key s")
      case (Some ku)
      then obtain k u where k: "json_key s = Some (k, u)" by (cases ku) simp
      show ?thesis
      proof (cases "json_value m' d u")
        case (Some vr)
        then obtain x t where x: "json_value m' d u = Some (x, t)" by (cases vr) simp
        with k m v [OF k] rest [OF k x] show ?thesis by (cases "skip_ws t") simp_all
      qed (use k m v [OF k] in simp)
    qed (use m in simp)
  qed
  show ?case
  proof (intro conjI allI impI)
    show "json_value (Suc n) d s = json_value m d s"
      if "2 * length s \<le> Suc n" "2 * length s \<le> m" for d s m by (rule val [OF that])
    show "json_elems (Suc n) d s = json_elems m d s"
      if "2 * length s < Suc n" "2 * length s < m" for d s m by (rule elems [OF that])
    show "json_members (Suc n) d s = json_members m d s"
      if "2 * length s < Suc n" "2 * length s < m" for d s m by (rule members [OF that])
  qed
qed

lemma json_value_fuel: "2 * length s \<le> n \<Longrightarrow> json_value n d s = json_value (2 * length s) d s"
  by (rule conjunct1 [OF enough_fuel, rule_format]) simp_all

subsection \<open>Writing objects with string members\<close>

fun json_member_list :: "(string \<times> string) list \<Rightarrow> string" where
  "json_member_list [] = []"
| "json_member_list [(k, v)] = json_string k @ CHR '':'' # json_string v"
| "json_member_list ((k, v) # m # ms) =
     json_string k @ CHR '':'' # json_string v @ CHR '','' # json_member_list (m # ms)"

definition json_object :: "(string \<times> string) list \<Rightarrow> string" where
  "json_object ms = CHR ''{'' # json_member_list ms @ ''}''"

lemma json_string_shape: "json_string s @ t = dquote # escape s @ dquote # t"
  by (simp add: json_string_def)

lemma json_space_consts [simp]:
  "\<not> json_space dquote" "\<not> json_space CHR '':''" "\<not> json_space CHR '',''" "\<not> json_space CHR ''}''"
  "\<not> json_space CHR ''{''"
  by (simp_all add: json_space_def code_def dquote_def)

lemma skip_ws_stop [simp]: "\<not> json_space c \<Longrightarrow> skip_ws (c # s) = c # s"
  by (simp add: skip_ws_def)

lemma dquote_neq [simp]:
  "dquote \<noteq> CHR ''{''" "dquote \<noteq> CHR ''[''" "dquote \<noteq> CHR ''}''" "dquote \<noteq> CHR '']''"
  by (simp_all add: dquote_def)

lemma json_key_written:
  "valid_utf8 k \<Longrightarrow> json_key (json_string k @ CHR '':'' # dquote # t) = Some (k, dquote # t)"
  by (simp add: json_key_def json_string_shape unquote_escape_append)

lemma json_value_written:
  "valid_utf8 v \<Longrightarrow> 0 < n \<Longrightarrow> json_value n d (json_string v @ t) = Some (JStr v, t)"
  by (cases n) (simp_all add: json_scalar_def json_string_shape unquote_escape_append)

lemma json_members_written:
  "ms \<noteq> [] \<Longrightarrow> \<forall>(k, v) \<in> set ms. valid_utf8 k \<and> valid_utf8 v \<Longrightarrow> length ms < n \<Longrightarrow>
   json_members n d (json_member_list ms @ CHR ''}'' # t) = Some (map (apsnd JStr) ms, t)"
proof (induction ms arbitrary: n rule: json_member_list.induct)
  case (2 k v)
  then obtain n' where n: "n = Suc n'" "0 < n'" by (cases n) auto
  have "json_key (json_string k @ CHR '':'' # json_string v @ CHR ''}'' # t)
      = Some (k, json_string v @ CHR ''}'' # t)"
    using 2 json_key_written by (simp add: json_string_shape)
  with 2 n show ?case by (simp add: json_value_written del: json_value.simps)
next
  case (3 k v m ms)
  then obtain n' where n: "n = Suc n'" "length (m # ms) < n'" by (cases n) auto
  let ?t = "CHR '','' # json_member_list (m # ms) @ CHR ''}'' # t"
  have k: "json_key (json_string k @ CHR '':'' # json_string v @ ?t) = Some (k, json_string v @ ?t)"
    using 3 json_key_written by (simp add: json_string_shape)
  have "skip_ws (json_member_list (m # ms) @ CHR ''}'' # t) = json_member_list (m # ms) @ CHR ''}'' # t"
    by (cases m; cases ms) (simp_all add: json_string_shape)
  with 3(1) [of n'] 3(3) n k show ?case by (simp add: json_value_written del: json_value.simps)
qed simp

lemma json_member_list_ne: "ms \<noteq> [] \<Longrightarrow> \<exists>t. json_member_list ms = dquote # t"
  by (cases ms rule: json_member_list.cases) (auto simp: json_string_def)

lemma length_json_member_list: "length ms \<le> length (json_member_list ms)"
  by (induction ms rule: json_member_list.induct) (auto simp: json_string_def)

lemma json_parse_object:
  assumes "\<forall>(k, v) \<in> set ms. valid_utf8 k \<and> valid_utf8 v"
  shows "json_parse (json_object ms) = Some (JObj (map (apsnd JStr) ms))"
proof -
  let ?s = "json_object ms"
  obtain n where n: "2 * length ?s = Suc n" "length ms < n"
    using length_json_member_list [of ms] by (auto simp: json_object_def)
  have "json_value (Suc n) 0 ?s = Some (JObj (map (apsnd JStr) ms), [])"
  proof (cases "ms = []")
    case True
    then show ?thesis by (simp add: json_object_def max_nesting_def)
  next
    case False
    then obtain u where u: "json_member_list ms = dquote # u" using json_member_list_ne by blast
    from json_members_written [OF False assms n(2), of 1 "[]"] u show ?thesis
      by (simp add: json_object_def max_nesting_def)
  qed
  moreover have "skip_ws ?s = ?s" by (simp add: json_object_def)
  ultimately show ?thesis by (simp add: json_parse_def n skip_ws_def)
qed

subsection \<open>Storing into the program's types\<close>

text \<open>
  Struct fields are matched by name and, failing that, by folded name. Folding maps ASCII letters to upper
  case, the Kelvin sign to \<open>K\<close> and the long s to \<open>S\<close>; no other rune folds to an ASCII one.
\<close>

fun fold_name :: "string \<Rightarrow> string" where
  "fold_name [] = []"
| "fold_name (a # s) =
     (if code a = 226 \<and> take 2 s = [char_of (132 :: nat), char_of (170 :: nat)] then CHR ''K'' # fold_name (drop 2 s)
      else if code a = 197 \<and> take 1 s = [char_of (191 :: nat)] then CHR ''S'' # fold_name (drop 1 s)
      else (if is_lower a then char_of (code a - 32) else a) # fold_name s)"

datatype json_error = SyntaxError | TypeError

text \<open>The field a key selects.\<close>

definition field_for :: "string list \<Rightarrow> string \<Rightarrow> string option" where
  "field_for names k =
     (if k \<in> set names then Some k else find (\<lambda>n. fold_name n = fold_name k) names)"

text \<open>
  The members of an object are stored in turn. A string sets the field, \<open>null\<close> leaves it, anything
  else is remembered as a type error while the decoding goes on; unknown keys are skipped.
\<close>

fun store_fields ::
  "string list \<Rightarrow> (string \<times> json) list \<Rightarrow> (string \<Rightarrow> string) \<times> bool \<Rightarrow> (string \<Rightarrow> string) \<times> bool" where
  "store_fields names [] fs = fs"
| "store_fields names ((k, v) # ms) fs =
     store_fields names ms
       (case field_for names k of
          None \<Rightarrow> fs
        | Some f \<Rightarrow>
            (case v of
               JStr s \<Rightarrow> ((fst fs)(f := s), snd fs)
             | JNull \<Rightarrow> fs
             | _ \<Rightarrow> (fst fs, True)))"

definition unmarshal_fields :: "string list \<Rightarrow> string \<Rightarrow> json_error + (string \<Rightarrow> string)" where
  "unmarshal_fields names s =
     (case json_parse s of
        None \<Rightarrow> Inl SyntaxError
      | Some (JObj ms) \<Rightarrow>
          (case store_fields names ms (\<lambda>_. [], False) of
             (fs, bad) \<Rightarrow> if bad then Inl TypeError else Inr fs)
      | Some JNull \<Rightarrow> Inr (\<lambda>_. [])
      | Some _ \<Rightarrow> Inl TypeError)"

text \<open>
  Into a \<open>map[string]string\<close>: every key is kept, the last value of a repeated key wins, \<open>null\<close> gives the
  empty string, any other kind of value is a type error.
\<close>

fun store_map :: "(string \<times> json) list \<Rightarrow> (string \<rightharpoonup> string) \<times> bool \<Rightarrow> (string \<rightharpoonup> string) \<times> bool" where
  "store_map [] m = m"
| "store_map ((k, v) # ms) m =
     store_map ms
       (case v of
          JStr s \<Rightarrow> ((fst m)(k \<mapsto> s), snd m)
        | JNull \<Rightarrow> ((fst m)(k \<mapsto> []), snd m)
        | _ \<Rightarrow> ((fst m)(k \<mapsto> []), True))"

definition unmarshal_map :: "string \<Rightarrow> json_error + (string \<rightharpoonup> string)" where
  "unmarshal_map s =
     (case json_parse s of
        None \<Rightarrow> Inl SyntaxError
      | Some (JObj ms) \<Rightarrow>
          (case store_map ms (Map.empty, False) of (m, bad) \<Rightarrow> if bad then Inl TypeError else Inr m)
      | Some JNull \<Rightarrow> Inr Map.empty
      | Some _ \<Rightarrow> Inl TypeError)"

lemma store_map_strings:
  "store_map (map (apsnd JStr) ms) (m, b) = (fold (\<lambda>(k, v) m. m(k \<mapsto> v)) ms m, b)"
  by (induction ms arbitrary: m) auto

text \<open>What is written for a list of members reads back as the map of its last bindings.\<close>

lemma unmarshal_map_object:
  assumes "\<forall>(k, v) \<in> set ms. valid_utf8 k \<and> valid_utf8 v"
  shows "unmarshal_map (json_object ms) = Inr (fold (\<lambda>(k, v) m. m(k \<mapsto> v)) ms Map.empty)"
  by (simp add: unmarshal_map_def json_parse_object [OF assms] store_map_strings)

lemma unmarshal_fields_object:
  assumes "\<forall>(k, v) \<in> set ms. valid_utf8 k \<and> valid_utf8 v" "\<forall>(k, v) \<in> set ms. k \<in> set names"
  shows "unmarshal_fields names (json_object ms) = Inr (fold (\<lambda>(k, v) f. f(k := v)) ms (\<lambda>_. []))"
proof -
  have "store_fields names (map (apsnd JStr) ms) (f, False) = (fold (\<lambda>(k, v) f. f(k := v)) ms f, False)"
    if "\<forall>(k, v) \<in> set ms. k \<in> set names" for ms f
    using that by (induction ms arbitrary: f) (auto simp: field_for_def)
  with assms show ?thesis by (simp add: unmarshal_fields_def json_parse_object)
qed

end
