(* ===== verification/Handshake.thy ===== *)
theory Handshake
  imports Json
begin

text \<open>
  The control-connection handshake (\<open>internal/protocol/handshake.go\<close>): the two JSON messages, their
  binary frames, and the readers and writers with every way a connection can fail in the middle.
\<close>

subsection \<open>Constants and messages\<close>

definition handshake_version :: byte where
  "handshake_version = 1"

definition max_payload :: nat where
  "max_payload = 8192"

definition magic :: string where
  "magic = ''AXR1''"

record hello =
  hello_token :: string
  hello_service :: string
  hello_version :: string

record ack =
  ack_service :: string
  ack_error :: string

definition status_ok :: byte where "status_ok = 0"
definition status_bad_auth :: byte where "status_bad_auth = 1"
definition status_conflict :: byte where "status_conflict = 2"
definition status_bad_request :: byte where "status_bad_request = 3"
definition status_internal :: byte where "status_internal = 4"

subsection \<open>Connections\<close>

text \<open>
  The reading side of a connection: the bytes that will still arrive, and what a read returns
  after them. The writing side: what has been sent, how many more bytes the peer takes, and the
  error after that.
\<close>

datatype io_error = EOF | UnexpectedEOF | Timeout | ConnReset | ClosedConn

record reader =
  arriving :: string
  ending :: io_error

record writer =
  sent :: string
  room :: nat
  failure :: io_error

text \<open>\<open>io.ReadFull\<close>: the buffer or an error; an end of file in the middle is \<open>ErrUnexpectedEOF\<close>.\<close>

definition read_full :: "nat \<Rightarrow> reader \<Rightarrow> (io_error + string) \<times> reader" where
  "read_full n r =
     (if n \<le> length (arriving r)
      then (Inr (take n (arriving r)), r\<lparr>arriving := drop n (arriving r)\<rparr>)
      else (Inl (if arriving r \<noteq> [] \<and> ending r = EOF then UnexpectedEOF else ending r), r\<lparr>arriving := []\<rparr>))"

text \<open>\<open>conn.Write\<close>: all the bytes, or as many as still go out and an error.\<close>

definition conn_write :: "string \<Rightarrow> writer \<Rightarrow> io_error option \<times> writer" where
  "conn_write p w =
     (if length p \<le> room w
      then (None, w\<lparr>sent := sent w @ p, room := room w - length p\<rparr>)
      else (Some (failure w), w\<lparr>sent := sent w @ take (room w) p, room := 0\<rparr>))"

datatype handshake_error =
    IoError io_error
  | BadMagic string
  | UnsupportedVersion byte
  | TooLarge
  | BadJson json_error

definition put_u16 :: "16 word \<Rightarrow> string" where
  "put_u16 n = of_bytes [ucast (drop_bit 8 n), ucast n]"

definition get_u16 :: "char \<Rightarrow> char \<Rightarrow> 16 word" where
  "get_u16 a b = or (push_bit 8 (word_of_nat (code a))) (word_of_nat (code b))"

definition byte_char :: "byte \<Rightarrow> char" where
  "byte_char b = char_of (unat b)"

definition char_byte :: "char \<Rightarrow> byte" where
  "char_byte c = word_of_nat (code c)"

subsection \<open>Hello\<close>

definition omit_empty :: "string \<Rightarrow> string \<Rightarrow> (string \<times> string) list" where
  "omit_empty k v = (if v = [] then [] else [(k, v)])"

definition marshal_hello :: "hello \<Rightarrow> string" where
  "marshal_hello h =
     json_object ((''token'', hello_token h) # omit_empty ''service'' (hello_service h)
                  @ omit_empty ''version'' (hello_version h))"

definition unmarshal_hello :: "string \<Rightarrow> json_error + hello" where
  "unmarshal_hello s =
     bind_err (unmarshal_fields [''token'', ''service'', ''version''] s)
       (\<lambda>f. Inr \<lparr>hello_token = f ''token'', hello_service = f ''service'', hello_version = f ''version''\<rparr>)"

definition write_hello :: "hello \<Rightarrow> writer \<Rightarrow> handshake_error option \<times> writer" where
  "write_hello h w =
     (let body = marshal_hello h
      in if length body > max_payload then (Some TooLarge, w)
         else (let hdr = magic @ [byte_char handshake_version] @ put_u16 (word_of_nat (length body))
               in (case conn_write hdr w of
                     (Some e, w1) \<Rightarrow> (Some (IoError e), w1)
                   | (None, w1) \<Rightarrow> apfst (map_option IoError) (conn_write body w1))))"

definition read_hello :: "reader \<Rightarrow> (handshake_error + hello) \<times> reader" where
  "read_hello r =
     (case read_full 7 r of
        (Inl e, r1) \<Rightarrow> (Inl (IoError e), r1)
      | (Inr hdr, r1) \<Rightarrow>
          if take 4 hdr \<noteq> magic then (Inl (BadMagic (take 4 hdr)), r1)
          else if char_byte (hdr ! 4) \<noteq> handshake_version then (Inl (UnsupportedVersion (char_byte (hdr ! 4))), r1)
          else (let n = get_u16 (hdr ! 5) (hdr ! 6)
                in if unat n > max_payload then (Inl TooLarge, r1)
                   else (case read_full (unat n) r1 of
                           (Inl e, r2) \<Rightarrow> (Inl (IoError e), r2)
                         | (Inr body, r2) \<Rightarrow>
                             (case unmarshal_hello body of
                                Inl e \<Rightarrow> (Inl (BadJson e), r2)
                              | Inr h \<Rightarrow> (Inr h, r2)))))"

subsection \<open>Ack\<close>

definition marshal_ack :: "ack \<Rightarrow> string" where
  "marshal_ack a = json_object (omit_empty ''service'' (ack_service a) @ omit_empty ''error'' (ack_error a))"

definition unmarshal_ack :: "string \<Rightarrow> json_error + ack" where
  "unmarshal_ack s =
     bind_err (unmarshal_fields [''service'', ''error''] s)
       (\<lambda>f. Inr \<lparr>ack_service = f ''service'', ack_error = f ''error''\<rparr>)"

definition write_ack :: "byte \<Rightarrow> ack \<Rightarrow> writer \<Rightarrow> handshake_error option \<times> writer" where
  "write_ack status a w =
     (let body = marshal_ack a
      in if length body > max_payload then (Some TooLarge, w)
         else (let hdr = magic @ [byte_char handshake_version, byte_char status] @ put_u16 (word_of_nat (length body))
               in (case conn_write hdr w of
                     (Some e, w1) \<Rightarrow> (Some (IoError e), w1)
                   | (None, w1) \<Rightarrow> apfst (map_option IoError) (conn_write body w1))))"

definition read_ack :: "reader \<Rightarrow> (handshake_error + byte \<times> ack) \<times> reader" where
  "read_ack r =
     (case read_full 8 r of
        (Inl e, r1) \<Rightarrow> (Inl (IoError e), r1)
      | (Inr hdr, r1) \<Rightarrow>
          if take 4 hdr \<noteq> magic then (Inl (BadMagic (take 4 hdr)), r1)
          else if char_byte (hdr ! 4) \<noteq> handshake_version then (Inl (UnsupportedVersion (char_byte (hdr ! 4))), r1)
          else (let n = get_u16 (hdr ! 6) (hdr ! 7)
                in if unat n > max_payload then (Inl TooLarge, r1)
                   else (case read_full (unat n) r1 of
                           (Inl e, r2) \<Rightarrow> (Inl (IoError e), r2)
                         | (Inr body, r2) \<Rightarrow>
                             (case unmarshal_ack body of
                                Inl e \<Rightarrow> (Inl (BadJson e), r2)
                              | Inr a \<Rightarrow> (Inr (char_byte (hdr ! 5), a), r2)))))"

subsection \<open>Reading, writing and lengths\<close>

lemma conn_write_ok: "length p \<le> room w \<Longrightarrow>
    conn_write p w = (None, w\<lparr>sent := sent w @ p, room := room w - length p\<rparr>)"
  by (simp add: conn_write_def)

lemma read_full_ok: "arriving r = a @ b \<Longrightarrow> length a = n \<Longrightarrow> read_full n r = (Inr a, r\<lparr>arriving := b\<rparr>)"
  by (simp add: read_full_def)

lemma read_full_short:
  "length (arriving r) < n \<Longrightarrow> \<exists>e. read_full n r = (Inl e, r\<lparr>arriving := []\<rparr>)"
  by (simp add: read_full_def)

text \<open>Two writes in a row send what one write of both would have sent.\<close>

lemma two_writes:
  "(case conn_write a w of
      (Some e, w1) \<Rightarrow> (Some (IoError e), w1)
    | (None, w1) \<Rightarrow> apfst (map_option IoError) (conn_write b w1))
   = apfst (map_option IoError) (conn_write (a @ b) w)"
  by (auto simp: conn_write_def)

lemma byte_char_inverse [simp]: "char_byte (byte_char b) = b"
proof -
  have "to_bytes (of_bytes [b]) = [b]" by (rule to_bytes_of_bytes)
  then show ?thesis by (simp add: to_bytes_def of_bytes_def char_byte_def byte_char_def)
qed

lemma put_u16_cases: "\<exists>a b. put_u16 n = [a, b] \<and> get_u16 a b = n"
proof -
  have code: "word_of_nat (code (char_of (unat b))) = (ucast b :: 16 word)" for b :: byte
  proof -
    have "unat b < 256" using unsigned_less [of b] by simp
    then show ?thesis by (simp add: code_char_of of_nat_unat)
  qed
  have "or (push_bit 8 (ucast (ucast (drop_bit 8 n) :: byte))) (ucast (ucast n :: byte)) = n"
    by (rule bit_word_eqI) (auto simp: bit_simps)
  then show ?thesis by (simp add: put_u16_def of_bytes_def get_u16_def code)
qed

lemma code_word: "word_of_nat (code (char_of (unat (b :: byte)))) = (ucast b :: 16 word)"
proof -
  have "unat b < 256" using unsigned_less [of b] by simp
  then show ?thesis by (simp add: code_char_of of_nat_unat)
qed

lemma char_byte_eq: "char_byte c = b \<longleftrightarrow> c = byte_char b"
proof
  assume "char_byte c = b"
  moreover have "of_bytes (to_bytes [c]) = [c]" by (rule of_bytes_to_bytes)
  ultimately show "c = byte_char b" by (simp add: to_bytes_def of_bytes_def char_byte_def byte_char_def)
qed simp

lemma put_get_u16: "put_u16 (get_u16 x y) = [x, y]"
proof -
  obtain a b where ab: "x = byte_char a" "y = byte_char b" by (metis char_byte_eq)
  have "ucast (drop_bit 8 (or (push_bit 8 (ucast a)) (ucast b) :: 16 word)) = a"
    "ucast (or (push_bit 8 (ucast a)) (ucast b) :: 16 word) = b" for a b :: byte
    by (rule bit_word_eqI, auto simp: bit_simps dest: bit_imp_le_length)+
  then show ?thesis unfolding put_u16_def get_u16_def ab byte_char_def code_word by (simp add: of_bytes_def)
qed

lemma read_hello_body:
  assumes "arriving r = magic @ [byte_char handshake_version] @ put_u16 n @ body @ rest"
    "length body = unat n" "unat n \<le> max_payload"
  shows "read_hello r =
    (case unmarshal_hello body of
       Inl e \<Rightarrow> (Inl (BadJson e), r\<lparr>arriving := rest\<rparr>)
     | Inr h \<Rightarrow> (Inr h, r\<lparr>arriving := rest\<rparr>))"
proof -
  obtain x y where xy: "put_u16 n = [x, y]" "get_u16 x y = n" using put_u16_cases by blast
  have "read_full 7 r = (Inr (magic @ [byte_char handshake_version, x, y]), r\<lparr>arriving := body @ rest\<rparr>)"
    by (rule read_full_ok) (simp_all add: assms xy magic_def)
  moreover have "read_full (unat n) (r\<lparr>arriving := body @ rest\<rparr>) = (Inr body, r\<lparr>arriving := rest\<rparr>)"
    by (subst read_full_ok) (simp_all add: assms)
  ultimately show ?thesis
    using assms(3) by (simp add: read_hello_def magic_def xy(2) Let_def)
qed

lemma length_put_u16 [simp]: "length (put_u16 n) = 2"
  by (simp add: put_u16_def)

lemma unat_payload: "n \<le> max_payload \<Longrightarrow> unat (word_of_nat n :: 16 word) = n"
  by (simp add: max_payload_def unat_of_nat)

subsection \<open>Frames\<close>

text \<open>The whole frame of a message, \<open>None\<close> when its body is too large to be sent.\<close>

definition hello_frame :: "hello \<Rightarrow> string option" where
  "hello_frame h =
     (let body = marshal_hello h
      in if length body > max_payload then None
         else Some (magic @ [byte_char handshake_version] @ put_u16 (word_of_nat (length body)) @ body))"

definition ack_frame :: "byte \<times> ack \<Rightarrow> string option" where
  "ack_frame m =
     (let body = marshal_ack (snd m)
      in if length body > max_payload then None
         else Some (magic @ [byte_char handshake_version, byte_char (fst m)]
                    @ put_u16 (word_of_nat (length body)) @ body))"

definition hello_valid :: "hello \<Rightarrow> bool" where
  "hello_valid h \<longleftrightarrow> valid_utf8 (hello_token h) \<and> valid_utf8 (hello_service h) \<and> valid_utf8 (hello_version h)"

definition ack_valid :: "byte \<times> ack \<Rightarrow> bool" where
  "ack_valid m \<longleftrightarrow> valid_utf8 (ack_service (snd m)) \<and> valid_utf8 (ack_error (snd m))"

lemma write_hello_frame:
  "write_hello h w =
     (case hello_frame h of
        None \<Rightarrow> (Some TooLarge, w)
      | Some f \<Rightarrow> apfst (map_option IoError) (conn_write f w))"
  by (simp add: write_hello_def hello_frame_def Let_def two_writes)

lemma write_ack_frame:
  "write_ack st a w =
     (case ack_frame (st, a) of
        None \<Rightarrow> (Some TooLarge, w)
      | Some f \<Rightarrow> apfst (map_option IoError) (conn_write f w))"
  by (simp add: write_ack_def ack_frame_def Let_def two_writes)

lemma valid_ascii: "\<forall>c \<in> set s. code c < 128 \<Longrightarrow> valid_utf8 s"
  by (induction s) simp_all

lemma valid_names:
  "valid_utf8 ''token''" "valid_utf8 ''service''" "valid_utf8 ''version''" "valid_utf8 ''error''"
  by (simp_all add: code_def)

lemma names_differ:
  "''token'' \<noteq> ''service''" "''token'' \<noteq> ''version''" "''service'' \<noteq> ''version''" "''service'' \<noteq> ''error''"
  by simp_all

text \<open>Members that were left out because they are empty read as empty.\<close>

lemma fold_omit_empty:
  "f k = [] \<Longrightarrow> fold (\<lambda>(k, v) f. f(k := v)) (omit_empty k v @ ms) f = fold (\<lambda>(k, v) f. f(k := v)) ms (f(k := v))"
  by (auto simp: omit_empty_def fun_upd_idem)

lemma unmarshal_object:
  assumes "list_all (\<lambda>(k, v). valid_utf8 k \<and> valid_utf8 v \<and> k \<in> set names) ms"
  shows "unmarshal_fields names (json_object ms) = Inr (fold (\<lambda>(k, v) f. f(k := v)) ms (\<lambda>_. []))"
  by (rule unmarshal_fields_object) (use assms in \<open>auto simp: list_all_iff\<close>)

lemma omit_empty_all: "P (k, v) \<Longrightarrow> list_all P ms \<Longrightarrow> list_all P (omit_empty k v @ ms)"
  by (simp add: omit_empty_def)

lemma unmarshal_marshal_hello:
  assumes v: "hello_valid h"
  shows "unmarshal_hello (marshal_hello h) = Inr h"
proof -
  let ?names = "[''token'', ''service'', ''version'']" and ?P = "\<lambda>names (k, v). valid_utf8 k \<and> valid_utf8 v \<and> k \<in> set names"
  let ?ms = "(''token'', hello_token h) # omit_empty ''service'' (hello_service h) @ omit_empty ''version'' (hello_version h) @ []"
  let ?f = "(\<lambda>_. [])(''token'' := hello_token h, ''service'' := hello_service h, ''version'' := hello_version h)"
  have "?P ?names (''token'', hello_token h)" "?P ?names (''service'', hello_service h)" "?P ?names (''version'', hello_version h)"
    unfolding prod.case using v valid_names unfolding hello_valid_def by (blast intro: list.set_intros)+
  then have "list_all (?P ?names) ?ms" by (intro list.pred_inject(2) [THEN iffD2] conjI omit_empty_all list.pred_inject(1))
  note unmarshal_object [OF this]
  also have "fold (\<lambda>(k, v) f. f(k := v)) ?ms (\<lambda>_. []) = ?f"
    by (simp only: fold_simps prod.case fold_omit_empty fun_upd_apply names_differ names_differ [symmetric] if_False id_apply)
  finally show ?thesis
    unfolding unmarshal_hello_def marshal_hello_def append_Nil2
    by (simp only: bind_err_Inr fun_upd_apply names_differ names_differ [symmetric] if_False if_True refl) (cases h; simp)
qed

lemma unmarshal_marshal_ack:
  assumes v: "ack_valid m"
  shows "unmarshal_ack (marshal_ack (snd m)) = Inr (snd m)"
proof -
  let ?names = "[''service'', ''error'']" and ?P = "\<lambda>names (k, v). valid_utf8 k \<and> valid_utf8 v \<and> k \<in> set names"
  let ?ms = "omit_empty ''service'' (ack_service (snd m)) @ omit_empty ''error'' (ack_error (snd m)) @ []"
  let ?f = "(\<lambda>_. [])(''service'' := ack_service (snd m), ''error'' := ack_error (snd m))"
  have "?P ?names (''service'', ack_service (snd m))" "?P ?names (''error'', ack_error (snd m))"
    unfolding prod.case using v valid_names unfolding ack_valid_def by (blast intro: list.set_intros)+
  then have "list_all (?P ?names) ?ms" by (intro omit_empty_all list.pred_inject(1))
  note unmarshal_object [OF this]
  also have "fold (\<lambda>(k, v) f. f(k := v)) ?ms (\<lambda>_. []) = ?f"
    by (simp only: fold_simps prod.case fold_omit_empty fun_upd_apply names_differ names_differ [symmetric] if_False id_apply)
  finally show ?thesis
    unfolding unmarshal_ack_def marshal_ack_def append_Nil2
    by (simp only: bind_err_Inr fun_upd_apply names_differ names_differ [symmetric] if_False if_True refl) (cases "snd m"; simp)
qed

lemma read_hello_frame:
  assumes "hello_valid h" "hello_frame h = Some f" "arriving r = f @ rest"
  shows "read_hello r = (Inr h, r\<lparr>arriving := rest\<rparr>)"
proof -
  let ?b = "marshal_hello h"
  let ?n = "word_of_nat (length ?b) :: 16 word"
  obtain x y where xy: "put_u16 ?n = [x, y]" "get_u16 x y = ?n" using put_u16_cases by blast
  from assms(2) have small: "length ?b \<le> max_payload"
    and f: "f = magic @ [byte_char handshake_version, x, y] @ ?b"
    using xy by (auto simp: hello_frame_def Let_def split: if_splits)
  have "read_full 7 r = (Inr (magic @ [byte_char handshake_version, x, y]), r\<lparr>arriving := ?b @ rest\<rparr>)"
    by (rule read_full_ok) (simp_all add: assms(3) f magic_def)
  moreover have "read_full (length ?b) (r\<lparr>arriving := ?b @ rest\<rparr>) = (Inr ?b, r\<lparr>arriving := rest\<rparr>)"
    by (subst read_full_ok) simp_all
  ultimately show ?thesis
    using small unmarshal_marshal_hello [OF assms(1)]
    by (simp add: read_hello_def magic_def xy(2) unat_payload Let_def)
qed

lemma read_ack_frame:
  assumes "ack_valid m" "ack_frame m = Some f" "arriving r = f @ rest"
  shows "read_ack r = (Inr m, r\<lparr>arriving := rest\<rparr>)"
proof -
  let ?b = "marshal_ack (snd m)"
  let ?n = "word_of_nat (length ?b) :: 16 word"
  obtain x y where xy: "put_u16 ?n = [x, y]" "get_u16 x y = ?n" using put_u16_cases by blast
  from assms(2) have small: "length ?b \<le> max_payload"
    and f: "f = magic @ [byte_char handshake_version, byte_char (fst m), x, y] @ ?b"
    using xy by (auto simp: ack_frame_def Let_def split: if_splits)
  have "read_full 8 r = (Inr (magic @ [byte_char handshake_version, byte_char (fst m), x, y]),
      r\<lparr>arriving := ?b @ rest\<rparr>)"
    by (rule read_full_ok) (simp_all add: assms(3) f magic_def)
  moreover have "read_full (length ?b) (r\<lparr>arriving := ?b @ rest\<rparr>) = (Inr ?b, r\<lparr>arriving := rest\<rparr>)"
    by (subst read_full_ok) simp_all
  ultimately show ?thesis
    using small unmarshal_marshal_ack [OF assms(1)]
    by (simp add: read_ack_def magic_def xy(2) unat_payload Let_def)
qed

text \<open>A frame that stops short is an input error, whatever was in it.\<close>

lemma read_full_take:
  "arriving r = take k f \<Longrightarrow> k < length f \<Longrightarrow>
   (if n \<le> k then read_full n r = (Inr (take n f), r\<lparr>arriving := take (k - n) (drop n f)\<rparr>)
    else \<exists>e. read_full n r = (Inl e, r\<lparr>arriving := []\<rparr>))"
  by (auto simp: read_full_def drop_take min_def)

lemma read_hello_cut:
  assumes "hello_frame h = Some f" "arriving r = take k f" "k < length f"
  shows "\<exists>e. read_hello r = (Inl (IoError e), r\<lparr>arriving := []\<rparr>)"
proof -
  let ?b = "marshal_hello h"
  let ?n = "word_of_nat (length ?b) :: 16 word"
  obtain x y where xy: "put_u16 ?n = [x, y]" "get_u16 x y = ?n" using put_u16_cases by blast
  from assms(1) have small: "length ?b \<le> max_payload"
    and f: "f = magic @ [byte_char handshake_version, x, y] @ ?b"
    using xy by (auto simp: hello_frame_def Let_def split: if_splits)
  show ?thesis
  proof (cases "7 \<le> k")
    case False
    with read_full_take [OF assms(2,3), of 7] show ?thesis by (auto simp: read_hello_def)
  next
    case True
    with read_full_take [OF assms(2,3), of 7] f
    have "read_full 7 r = (Inr (magic @ [byte_char handshake_version, x, y]), r\<lparr>arriving := take (k - 7) ?b\<rparr>)"
      by (simp add: magic_def)
    moreover have "k - 7 < length ?b" using True assms(3) f by (simp add: magic_def)
    then obtain e where "read_full (length ?b) (r\<lparr>arriving := take (k - 7) ?b\<rparr>) = (Inl e, r\<lparr>arriving := []\<rparr>)"
      using read_full_short [of "r\<lparr>arriving := take (k - 7) ?b\<rparr>" "length ?b"] by auto
    ultimately show ?thesis
      using small by (simp add: read_hello_def magic_def xy(2) unat_payload Let_def)
  qed
qed

lemma read_ack_cut:
  assumes "ack_frame m = Some f" "arriving r = take k f" "k < length f"
  shows "\<exists>e. read_ack r = (Inl (IoError e), r\<lparr>arriving := []\<rparr>)"
proof -
  let ?b = "marshal_ack (snd m)"
  let ?n = "word_of_nat (length ?b) :: 16 word"
  obtain x y where xy: "put_u16 ?n = [x, y]" "get_u16 x y = ?n" using put_u16_cases by blast
  from assms(1) have small: "length ?b \<le> max_payload"
    and f: "f = magic @ [byte_char handshake_version, byte_char (fst m), x, y] @ ?b"
    using xy by (auto simp: ack_frame_def Let_def split: if_splits)
  show ?thesis
  proof (cases "8 \<le> k")
    case False
    with read_full_take [OF assms(2,3), of 8] show ?thesis by (auto simp: read_ack_def)
  next
    case True
    with read_full_take [OF assms(2,3), of 8] f
    have "read_full 8 r = (Inr (magic @ [byte_char handshake_version, byte_char (fst m), x, y]),
        r\<lparr>arriving := take (k - 8) ?b\<rparr>)"
      by (simp add: magic_def)
    moreover have "k - 8 < length ?b" using True assms(3) f by (simp add: magic_def)
    then obtain e where "read_full (length ?b) (r\<lparr>arriving := take (k - 8) ?b\<rparr>) = (Inl e, r\<lparr>arriving := []\<rparr>)"
      using read_full_short [of "r\<lparr>arriving := take (k - 8) ?b\<rparr>" "length ?b"] by auto
    ultimately show ?thesis
      using small by (simp add: read_ack_def magic_def xy(2) unat_payload Let_def)
  qed
qed

subsection \<open>The contract of a framed message\<close>

text \<open>
  What either side relies on: a frame followed by anything reads back, leaving what follows, and
  a frame that is cut reads as an input error. From that follow unique decoding and that no
  connection failure turns one message into another.
\<close>

locale wire_message =
  fixes frame :: "'m \<Rightarrow> string option" and read :: "reader \<Rightarrow> (handshake_error + 'm) \<times> reader"
    and valid :: "'m \<Rightarrow> bool"
  assumes whole: "valid m \<Longrightarrow> frame m = Some f \<Longrightarrow> arriving r = f @ rest \<Longrightarrow> read r = (Inr m, r\<lparr>arriving := rest\<rparr>)"
    and cut: "frame m = Some f \<Longrightarrow> arriving r = take k f \<Longrightarrow> k < length f \<Longrightarrow>
      \<exists>e. read r = (Inl (IoError e), r\<lparr>arriving := []\<rparr>)"
begin

lemma unambiguous:
  assumes "valid m" "valid m'" "frame m = Some a" "frame m' = Some b" "a @ x = b @ y"
  shows "m = m' \<and> x = y"
proof -
  let ?r = "\<lparr>arriving = a @ x, ending = EOF\<rparr>"
  from whole [OF assms(1,3), of ?r x] whole [OF assms(2,4), of ?r y] assms(5) show ?thesis by simp
qed

lemma delivered:
  assumes "valid m" "frame m = Some f" "conn_write f w = (res, w')" "sent w = []"
  shows "(case res of
      None \<Rightarrow> read \<lparr>arriving = sent w' @ rest, ending = e\<rparr> = (Inr m, \<lparr>arriving = rest, ending = e\<rparr>)
    | Some _ \<Rightarrow> \<exists>e'. fst (read \<lparr>arriving = sent w', ending = e\<rparr>) = Inl (IoError e'))"
proof (cases "length f \<le> room w")
  case True
  then have "res = None" "sent w' = f" using assms(3,4) by (auto simp: conn_write_def)
  with whole [OF assms(1,2)] show ?thesis by simp
next
  case False
  then have "res = Some (failure w)" "sent w' = take (room w) f" using assms(3,4) by (auto simp: conn_write_def)
  with cut [OF assms(2), of "\<lparr>arriving = sent w', ending = e\<rparr>" "room w"] False show ?thesis by auto
qed

end

interpretation hello_wire: wire_message hello_frame read_hello hello_valid
  by unfold_locales (blast intro: read_hello_frame read_hello_cut)+

interpretation ack_wire: wire_message ack_frame read_ack ack_valid
  by unfold_locales (blast intro: read_ack_frame read_ack_cut)+

text \<open>
  C13. A hello written to a connection that may break at any byte: if the write reports success,
  the reader at the other end gets exactly this hello and finds the bytes that follow untouched
  (they belong to yamux); if the write reports a connection error, the reader gets an input
  error, never another hello.
\<close>

theorem hello_delivered_or_error:
  assumes "hello_valid h" "write_hello h \<lparr>sent = [], room = n, failure = e\<rparr> = (res, w)" "res \<noteq> Some TooLarge"
  shows "(case res of
      None \<Rightarrow> read_hello \<lparr>arriving = sent w @ rest, ending = x\<rparr> = (Inr h, \<lparr>arriving = rest, ending = x\<rparr>)
    | Some _ \<Rightarrow> \<exists>x'. fst (read_hello \<lparr>arriving = sent w, ending = x\<rparr>) = Inl (IoError x'))"
proof -
  obtain f res' where f: "hello_frame h = Some f" "conn_write f \<lparr>sent = [], room = n, failure = e\<rparr> = (res', w)"
      "res = map_option IoError res'"
    using assms(2,3)
    by (cases "hello_frame h"; cases "conn_write (the (hello_frame h)) \<lparr>sent = [], room = n, failure = e\<rparr>")
      (auto simp: write_hello_frame)
  from hello_wire.delivered [OF assms(1) f(1,2), of rest x] f(3) show ?thesis
    by (cases res') simp_all
qed

text \<open>The same for the router's answer, its status byte included.\<close>

theorem ack_delivered_or_error:
  assumes "ack_valid (st, a)" "write_ack st a \<lparr>sent = [], room = n, failure = e\<rparr> = (res, w)" "res \<noteq> Some TooLarge"
  shows "(case res of
      None \<Rightarrow> read_ack \<lparr>arriving = sent w @ rest, ending = x\<rparr> = (Inr (st, a), \<lparr>arriving = rest, ending = x\<rparr>)
    | Some _ \<Rightarrow> \<exists>x'. fst (read_ack \<lparr>arriving = sent w, ending = x\<rparr>) = Inl (IoError x'))"
proof -
  obtain f res' where f: "ack_frame (st, a) = Some f" "conn_write f \<lparr>sent = [], room = n, failure = e\<rparr> = (res', w)"
      "res = map_option IoError res'"
    using assms(2,3)
    by (cases "ack_frame (st, a)"; cases "conn_write (the (ack_frame (st, a))) \<lparr>sent = [], room = n, failure = e\<rparr>")
      (auto simp: write_ack_frame)
  from ack_wire.delivered [OF assms(1) f(1,2), of rest x] f(3) show ?thesis
    by (cases res') simp_all
qed

text \<open>
  C40. What the router accepts as a hello, exactly: the magic, version 1, a length of at most 8192
  and that many bytes of JSON that decode to the hello; and it reads not a byte more.
\<close>

theorem read_hello_accepts:
  "read_hello r = (Inr h, r') \<longleftrightarrow>
   (\<exists>n body rest. arriving r = magic @ [byte_char handshake_version] @ put_u16 n @ body @ rest \<and>
      length body = unat n \<and> unat n \<le> max_payload \<and> unmarshal_hello body = Inr h \<and> r' = r\<lparr>arriving := rest\<rparr>)"
proof
  assume "\<exists>n body rest. arriving r = magic @ [byte_char handshake_version] @ put_u16 n @ body @ rest \<and>
      length body = unat n \<and> unat n \<le> max_payload \<and> unmarshal_hello body = Inr h \<and> r' = r\<lparr>arriving := rest\<rparr>"
  then show "read_hello r = (Inr h, r')" by (auto simp: read_hello_body)
next
  assume read: "read_hello r = (Inr h, r')"
  then obtain hdr r1 where hdr: "read_full 7 r = (Inr hdr, r1)" "take 4 hdr = magic"
      "char_byte (hdr ! 4) = handshake_version" "unat (get_u16 (hdr ! 5) (hdr ! 6)) \<le> max_payload"
    by (auto simp: read_hello_def Let_def split: prod.splits sum.splits if_splits)
  from hdr(1) have len: "length hdr = 7" "arriving r = hdr @ arriving r1" "r1 = r\<lparr>arriving := drop 7 (arriving r)\<rparr>"
    by (auto simp: read_full_def split: if_splits)
  then obtain a b c d v x y where shape: "hdr = [a, b, c, d, v, x, y]"
    by (auto simp: numeral_eq_Suc length_Suc_conv)
  let ?n = "get_u16 x y"
  have v: "v = byte_char handshake_version" using hdr(3) shape by (simp add: char_byte_eq)
  have hd: "hdr = magic @ [byte_char handshake_version] @ put_u16 ?n"
    using hdr(2) shape v by (simp add: put_get_u16)
  from read hdr obtain body r2 where body: "read_full (unat ?n) r1 = (Inr body, r2)"
    by (auto simp: read_hello_def Let_def shape split: prod.splits sum.splits if_splits)
  then have b2: "length body = unat ?n" "arriving r1 = body @ arriving r2" "r2 = r\<lparr>arriving := arriving r2\<rparr>"
    using len(3) by (auto simp: read_full_def simp flip: drop_drop split: if_splits)
  have "arriving r = magic @ [byte_char handshake_version] @ put_u16 ?n @ body @ arriving r2"
    using len(2) hd b2(2) by simp
  moreover from read_hello_body [OF this b2(1)] hdr(4) shape read b2(3)
  have "unmarshal_hello body = Inr h" "r' = r\<lparr>arriving := arriving r2\<rparr>"
    by (auto split: sum.splits)
  ultimately show "\<exists>n body rest. arriving r = magic @ [byte_char handshake_version] @ put_u16 n @ body @ rest \<and>
      length body = unat n \<and> unat n \<le> max_payload \<and> unmarshal_hello body = Inr h \<and> r' = r\<lparr>arriving := rest\<rparr>"
    using b2(1) hdr(4) shape by auto
qed

subsection \<open>Concrete handshakes\<close>

lemma escape_letter: "code a < 128 \<Longrightarrow> escape_ascii a = [a] \<Longrightarrow> escape (a # s) = a # escape s"
  by (simp add: escape.simps(2) [of a s])

definition demo_hello :: hello where
  "demo_hello = \<lparr>hello_token = ''tk'', hello_service = ''foo'', hello_version = []\<rparr>"

definition demo_ack :: ack where
  "demo_ack = \<lparr>ack_service = ''foo'', ack_error = []\<rparr>"

lemma marshal_demo:
  "length (marshal_hello demo_hello) = 30" "length (marshal_ack demo_ack) = 17"
  by (simp_all add: marshal_hello_def marshal_ack_def demo_hello_def demo_ack_def omit_empty_def json_object_def
      json_string_def escape_letter escape_ascii_def code_def dquote_def bslash_def)

lemma demo_valid: "hello_valid demo_hello" "ack_valid (status_ok, demo_ack)"
  by (simp_all add: hello_valid_def ack_valid_def demo_hello_def demo_ack_def code_def)

theorem hello_delivered_or_error_witness:
  "\<exists>w. write_hello demo_hello \<lparr>sent = [], room = 100, failure = Timeout\<rparr> = (None, w) \<and>
    read_hello \<lparr>arriving = sent w @ ''yamux'', ending = EOF\<rparr> = (Inr demo_hello, \<lparr>arriving = ''yamux'', ending = EOF\<rparr>)"
proof -
  obtain w where w: "write_hello demo_hello \<lparr>sent = [], room = 100, failure = Timeout\<rparr> = (None, w)"
    by (simp add: write_hello_def Let_def marshal_demo max_payload_def conn_write_def magic_def)
  from hello_delivered_or_error [OF demo_valid(1) this, of "''yamux''" EOF] w show ?thesis by simp
qed

theorem ack_delivered_or_error_witness:
  "\<exists>x w. write_ack status_ok demo_ack \<lparr>sent = [], room = 20, failure = ConnReset\<rparr> = (Some (IoError ConnReset), w) \<and>
    fst (read_ack \<lparr>arriving = sent w, ending = EOF\<rparr>) = Inl (IoError x)"
proof -
  obtain w where w: "write_ack status_ok demo_ack \<lparr>sent = [], room = 20, failure = ConnReset\<rparr>
      = (Some (IoError ConnReset), w)"
    by (simp add: write_ack_def Let_def marshal_demo max_payload_def conn_write_def magic_def)
  from ack_delivered_or_error [OF demo_valid(2) this, of "[]" EOF] w show ?thesis by simp
qed

end
