(* ===== verification/Routing.thy ===== *)
theory Routing
  imports GoStrings
begin

text \<open>
  The host arithmetic of \<open>server/server.go\<close>: \<open>stripPort\<close>, \<open>portFromAddr\<close>,
  \<open>extractService\<close> and the service-name pattern \<open>serviceNameRE\<close>. The lemmas give the exact
  set of hosts that name a service, so the handlers above need no string reasoning.
\<close>

subsection \<open>Definitions\<close>

definition strip_port :: "string \<Rightarrow> string" where
  "strip_port host =
     (case index_byte host CHR '':'' of
        Some i \<Rightarrow> take i host
      | None \<Rightarrow> host)"

definition port_from_addr :: "string \<Rightarrow> string" where
  "port_from_addr addr =
     (case last_index_byte addr CHR '':'' of
        Some i \<Rightarrow> drop (Suc i) addr
      | None \<Rightarrow> '''')"

definition last_label :: "string \<Rightarrow> string" where
  "last_label inner =
     (case last_index_byte inner CHR ''.'' of
        Some i \<Rightarrow> drop (Suc i) inner
      | None \<Rightarrow> inner)"

definition extract_service :: "string \<Rightarrow> string \<Rightarrow> string" where
  "extract_service host0 base0 =
     (let host = to_lower (trim_suffix host0 ''.'');
          base = to_lower base0
      in if host = '''' \<or> host = base then ''''
         else (let suffix = ''.'' @ base
               in if \<not> has_suffix host suffix then ''''
                  else last_label (take (length host - length suffix) host)))"

definition service_head_char :: "char \<Rightarrow> bool" where
  "service_head_char c \<longleftrightarrow> is_lower c \<or> is_digit c"

definition service_tail_char :: "char \<Rightarrow> bool" where
  "service_tail_char c \<longleftrightarrow> is_lower c \<or> is_digit c \<or> c = CHR ''-''"

text \<open>\<open>^[a-z0-9][a-z0-9-]{0,30}$\<close>, matched against the whole string.\<close>

fun service_name_ok :: "string \<Rightarrow> bool" where
  "service_name_ok [] = False"
| "service_name_ok (c # s) \<longleftrightarrow> service_head_char c \<and> length s \<le> 30 \<and> list_all service_tail_char s"

subsection \<open>Ports\<close>

lemma strip_port_no_colon [simp]: "CHR '':'' \<notin> set host \<Longrightarrow> strip_port host = host"
  by (simp add: strip_port_def)

lemma strip_port_append:
  "CHR '':'' \<notin> set host \<Longrightarrow> strip_port (host @ '':'' @ port) = host"
  by (simp add: strip_port_def)

lemma strip_port_colon_free: "CHR '':'' \<notin> set (strip_port host)"
proof (cases "index_byte host CHR '':''")
  case (Some i)
  then obtain a b where "host = a @ CHR '':'' # b" "length a = i" "CHR '':'' \<notin> set a"
    by (rule index_byte_SomeE)
  with Some show ?thesis by (simp add: strip_port_def)
qed (simp add: strip_port_def)

lemma port_from_addr_append:
  "CHR '':'' \<notin> set port \<Longrightarrow> port_from_addr (host @ '':'' @ port) = port"
  by (simp add: port_from_addr_def)

subsection \<open>Service labels\<close>

lemma last_label_absent: "CHR ''.'' \<notin> set lab \<Longrightarrow> last_label lab = lab"
  by (simp add: last_label_def)

lemma last_label_after: "CHR ''.'' \<notin> set lab \<Longrightarrow> last_label (p @ CHR ''.'' # lab) = lab"
  by (simp add: last_label_def)

lemma last_label_dot_free: "CHR ''.'' \<notin> set (last_label s)"
proof (cases "CHR ''.'' \<in> set s")
  case True
  then obtain a b where "s = a @ CHR ''.'' # b" "CHR ''.'' \<notin> set b"
    using split_list_last by metis
  then show ?thesis by (simp add: last_label_after)
qed (simp add: last_label_absent)

lemma last_label_split:
  obtains pre where "pre = '''' \<or> (\<exists>p. pre = p @ ''.'')" and "s = pre @ last_label s"
proof (cases "CHR ''.'' \<in> set s")
  case True
  then obtain a b where ab: "s = a @ CHR ''.'' # b" "CHR ''.'' \<notin> set b"
    using split_list_last by metis
  then have "s = (a @ ''.'') @ last_label s" by (simp add: last_label_after)
  with that [of "a @ ''.''"] show ?thesis by blast
next
  case False
  with that [of "''''"] show ?thesis by (simp add: last_label_absent)
qed

lemma extract_service_suffixed:
  "to_lower (trim_suffix host ''.'') = a @ ''.'' @ to_lower base \<Longrightarrow> extract_service host base = last_label a"
proof -
  assume h: "to_lower (trim_suffix host ''.'') = a @ ''.'' @ to_lower base"
  have "has_suffix (a @ ''.'' @ to_lower base) (''.'' @ to_lower base)" by (rule has_suffix_append)
  with h show ?thesis by (simp add: extract_service_def Let_def)
qed

lemma extract_service_other:
  "\<not> has_suffix (to_lower (trim_suffix host ''.'')) (''.'' @ to_lower base) \<Longrightarrow>
   extract_service host base = ''''"
  by (simp add: extract_service_def Let_def)

lemma extract_service_cases:
  obtains "extract_service host base = ''''"
  | a where "to_lower (trim_suffix host ''.'') = a @ ''.'' @ to_lower base"
      and "extract_service host base = last_label a"
  using extract_service_other extract_service_suffixed has_suffix_iff by metis

text \<open>The label is what follows the last dot of the part in front of \<open>.base\<close>.\<close>

lemma extract_service_last_label:
  assumes "to_lower (trim_suffix host ''.'') = pre @ lab @ ''.'' @ to_lower base"
    and "pre = '''' \<or> (\<exists>p. pre = p @ ''.'')" and "CHR ''.'' \<notin> set lab"
  shows "extract_service host base = lab"
proof -
  have "extract_service host base = last_label (pre @ lab)"
    by (rule extract_service_suffixed) (simp add: assms(1))
  then show ?thesis
    using assms(2,3) by (auto simp: last_label_absent last_label_after)
qed

lemma extract_service_dot_free: "CHR ''.'' \<notin> set (extract_service host base)"
  by (rule extract_service_cases [of host base]) (simp_all add: last_label_dot_free)

lemma extract_service_suffix:
  assumes "extract_service host base \<noteq> ''''"
  obtains pre where "pre = '''' \<or> (\<exists>p. pre = p @ ''.'')"
    and "to_lower (trim_suffix host ''.'') = pre @ extract_service host base @ ''.'' @ to_lower base"
proof (rule extract_service_cases [of host base])
  assume "extract_service host base = ''''"
  with assms show thesis by simp
next
  fix a
  assume a: "to_lower (trim_suffix host ''.'') = a @ ''.'' @ to_lower base"
    and eq: "extract_service host base = last_label a"
  obtain pre where "pre = '''' \<or> (\<exists>p. pre = p @ ''.'')" "a = pre @ last_label a"
    by (rule last_label_split)
  with a eq that show thesis by (metis append.assoc)
qed

text \<open>
  C19. Host routing. A request reaches the service named by the label directly in front of the base
  domain, whatever deeper labels, letter case or one trailing dot the host has; every
  other host selects no service.
\<close>

theorem extract_service_iff:
  assumes "lab \<noteq> ''''"
  shows "extract_service host base = lab \<longleftrightarrow>
     CHR ''.'' \<notin> set lab \<and>
     (\<exists>pre. (pre = '''' \<or> (\<exists>p. pre = p @ ''.'')) \<and>
        to_lower (trim_suffix host ''.'') = pre @ lab @ ''.'' @ to_lower base)"
    (is "?l = lab \<longleftrightarrow> ?r")
proof
  assume eq: "?l = lab"
  with assms have "?l \<noteq> ''''" by simp
  then obtain pre where "pre = '''' \<or> (\<exists>p. pre = p @ ''.'')"
    "to_lower (trim_suffix host ''.'') = pre @ ?l @ ''.'' @ to_lower base"
    by (rule extract_service_suffix)
  with eq extract_service_dot_free [of host base] show ?r by blast
next
  assume ?r
  then show "?l = lab" by (elim conjE exE) (rule extract_service_last_label)
qed

theorem extract_service_iff_witness:
  "extract_service ''deep.API.foo.Router.com.'' ''router.com'' = ''foo''"
proof -
  have "to_lower (trim_suffix ''deep.API.foo.Router.com.'' ''.'') = (''deep.api'' @ ''.'') @ ''foo'' @ ''.'' @ to_lower ''router.com''"
    by code_simp
  then show ?thesis
    by (intro extract_service_iff [of "''foo''" "''deep.API.foo.Router.com.''" "''router.com''", THEN iffD2]) auto
qed

lemma extract_service_apex [simp]: "extract_service base base = ''''"
proof (rule ccontr)
  assume "extract_service base base \<noteq> ''''"
  then obtain pre where "to_lower (trim_suffix base ''.'') =
      pre @ extract_service base base @ ''.'' @ to_lower base"
    by (rule extract_service_suffix)
  then have "length (to_lower (trim_suffix base ''.'')) =
      length (pre @ extract_service base base @ ''.'' @ to_lower base)"
    by simp
  then have "length base < length (trim_suffix base ''.'')" by simp
  then show False by (simp add: trim_suffix_def split: if_splits)
qed

lemma extract_service_lower: "to_lower (extract_service host base) = extract_service host base"
proof (cases "extract_service host base = ''''")
  case False
  then obtain pre where eq: "to_lower (trim_suffix host ''.'') =
      pre @ extract_service host base @ ''.'' @ to_lower base"
    by (rule extract_service_suffix)
  from eq have "to_lower (pre @ extract_service host base @ ''.'' @ to_lower base) =
      pre @ extract_service host base @ ''.'' @ to_lower base"
    by (metis to_lower_idem)
  then show ?thesis by simp
qed simp

lemma extract_service_base_lower [simp]: "extract_service host (to_lower base) = extract_service host base"
  by (simp add: extract_service_def)

subsection \<open>The service-name pattern\<close>

lemma service_tail_char_props:
  "service_tail_char c \<Longrightarrow> \<not> is_upper c \<and> c \<noteq> CHR ''.'' \<and> c \<noteq> CHR '':'' \<and> \<not> is_space c"
  by (auto simp: service_tail_char_def is_lower_def is_digit_def is_upper_def is_space_def code_def)

lemma service_name_ok_chars: "service_name_ok s \<Longrightarrow> c \<in> set s \<Longrightarrow> service_tail_char c"
  by (cases s) (auto simp: service_head_char_def service_tail_char_def list_all_iff)

lemma service_name_ok_no_dot: "service_name_ok s \<Longrightarrow> CHR ''.'' \<notin> set s"
  using service_name_ok_chars service_tail_char_props by blast

lemma service_name_ok_no_colon: "service_name_ok s \<Longrightarrow> CHR '':'' \<notin> set s"
  using service_name_ok_chars service_tail_char_props by blast

lemma service_name_ok_lower: "service_name_ok s \<Longrightarrow> to_lower s = s"
  using service_name_ok_chars service_tail_char_props by (intro to_lower_id) blast

lemma service_name_ok_trim: "service_name_ok s \<Longrightarrow> trim_space s = s"
  using service_name_ok_chars service_tail_char_props by (intro trim_space_id) blast

lemma service_name_ok_length: "service_name_ok s \<Longrightarrow> 1 \<le> length s \<and> length s \<le> 31"
  by (cases s) auto

lemma service_name_ok_ne: "service_name_ok s \<Longrightarrow> s \<noteq> ''''"
  by auto

end
