(* ===== verification/Tokens.thy ===== *)
theory Tokens
  imports Json
begin

text \<open>
  The token store (\<open>server/reload.go\<close>) and the reader of the tokens file (\<open>readTokensFile\<close> in
  \<open>server/config.go\<close>): lookups, reloads, the watcher that turns \<open>SIGHUP\<close> and file-system events into
  reloads, and the proof that a change of the file is never missed.

  The file system is an argument: the result of \<open>os.ReadFile\<close>, either an error text or the contents.
  Error texts are never empty (they start with a fixed phrase), so the empty \<open>lastErr\<close> of the
  code is \<open>None\<close> here.
\<close>

subsection \<open>The tokens file\<close>

datatype token_file_error = ReadError string | ParseError json_error

type_synonym file_result = "string + string"

definition clean_service :: "string \<Rightarrow> string" where
  "clean_service v = to_lower (trim_space v)"

definition read_tokens_file :: "file_result \<Rightarrow> (string \<rightharpoonup> string) \<Rightarrow> token_file_error + (string \<rightharpoonup> string)" where
  "read_tokens_file file m =
     (case file of
        Inl e \<Rightarrow> Inl (ReadError e)
      | Inr raw \<Rightarrow>
          (case unmarshal_map raw of
             Inl e \<Rightarrow> Inl (ParseError e)
           | Inr parsed \<Rightarrow> Inr (m ++ (\<lambda>k. map_option clean_service (parsed k)))))"

subsection \<open>The store\<close>

record token_store =
  inline_tokens :: "string \<rightharpoonup> string"
  file_tokens :: "string \<rightharpoonup> string"
  tokens_path :: string
  last_reload :: "nat option"
  last_err :: "token_file_error option"

definition reload :: "nat \<Rightarrow> file_result \<Rightarrow> token_store \<Rightarrow> token_file_error option \<times> token_store" where
  "reload now file s =
     (if tokens_path s = [] then (None, s)
      else (case read_tokens_file file Map.empty of
              Inl e \<Rightarrow> (Some e, s\<lparr>last_err := Some e, last_reload := Some now\<rparr>)
            | Inr fresh \<Rightarrow> (None, s\<lparr>file_tokens := fresh, last_reload := Some now, last_err := None\<rparr>)))"

definition new_token_store :: "nat \<Rightarrow> file_result \<Rightarrow> (string \<rightharpoonup> string) \<Rightarrow> string \<Rightarrow> token_store" where
  "new_token_store now file inline path =
     (let t = \<lparr>inline_tokens = inline, file_tokens = Map.empty, tokens_path = path,
               last_reload = None, last_err = None\<rparr>
      in if path \<noteq> [] then snd (reload now file t) else t)"

definition token_lookup :: "string \<Rightarrow> token_store \<Rightarrow> string option" where
  "token_lookup token s =
     (case inline_tokens s token of
        Some v \<Rightarrow> Some v
      | None \<Rightarrow> file_tokens s token)"

definition token_snapshot :: "token_store \<Rightarrow> nat \<times> nat option \<times> token_file_error option" where
  "token_snapshot s = (card (dom (inline_tokens s)) + card (dom (file_tokens s)), last_reload s, last_err s)"

definition all_tokens :: "token_store \<Rightarrow> (string \<rightharpoonup> string)" where
  "all_tokens s = inline_tokens s ++ file_tokens s"

subsection \<open>What a reload does\<close>

definition file_map :: "file_result \<Rightarrow> (string \<rightharpoonup> string) option" where
  "file_map file =
     (case read_tokens_file file Map.empty of Inl _ \<Rightarrow> None | Inr m \<Rightarrow> Some m)"

lemma reload_simps [simp]:
  "inline_tokens (snd (reload now file s)) = inline_tokens s"
  "tokens_path (snd (reload now file s)) = tokens_path s"
  by (auto simp: reload_def split: sum.splits)

lemma reload_file:
  "tokens_path s \<noteq> [] \<Longrightarrow>
   file_tokens (snd (reload now file s)) = (case file_map file of None \<Rightarrow> file_tokens s | Some m \<Rightarrow> m) \<and>
   (last_err (snd (reload now file s)) = None \<longleftrightarrow> file_map file \<noteq> None) \<and>
   last_reload (snd (reload now file s)) = Some now"
  by (auto simp: reload_def file_map_def split: sum.splits)

lemma token_lookup_inline: "inline_tokens s k = Some v \<Longrightarrow> token_lookup k s = Some v"
  by (simp add: token_lookup_def)

lemma token_lookup_map: "token_lookup k s = (file_tokens s ++ inline_tokens s) k"
  by (simp add: token_lookup_def map_add_def split: option.splits)

subsection \<open>The watcher\<close>

datatype fs_op = FsCreate | FsWrite | FsRemove | FsRename | FsChmod

definition relevant :: "fs_op list \<Rightarrow> bool" where
  "relevant ops \<longleftrightarrow> FsWrite \<in> set ops \<or> FsCreate \<in> set ops \<or> FsRename \<in> set ops"

definition debounce_delay :: nat where
  "debounce_delay = 150000000"

record watcher =
  pending :: bool
  debounce :: "nat option" \<comment> \<open>when the timer fires, \<open>None\<close> while stopped\<close>

definition new_watcher :: watcher where
  "new_watcher = \<lparr>pending = False, debounce = None\<rparr>"

definition trigger :: "nat \<Rightarrow> watcher \<Rightarrow> watcher" where
  "trigger now w = (if \<not> pending w then w\<lparr>pending := True, debounce := Some (now + debounce_delay)\<rparr> else w)"

datatype watch_event =
    CtxCancelled
  | Hangup
  | FsEvent "fs_op list"
  | FsEventsClosed
  | FsError
  | FsErrorsClosed
  | DebounceFired

text \<open>One round of the loop: \<open>None\<close> when \<open>watch\<close> returns; the flag says that the round reloads.\<close>

fun watch_round :: "nat \<Rightarrow> watch_event \<Rightarrow> watcher \<Rightarrow> (watcher \<times> bool) option" where
  "watch_round now CtxCancelled w = None"
| "watch_round now Hangup w = Some (w, True)"
| "watch_round now (FsEvent ops) w = Some (if relevant ops then trigger now w else w, False)"
| "watch_round now FsEventsClosed w = None"
| "watch_round now FsError w = Some (w, False)"
| "watch_round now FsErrorsClosed w = None"
| "watch_round now DebounceFired w = Some (w\<lparr>pending := False, debounce := None\<rparr>, True)"

text \<open>
  The watcher beside the file. The environment changes the file, each change queueing an event that
  \<open>fsnotify\<close> reports as a write, a creation or a renaming, queues other events, sends \<open>SIGHUP\<close> (a channel with room
  for one signal) and lets time pass. The watcher's own steps are the rounds of its loop that can go on; a reload
  reads the file in one step and swaps the map in another, and no other round runs in between.
\<close>

record watch_world =
  disk :: file_result
  fs_queue :: "fs_op list list"
  hup :: bool
  the_watcher :: watcher
  reading :: "file_result option"
  store :: token_store
  clock :: nat

inductive watch_env :: "watch_world \<Rightarrow> watch_world \<Rightarrow> bool" where
  change: "relevant ops \<Longrightarrow> watch_env w (w\<lparr>disk := file, fs_queue := fs_queue w @ [ops]\<rparr>)"
| noise: "watch_env w (w\<lparr>fs_queue := fs_queue w @ [ops]\<rparr>)"
| signal: "watch_env w (w\<lparr>hup := True\<rparr>)"
| tick: "clock w \<le> t \<Longrightarrow> watch_env w (w\<lparr>clock := t\<rparr>)"

inductive watch_own :: "watch_world \<Rightarrow> watch_world \<Rightarrow> bool" where
  fs_event: "reading w = None \<Longrightarrow> fs_queue w = ops # rest \<Longrightarrow>
    watch_round (clock w) (FsEvent ops) (the_watcher w) = Some (v, False) \<Longrightarrow>
    watch_own w (w\<lparr>fs_queue := rest, the_watcher := v\<rparr>)"
| hangup: "reading w = None \<Longrightarrow> hup w \<Longrightarrow>
    watch_round (clock w) Hangup (the_watcher w) = Some (v, True) \<Longrightarrow>
    watch_own w (w\<lparr>hup := False, the_watcher := v, reading := Some (disk w)\<rparr>)"
| fired: "reading w = None \<Longrightarrow> debounce (the_watcher w) = Some d \<Longrightarrow> d \<le> clock w \<Longrightarrow>
    watch_round (clock w) DebounceFired (the_watcher w) = Some (v, True) \<Longrightarrow>
    watch_own w (w\<lparr>the_watcher := v, reading := Some (disk w)\<rparr>)"
| swap: "reading w = Some file \<Longrightarrow>
    watch_own w (w\<lparr>reading := None, store := snd (reload (clock w) file (store w))\<rparr>)"

inductive watch_step :: "watch_world \<Rightarrow> watch_world \<Rightarrow> bool" where
  env: "watch_env w w' \<Longrightarrow> watch_step w w'"
| own: "watch_own w w' \<Longrightarrow> watch_step w w'"

inductive_cases watch_envE: "watch_env w w'"
inductive_cases watch_ownE: "watch_own w w'"
inductive_cases watch_stepE: "watch_step w w'"

text \<open>The store shows the file: its map when the file is well formed, an error otherwise.\<close>

definition reflects :: "token_store \<Rightarrow> file_result \<Rightarrow> bool" where
  "reflects s file \<longleftrightarrow>
     (case file_map file of
        Some m \<Rightarrow> file_tokens s = m \<and> last_err s = None
      | None \<Rightarrow> last_err s \<noteq> None)"

definition init_watch :: "watch_world \<Rightarrow> bool" where
  "init_watch w \<longleftrightarrow>
     tokens_path (store w) \<noteq> [] \<and> reflects (store w) (disk w) \<and> fs_queue w = [] \<and> \<not> hup w \<and>
     the_watcher w = new_watcher \<and> reading w = None"

definition timer_inv :: "watch_world \<Rightarrow> bool" where
  "timer_inv w \<longleftrightarrow>
     (pending (the_watcher w) \<longleftrightarrow> debounce (the_watcher w) \<noteq> None) \<and>
     (\<forall>d. debounce (the_watcher w) = Some d \<longrightarrow> d \<le> clock w + debounce_delay)"

definition news_inv :: "watch_world \<Rightarrow> bool" where
  "news_inv w \<longleftrightarrow>
     tokens_path (store w) \<noteq> [] \<and>
     (reflects (store w) (disk w) \<and> reading w = None \<or> reading w = Some (disk w) \<or>
      pending (the_watcher w) \<or> (\<exists>ops \<in> set (fs_queue w). relevant ops))"

definition watch_inv :: "watch_world \<Rightarrow> bool" where
  "watch_inv w \<longleftrightarrow> timer_inv w \<and> news_inv w"

lemmas watch_defs = watch_inv_def timer_inv_def news_inv_def

lemma reflects_reload: "tokens_path s \<noteq> [] \<Longrightarrow> reflects (snd (reload now file s)) file"
  using reload_file [of s now "file"] by (auto simp: reflects_def split: option.splits)

lemma watch_env_inv: "watch_inv w \<Longrightarrow> watch_env w w' \<Longrightarrow> watch_inv w'"
  by (erule watch_envE) (auto simp: watch_defs)

lemma watch_own_inv: "watch_inv w \<Longrightarrow> watch_own w w' \<Longrightarrow> watch_inv w'"
proof (erule watch_ownE, goal_cases)
  case (4 f)
  then show ?case by (auto simp: watch_defs reflects_reload)
qed (auto simp: watch_defs trigger_def split: if_splits)

interpretation watching: invariant_system init_watch watch_step watch_inv
proof unfold_locales
  show "watch_inv w" if "init_watch w" for w
    using that by (simp add: init_watch_def watch_defs new_watcher_def)
qed (auto elim!: watch_stepE intro: watch_env_inv watch_own_inv)

subsection \<open>When nothing more happens outside\<close>

text \<open>A run in which the watcher takes \<open>n\<close> steps of its own and, between them, only time passes.\<close>

inductive quiet_run :: "nat \<Rightarrow> watch_world \<Rightarrow> watch_world \<Rightarrow> bool" where
  start: "quiet_run 0 w w"
| wait: "quiet_run n w v \<Longrightarrow> clock v \<le> t \<Longrightarrow> quiet_run n w (v\<lparr>clock := t\<rparr>)"
| act: "quiet_run n w v \<Longrightarrow> watch_own v u \<Longrightarrow> quiet_run (Suc n) w u"

text \<open>At rest: however long it waits, the watcher has nothing to do.\<close>

definition resting :: "watch_world \<Rightarrow> bool" where
  "resting w \<longleftrightarrow> (\<forall>t v. clock w \<le> t \<longrightarrow> \<not> watch_own (w\<lparr>clock := t\<rparr>) v)"

definition watch_work :: "watch_world \<Rightarrow> nat" where
  "watch_work w =
     3 * length (fs_queue w) + (if hup w then 2 else 0) +
     (case debounce (the_watcher w) of None \<Rightarrow> 0 | Some _ \<Rightarrow> 2) + (case reading w of None \<Rightarrow> 0 | Some _ \<Rightarrow> 1)"

lemma watch_own_work: "watch_own w w' \<Longrightarrow> timer_inv w \<Longrightarrow> watch_work w' < watch_work w"
  by (erule watch_ownE) (auto simp: watch_work_def timer_inv_def trigger_def split: option.splits if_splits)

lemma quiet_run_inv: "quiet_run n w w' \<Longrightarrow> watch_inv w \<Longrightarrow> watch_inv w'"
  by (induction rule: quiet_run.induct) (auto intro: watch_own_inv watch_env_inv watch_env.tick)

lemma watch_own_disk: "watch_own w w' \<Longrightarrow> disk w' = disk w"
  by (erule watch_ownE) simp_all

lemma quiet_run_disk: "quiet_run n w w' \<Longrightarrow> disk w' = disk w"
  by (induction rule: quiet_run.induct) (simp_all add: watch_own_disk)

lemma quiet_run_work: "quiet_run n w w' \<Longrightarrow> watch_inv w \<Longrightarrow> n + watch_work w' \<le> watch_work w"
proof (induction rule: quiet_run.induct)
  case (act n w v u)
  have "watch_work u < watch_work v"
    using watch_own_work [OF act.hyps(2)] quiet_run_inv [OF act.hyps(1) act.prems] by (simp add: watch_inv_def)
  with act.IH [OF act.prems] show ?case by simp
qed (simp_all add: watch_work_def)

text \<open>Whenever there is anything left to do, something can be done 150 ms later at the latest.\<close>

lemma due_soon:
  assumes "watch_inv w" "reading w \<noteq> None \<or> fs_queue w \<noteq> [] \<or> debounce (the_watcher w) \<noteq> None"
  shows "\<exists>v. watch_own (w\<lparr>clock := clock w + debounce_delay\<rparr>) v"
proof (cases "reading w")
  case (Some f)
  with watch_own.swap [of "w\<lparr>clock := clock w + debounce_delay\<rparr>" f] show ?thesis by auto
next
  case None
  let ?w = "w\<lparr>clock := clock w + debounce_delay\<rparr>"
  show ?thesis
  proof (cases "fs_queue w")
    case (Cons ops rest)
    with None watch_own.fs_event [of ?w ops rest] show ?thesis by auto
  next
    case Nil
    with None assms obtain d where "debounce (the_watcher w) = Some d" "d \<le> clock w + debounce_delay"
      by (auto simp: watch_defs)
    with None watch_own.fired [of ?w d] show ?thesis by auto
  qed
qed

lemma resting_fields: "resting w \<Longrightarrow> watch_inv w \<Longrightarrow> reading w = None \<and> fs_queue w = [] \<and> debounce (the_watcher w) = None"
  using due_soon [of w] by (fastforce simp: resting_def)

lemma resting_reflects:
  assumes "watch_inv w" "resting w"
  shows "reflects (store w) (disk w)"
  using resting_fields [OF assms(2,1)] assms(1) by (auto simp: watch_defs)

lemma not_resting_due:
  assumes "watch_inv w" "\<not> resting w"
  shows "\<exists>v. watch_own (w\<lparr>clock := clock w + debounce_delay\<rparr>) v"
proof -
  obtain t v where "watch_own (w\<lparr>clock := t\<rparr>) v" using assms(2) by (auto simp: resting_def)
  then consider "reading w \<noteq> None \<or> fs_queue w \<noteq> [] \<or> debounce (the_watcher w) \<noteq> None" | "reading w = None" "hup w"
    by (auto elim!: watch_ownE)
  then show ?thesis
  proof cases
    case 1
    with due_soon [OF assms(1)] show ?thesis .
  next
    case 2
    with watch_own.hangup [of "w\<lparr>clock := clock w + debounce_delay\<rparr>"] show ?thesis by auto
  qed
qed

lemma quiet_run_rests: "watch_inv w \<Longrightarrow> \<exists>n w'. quiet_run n w w' \<and> resting w'"
proof -
  have "\<exists>n w'. quiet_run n w w' \<and> resting w'" if "quiet_run m w v" "watch_inv w" for m v
    using that
  proof (induction v arbitrary: m rule: measure_induct_rule [where f = watch_work])
    case (less v)
    have inv: "watch_inv v" by (rule quiet_run_inv [OF less.prems])
    show ?case
    proof (cases "resting v")
      case False
      let ?v = "v\<lparr>clock := clock v + debounce_delay\<rparr>"
      obtain u where u: "watch_own ?v u" using not_resting_due [OF inv False] by blast
      have "watch_inv ?v" using inv watch_env_inv watch_env.tick by fastforce
      with watch_own_work [OF u] have "watch_work u < watch_work v" by (simp add: watch_inv_def) (simp add: watch_work_def)
      moreover have "quiet_run (Suc m) w u" by (rule quiet_run.act [OF quiet_run.wait [OF less.prems(1)] u]) simp
      ultimately show ?thesis using less.IH less.prems(2) by blast
    qed (use less.prems in blast)
  qed
  then show "watch_inv w \<Longrightarrow> ?thesis" using quiet_run.start by blast
qed

subsection \<open>Properties\<close>

text \<open>
  A reload replaces the whole set of file tokens when the file is well formed and keeps the old one,
  remembering the error, when it is not; inline tokens win and never change.
\<close>

lemma reload_outcome:
  assumes "tokens_path s \<noteq> []"
  shows "token_lookup k (snd (reload now f s)) =
      (case inline_tokens s k of
         Some v \<Rightarrow> Some v
       | None \<Rightarrow> (case file_map f of Some m \<Rightarrow> m k | None \<Rightarrow> file_tokens s k))
    \<and> (fst (reload now f s) = None \<longleftrightarrow> file_map f \<noteq> None)
    \<and> snd (snd (token_snapshot (snd (reload now f s)))) = fst (reload now f s)"
  using assms
  by (auto simp: token_lookup_def token_snapshot_def reload_def file_map_def split: option.splits sum.splits)

text \<open>
  C10. No change of the tokens file that is reported is missed. From every state that changes, events, signals
  and reloads can lead to, once nothing more happens outside: the watcher takes at most three steps for
  each queued event and five more; until it has come to rest a step is due 150 ms later at the latest; and when
  it rests, the store shows the file as it is.
\<close>

theorem watcher_catches_up:
  assumes "reaches init_watch watch_step w" "quiet_run n w w'"
  shows "n \<le> 3 * length (fs_queue w) + 5 \<and> disk w' = disk w \<and>
    (if resting w' then reflects (store w') (disk w)
     else \<exists>v. watch_own (w'\<lparr>clock := clock w' + debounce_delay\<rparr>) v)"
proof -
  have inv: "watch_inv w" by (rule watching.inv_reaches [OF assms(1)])
  have "watch_work w \<le> 3 * length (fs_queue w) + 5" by (simp add: watch_work_def split: option.split)
  with quiet_run_work [OF assms(2) inv] have "n \<le> 3 * length (fs_queue w) + 5" by linarith
  moreover note inv' = quiet_run_inv [OF assms(2) inv]
  ultimately show ?thesis
    using resting_reflects [OF inv'] not_resting_due [OF inv'] quiet_run_disk [OF assms(2)] by auto
qed

text \<open>
  C36. A token that was in the file when the router started is never revoked nor rebound: \<open>LoadConfig\<close>
  merges the file into the map that the store keeps as inline tokens, so later reloads cannot reach it.
\<close>

theorem startup_token_never_revoked:
  assumes "read_tokens_file f env_tokens = Inr merged" "read_tokens_file f Map.empty = Inr m" "m k = Some v"
  shows "token_lookup k (fold (\<lambda>(now, g) s. snd (reload now g s)) reloads (new_token_store now0 f0 merged path)) = Some v"
proof -
  have "merged k = Some v" using assms by (auto simp: read_tokens_file_def split: sum.splits)
  moreover have "inline_tokens (fold (\<lambda>(now, g) s. snd (reload now g s)) reloads s) = inline_tokens s" for s
    by (induction reloads arbitrary: s) auto
  ultimately show ?thesis by (intro token_lookup_inline) (simp add: new_token_store_def Let_def)
qed

text \<open>
  What the dashboard lists for a token is what authentication uses, except exactly when the
  token is bound both inline and in the file, to different services.
\<close>

lemma listing_agrees_iff:
  "all_tokens s k = token_lookup k s \<longleftrightarrow>
   \<not> (\<exists>a b. inline_tokens s k = Some a \<and> file_tokens s k = Some b \<and> a \<noteq> b)"
  by (auto simp: all_tokens_def token_lookup_def map_add_def split: option.splits)

subsection \<open>A concrete store\<close>

definition demo_store :: token_store where
  "demo_store = \<lparr>inline_tokens = [''a'' \<mapsto> ''foo''], file_tokens = [''b'' \<mapsto> ''bar''], tokens_path = ''t.json'',
     last_reload = None, last_err = None\<rparr>"

text \<open>The file \<open>{"b":" Qux"}\<close>.\<close>

definition demo_file :: file_result where
  "demo_file = Inr (json_object [(''b'', '' Qux'')])"

lemma demo_file_map: "read_tokens_file demo_file m = Inr (m(''b'' \<mapsto> ''qux''))"
proof -
  have "unmarshal_map (json_object [(''b'', '' Qux'')]) = Inr [''b'' \<mapsto> '' Qux'']"
    by (subst unmarshal_map_object) (simp_all add: code_def)
  moreover have "clean_service '' Qux'' = ''qux''" by code_simp
  ultimately show ?thesis by (auto simp: read_tokens_file_def demo_file_def map_add_def fun_eq_iff)
qed

lemma reload_outcome_example:
  "token_lookup ''b'' (snd (reload 5 demo_file demo_store)) = Some ''qux'' \<and>
   token_lookup ''b'' (snd (reload 5 (Inl ''gone'') demo_store)) = Some ''bar''"
proof -
  have d: "tokens_path demo_store \<noteq> []" "inline_tokens demo_store ''b'' = None" "file_tokens demo_store ''b'' = Some ''bar''"
    by (simp_all add: demo_store_def)
  have f: "file_map demo_file = Some [''b'' \<mapsto> ''qux'']" "file_map (Inl ''gone'') = None"
    by (simp_all add: file_map_def demo_file_map) (simp add: read_tokens_file_def)
  show ?thesis
    using reload_outcome [OF d(1), of "''b''" 5 demo_file] reload_outcome [OF d(1), of "''b''" 5 "Inl ''gone''"]
    by (simp only: d f option.case fun_upd_same simp_thms)
qed

theorem startup_token_never_revoked_witness:
  "token_lookup ''b'' (fold (\<lambda>(now, g) s. snd (reload now g s)) [(7, Inr (json_object []))]
     (new_token_store 0 demo_file [''b'' \<mapsto> ''qux''] ''t.json'')) = Some ''qux''"
  using startup_token_never_revoked [of demo_file Map.empty "[''b'' \<mapsto> ''qux'']" "[''b'' \<mapsto> ''qux'']" "''b''" "''qux''"]
  by (simp only: demo_file_map fun_upd_same simp_thms)

definition demo_watch :: watch_world where
  "demo_watch = \<lparr>disk = Inl ''gone'', fs_queue = [], hup = False, the_watcher = new_watcher, reading = None,
     store = demo_store\<lparr>last_err := Some (ReadError ''gone'')\<rparr>, clock = 0\<rparr>"

theorem watcher_catches_up_witness:
  "\<exists>n w'. quiet_run n (demo_watch\<lparr>disk := demo_file, fs_queue := [[FsWrite]]\<rparr>) w' \<and> n \<le> 8 \<and> resting w' \<and>
     reflects (store w') demo_file"
proof -
  let ?w = "demo_watch\<lparr>disk := demo_file, fs_queue := [[FsWrite]]\<rparr>"
  have "init_watch demo_watch"
    by (simp add: init_watch_def demo_watch_def reflects_def file_map_def read_tokens_file_def demo_store_def)
  moreover have "watch_step demo_watch (demo_watch\<lparr>disk := demo_file, fs_queue := fs_queue demo_watch @ [[FsWrite]]\<rparr>)"
    by (rule watch_step.env, rule watch_env.change) (simp add: relevant_def)
  ultimately have r: "reaches init_watch watch_step ?w" by (auto simp: demo_watch_def intro: reaches.intros)
  obtain n w' where n: "quiet_run n ?w w'" "resting w'" using quiet_run_rests [OF watching.inv_reaches [OF r]] by blast
  from watcher_catches_up [OF r n(1)] n show ?thesis by auto
qed

end
