(* ===== verification/Config.thy ===== *)
theory Config
  imports Tokens
begin

text \<open>
  The configuration (\<open>server/config.go\<close>): what \<open>LoadConfig\<close> makes of the environment and the tokens
  file, every rejection included. The environment is a map from names to values (an empty value
  is a value, as for \<open>os.LookupEnv\<close>).
\<close>

subsection \<open>Reading variables\<close>

type_synonym environment = "string \<rightharpoonup> string"

definition env :: "environment \<Rightarrow> string \<Rightarrow> string \<Rightarrow> string" where
  "env e key def = (case e key of Some v \<Rightarrow> v | None \<Rightarrow> def)"

definition env_bool :: "environment \<Rightarrow> string \<Rightarrow> bool \<Rightarrow> bool" where
  "env_bool e key def =
     (case e key of
        None \<Rightarrow> def
      | Some v \<Rightarrow>
          if v = [] then def
          else (let w = to_lower (trim_space v)
                in if w \<in> set [''1'', ''true'', ''yes'', ''on''] then True
                   else if w \<in> set [''0'', ''false'', ''no'', ''off''] then False
                   else def))"

definition split_csv :: "string \<Rightarrow> string list" where
  "split_csv s = (if s = [] then [] else filter (\<lambda>p. p \<noteq> []) (map trim_space (split_byte s CHR '','')))"

text \<open>
  \<open>time.ParseDuration\<close>: a sign, then numbers with units; amounts beyond 64 bits are errors. A
  fraction counts whole nanoseconds (the library multiplies in \<open>float64\<close>; both agree on
  fractions no finer than the nanosecond).
\<close>

definition unit_of :: "string \<Rightarrow> nat option" where
  "unit_of u =
     map_of [(''ns'', 1), (''us'', 1000),
             ([CHR 0xC2, CHR 0xB5, CHR ''s''], 1000), ([CHR 0xCE, CHR 0xBC, CHR ''s''], 1000), (''ms'', 1000000), (''s'', 1000000000), (''m'', 60 * 1000000000),
             (''h'', 3600 * 1000000000)] u"

definition dur_cap :: nat where
  "dur_cap = 9223372036854775808"

function parse_amounts :: "string \<Rightarrow> nat \<Rightarrow> nat option" where
  "parse_amounts [] d = Some d"
| "parse_amounts (c # s) d =
     (let whole = takeWhile is_digit (c # s);
          r1 = dropWhile is_digit (c # s);
          dot = (r1 \<noteq> [] \<and> hd r1 = CHR ''.'');
          frac = (if dot then takeWhile is_digit (tl r1) else []);
          r2 = (if dot then dropWhile is_digit (tl r1) else r1);
          is_unit = (\<lambda>x. x \<noteq> CHR ''.'' \<and> \<not> is_digit x);
          u = takeWhile is_unit r2;
          r3 = dropWhile is_unit r2
      in if whole = [] \<and> frac = [] \<or> u = [] then None
         else (case (parse_digits whole 0, unit_of u, parse_digits frac 0) of
                 (Some v, Some unit, Some f) \<Rightarrow>
                   (let x = v * unit + f * unit div 10 ^ length frac
                    in if dur_cap < v \<or> dur_cap < x \<or> dur_cap < d + x then None
                       else parse_amounts r3 (d + x))
               | _ \<Rightarrow> None))"
  by pat_completeness auto
termination
proof (relation "measure (length \<circ> fst)", goal_cases)
  case 1
  then show ?case by simp
next
  case (2 c s d whole r1 dot frac r2 is_unit u r3)
  have "length r2 \<le> length (c # s)"
    using 2(2,3,5) length_dropWhile_le [of is_digit "tl r1"] length_dropWhile_le [of is_digit "c # s"]
    by (cases r1) (auto split: if_splits)
  moreover have "length r3 < length r2"
    using 2(6,7,8,9) by (metis (no_types, lifting) add_less_cancel_right gr0I length_0_conv length_append
        less_add_same_cancel2 takeWhile_dropWhile_id)
  ultimately show ?case by simp
qed

definition parse_duration :: "string \<Rightarrow> duration option" where
  "parse_duration s =
     (let neg = has_prefix s ''-'';
          body = (if neg \<or> has_prefix s ''+'' then drop 1 s else s)
      in if body = ''0'' then Some 0
         else if body = [] then None
         else (case parse_amounts body 0 of
                 None \<Rightarrow> None
               | Some d \<Rightarrow> if neg then Some (- int d) else if dur_cap \<le> d then None else Some (int d)))"

definition env_duration :: "environment \<Rightarrow> string \<Rightarrow> duration \<Rightarrow> duration" where
  "env_duration e key def =
     (case e key of
        None \<Rightarrow> def
      | Some v \<Rightarrow> if v = [] then def else (case parse_duration v of None \<Rightarrow> def | Some d \<Rightarrow> d))"

subsection \<open>The configuration\<close>

definition tls_off :: string where "tls_off = ''off''"
definition tls_file :: string where "tls_file = ''file''"
definition tls_autocert :: string where "tls_autocert = ''autocert''"
definition tls_dns :: string where "tls_dns = ''dns''"

record tls_config =
  tls_mode :: string
  cert_file :: string
  key_file :: string
  autocert_domains :: "string list"
  autocert_email :: string
  autocert_cache :: string
  dns_provider :: string
  dns_email :: string
  dns_cache :: string
  dns_managed_hosts :: "string list"
  dns_staging :: bool
  digitalocean_token :: string

record config =
  public_addr :: string
  public_tls_addr :: string
  control_addr :: string
  base_domain :: string
  reconnect_grace :: duration
  cfg_tokens :: "string \<rightharpoonup> string"
  tokens_file :: string
  admin_user :: string
  admin_pass :: string
  https_redirect :: bool
  cfg_tls :: tls_config

datatype config_error =
    BaseDomainRequired
  | BadPair string
  | TokensFileError token_file_error
  | NoTokens
  | CertFilesRequired
  | DnsProviderRequired
  | DnsTokenRequired
  | UnsupportedProvider string
  | UnknownTlsMode string

fun parse_pairs :: "string list \<Rightarrow> (string \<rightharpoonup> string) \<Rightarrow> config_error + (string \<rightharpoonup> string)" where
  "parse_pairs [] m = Inr m"
| "parse_pairs (p # ps) m =
     (let pair = trim_space p
      in if pair = [] then parse_pairs ps m
         else (case index_byte pair CHR '':'' of
                 Some (Suc i) \<Rightarrow>
                   parse_pairs ps (m(take (Suc i) pair \<mapsto> clean_service (drop (Suc (Suc i)) pair)))
               | _ \<Rightarrow> Inl (BadPair pair)))"

definition env_config :: "environment \<Rightarrow> config" where
  "env_config e =
     \<lparr>public_addr = env e ''AXR_PUBLIC_ADDR'' '':80'',
      public_tls_addr = env e ''AXR_PUBLIC_TLS_ADDR'' [],
      control_addr = env e ''AXR_CONTROL_ADDR'' '':7000'',
      base_domain = to_lower (env e ''AXR_BASE_DOMAIN'' []),
      reconnect_grace = env_duration e ''AXR_RECONNECT_GRACE'' (3 * second),
      cfg_tokens = Map.empty,
      tokens_file = env e ''AXR_TOKENS_FILE'' [],
      admin_user = env e ''AXR_ADMIN_USER'' [],
      admin_pass = env e ''AXR_ADMIN_PASS'' [],
      https_redirect = env_bool e ''AXR_HTTPS_REDIRECT'' False,
      cfg_tls =
        \<lparr>tls_mode = to_lower (env e ''AXR_TLS_MODE'' ''off''),
         cert_file = env e ''AXR_TLS_CERT_FILE'' [],
         key_file = env e ''AXR_TLS_KEY_FILE'' [],
         autocert_domains = split_csv (env e ''AXR_TLS_AUTOCERT_DOMAINS'' []),
         autocert_email = env e ''AXR_TLS_AUTOCERT_EMAIL'' [],
         autocert_cache = env e ''AXR_TLS_AUTOCERT_CACHE'' ''./autocert-cache'',
         dns_provider = to_lower (env e ''AXR_DNS_PROVIDER'' []),
         dns_email = env e ''AXR_ACME_EMAIL'' [],
         dns_cache = env e ''AXR_ACME_CACHE'' ''./acme-cache'',
         dns_managed_hosts = split_csv (env e ''AXR_ACME_DOMAINS'' []),
         dns_staging = env_bool e ''AXR_ACME_STAGING'' False,
         digitalocean_token = env e ''DIGITALOCEAN_TOKEN'' (env e ''DO_AUTH_TOKEN'' [])\<rparr>\<rparr>"

definition load_tokens :: "environment \<Rightarrow> file_result \<Rightarrow> config \<Rightarrow> config_error + config" where
  "load_tokens e f c =
     (let inline = env e ''AXR_TOKENS'' []
      in bind_err (if inline \<noteq> [] then parse_pairs (split_byte inline CHR '','') (cfg_tokens c) else Inr (cfg_tokens c))
        (\<lambda>m. bind_err
          (if tokens_file c \<noteq> []
           then (case read_tokens_file f m of Inl x \<Rightarrow> Inl (TokensFileError x) | Inr m' \<Rightarrow> Inr m')
           else Inr m)
        (\<lambda>m. if dom m = {} then Inl NoTokens else Inr (c\<lparr>cfg_tokens := m\<rparr>))))"

definition check_tls :: "config \<Rightarrow> config_error + config" where
  "check_tls c =
     (let t = cfg_tls c
      in if tls_mode t = [] \<or> tls_mode t = tls_off then Inr (c\<lparr>cfg_tls := t\<lparr>tls_mode := tls_off\<rparr>\<rparr>)
         else if tls_mode t = tls_file then
           (if cert_file t = [] \<or> key_file t = [] then Inl CertFilesRequired else Inr c)
         else if tls_mode t = tls_autocert then Inr c
         else if tls_mode t = tls_dns then
           (if dns_provider t = [] then Inl DnsProviderRequired
            else if dns_provider t = ''digitalocean'' then
              (if digitalocean_token t = [] then Inl DnsTokenRequired else Inr c)
            else Inl (UnsupportedProvider (dns_provider t)))
         else Inl (UnknownTlsMode (tls_mode t)))"

definition load_config :: "environment \<Rightarrow> file_result \<Rightarrow> config_error + config" where
  "load_config e f =
     (let c = env_config e
      in if base_domain c = [] then Inl BaseDomainRequired
         else bind_err (load_tokens e f c) check_tls)"

subsection \<open>Lists of tokens\<close>

definition token_char :: "char \<Rightarrow> bool" where
  "token_char c \<longleftrightarrow> \<not> is_space c \<and> c \<noteq> CHR '':'' \<and> c \<noteq> CHR '',''"

text \<open>A token and a service that can be written in \<open>AXR_TOKENS\<close> without being changed.\<close>

definition plain_pair :: "string \<times> string \<Rightarrow> bool" where
  "plain_pair p \<longleftrightarrow> fst p \<noteq> [] \<and> list_all token_char (fst p @ snd p) \<and> to_lower (snd p) = snd p"

definition render_pair :: "string \<times> string \<Rightarrow> string" where
  "render_pair p = fst p @ CHR '':'' # snd p"

lemma plain_pair_parse:
  assumes "plain_pair p"
  shows "parse_pairs (render_pair p # ps) m = parse_pairs ps (m(fst p \<mapsto> snd p))" "CHR '','' \<notin> set (render_pair p)"
proof -
  obtain t s where p: "p = (t, s)" by (cases p)
  have colon: "\<not> is_space CHR '':''" by (simp add: is_space_def code_def)
  have chars: "\<forall>c \<in> set t \<union> set s. token_char c" and low: "to_lower s = s" and ne: "t \<noteq> []"
    using assms by (auto simp: plain_pair_def p list_all_iff)
  have r: "render_pair p = t @ CHR '':'' # s" by (simp add: render_pair_def p)
  have "\<forall>c \<in> set (t @ CHR '':'' # s). \<not> is_space c" using chars colon by (auto simp: token_char_def)
  then have "trim_space (render_pair p) = render_pair p" unfolding r by (rule trim_space_id)
  moreover have "\<forall>c \<in> set s. \<not> is_space c" using chars by (auto simp: token_char_def)
  then have "clean_service s = s" using low by (simp add: clean_service_def trim_space_id)
  moreover have colons: "CHR '':'' \<notin> set t" using chars by (auto simp: token_char_def)
  moreover obtain n where n: "length t = Suc n" using ne by (cases t) auto
  have "take (Suc n) (t @ CHR '':'' # s) = t" "drop (Suc (Suc n)) (t @ CHR '':'' # s) = s"
    unfolding n [symmetric] by simp_all
  moreover have "index_byte (t @ CHR '':'' # s) CHR '':'' = Some (Suc n)" using colons n by simp
  ultimately show "parse_pairs (render_pair p # ps) m = parse_pairs ps (m(fst p \<mapsto> snd p))"
    unfolding parse_pairs.simps(2) Let_def r by (simp add: p)
  show "CHR '','' \<notin> set (render_pair p)" using chars by (auto simp: r token_char_def)
qed

lemma parse_rendered:
  "list_all plain_pair ps \<Longrightarrow> parse_pairs (map render_pair ps) m = Inr (m ++ map_of (rev ps))"
proof (induction ps arbitrary: m)
  case (Cons p ps)
  have "m(fst p \<mapsto> snd p) ++ map_of (rev ps) = m ++ map_of (rev (p # ps))"
    by (simp add: map_of_append map_add_assoc)
  with Cons show ?case by (simp add: plain_pair_parse(1) del: parse_pairs.simps)
qed simp

lemma same_tokens [simp]: "c\<lparr>cfg_tokens := cfg_tokens c\<rparr> = c"
  by (cases c) simp

subsection \<open>Properties\<close>

text \<open>
  C22. What \<open>LoadConfig\<close> returns is complete: a lower-case base domain, at least one token, and a TLS
  mode that is one of the four with all that it needs.
\<close>

theorem loaded_config_complete:
  assumes "load_config e f = Inr c"
  shows "base_domain c \<noteq> [] \<and> to_lower (base_domain c) = base_domain c \<and> dom (cfg_tokens c) \<noteq> {} \<and>
     (let t = cfg_tls c
      in tls_mode t \<in> {tls_off, tls_file, tls_autocert, tls_dns} \<and>
         (tls_mode t = tls_file \<longrightarrow> cert_file t \<noteq> [] \<and> key_file t \<noteq> []) \<and>
         (tls_mode t = tls_dns \<longrightarrow> dns_provider t = ''digitalocean'' \<and> digitalocean_token t \<noteq> []))"
proof -
  obtain c1 where c1: "load_tokens e f (env_config e) = Inr c1" "check_tls c1 = Inr c" "base_domain (env_config e) \<noteq> []"
    using assms by (auto simp: load_config_def Let_def bind_err_Inr_iff split: if_splits)
  define m where "m = cfg_tokens c1"
  have m: "c1 = (env_config e)\<lparr>cfg_tokens := m\<rparr>" "dom m \<noteq> {}"
    using c1(1) unfolding m_def by (auto simp: load_tokens_def Let_def bind_err_Inr_iff split: if_splits)
  have "base_domain c = base_domain (env_config e)" "cfg_tokens c = m"
    using c1(2) m(1) by (auto simp: check_tls_def Let_def split: if_splits)
  moreover have "to_lower (base_domain (env_config e)) = base_domain (env_config e)"
    by (simp add: env_config_def)
  moreover have "let t = cfg_tls c
      in tls_mode t \<in> {tls_off, tls_file, tls_autocert, tls_dns} \<and>
         (tls_mode t = tls_file \<longrightarrow> cert_file t \<noteq> [] \<and> key_file t \<noteq> []) \<and>
         (tls_mode t = tls_dns \<longrightarrow> dns_provider t = ''digitalocean'' \<and> digitalocean_token t \<noteq> [])"
    using c1(2)
    by (auto simp: check_tls_def Let_def tls_off_def tls_file_def tls_autocert_def tls_dns_def split: if_splits)
  ultimately show ?thesis using c1(3) m(2) by simp
qed

text \<open>
  C23. The list format of \<open>AXR_TOKENS\<close> round-trips: a comma-separated list of \<open>token:service\<close> pairs
  loads as exactly those bindings, later pairs winning; with a tokens file, its bindings win
  over the list.
\<close>

theorem inline_tokens_roundtrip:
  assumes "ps \<noteq> []" "list_all plain_pair ps"
    and "e ''AXR_TOKENS'' = Some (join_byte CHR '','' (map render_pair ps))"
    and "tokens_file c = [] \<and> g = Map.empty \<or> tokens_file c \<noteq> [] \<and> file_map f = Some g"
  shows "load_tokens e f (c\<lparr>cfg_tokens := Map.empty\<rparr>) =
    Inr (c\<lparr>cfg_tokens := map_of (rev ps) ++ g\<rparr>)"
proof -
  let ?m = "map_of (rev ps)"
  have split: "split_byte (join_byte CHR '','' (map render_pair ps)) CHR '','' = map render_pair ps"
    using assms(1,2) by (intro split_join_byte) (auto simp: plain_pair_parse(2) list_all_iff)
  have "render_pair (hd ps) \<noteq> []" by (simp add: render_pair_def)
  then have ne: "join_byte CHR '','' (map render_pair ps) \<noteq> []"
    using split assms(1) by (metis list.map_disc_iff list.map_sel(1) split_byte.simps(1) list.sel(1))
  have "?m (fst (hd ps)) \<noteq> None" using assms(1) by (simp add: map_of_eq_None_iff)
  then have "fst (hd ps) \<in> dom (?m ++ g)" by auto
  then have dom: "dom (?m ++ g) \<noteq> {}" by (rule_tac notI, simp only: empty_iff)
  have "(case read_tokens_file f ?m of Inl x \<Rightarrow> Inl (TokensFileError x) | Inr m' \<Rightarrow> Inr m') = Inr (?m ++ g)"
    if "file_map f = Some g"
    using that by (auto simp: file_map_def read_tokens_file_def split: sum.splits)
  with assms(3,4) dom ne show ?thesis
    by (auto simp: load_tokens_def Let_def env_def split parse_rendered [OF assms(2)])
qed

subsection \<open>A concrete environment\<close>

definition demo_env :: environment where
  "demo_env = [''AXR_BASE_DOMAIN'' \<mapsto> ''Router.com'', ''AXR_TOKENS'' \<mapsto> ''a:foo,b:*'', ''AXR_TLS_MODE'' \<mapsto> ''Autocert'']"

lemma demo_pairs: "list_all plain_pair [(''a'', ''foo''), (''b'', ''*'')]"
  by (simp add: plain_pair_def token_char_def is_space_def code_def ascii_lower_def is_upper_def)

lemma demo_join: "join_byte CHR '','' (map render_pair [(''a'', ''foo''), (''b'', ''*'')]) = ''a:foo,b:*''"
  by (simp add: render_pair_def)

theorem inline_tokens_roundtrip_witness:
  "load_tokens demo_env (Inl ''gone'') ((env_config demo_env)\<lparr>cfg_tokens := Map.empty\<rparr>) =
   Inr ((env_config demo_env)\<lparr>cfg_tokens := [''a'' \<mapsto> ''foo'', ''b'' \<mapsto> ''*'']\<rparr>)"
proof -
  have "demo_env ''AXR_TOKENS'' = Some (join_byte CHR '','' (map render_pair [(''a'', ''foo''), (''b'', ''*'')]))"
    unfolding demo_join by (simp add: demo_env_def)
  moreover have "tokens_file (env_config demo_env) = []" by (simp add: env_config_def env_def demo_env_def)
  ultimately show ?thesis
    using inline_tokens_roundtrip [OF _ demo_pairs, of demo_env "env_config demo_env" Map.empty "Inl ''gone''"]
    by simp
qed

lemma demo_fields:
  "tls_mode (cfg_tls (env_config demo_env)) = ''autocert''" "base_domain (env_config demo_env) = ''router.com''"
  "tokens_file (env_config demo_env) = []" "cfg_tokens (env_config demo_env) = Map.empty"
  by (simp_all add: env_config_def env_def demo_env_def to_lower_def) code_simp+

lemma demo_load:
  "load_config demo_env (Inl ''gone'') = Inr ((env_config demo_env)\<lparr>cfg_tokens := [''a'' \<mapsto> ''foo'', ''b'' \<mapsto> ''*'']\<rparr>)"
proof -
  have "parse_pairs (split_byte ''a:foo,b:*'' CHR '','') Map.empty = Inr [''a'' \<mapsto> ''foo'', ''b'' \<mapsto> ''*'']"
    using parse_rendered [OF demo_pairs, of Map.empty] by (simp add: render_pair_def)
  with demo_fields show ?thesis
    by (simp add: load_config_def load_tokens_def check_tls_def Let_def env_def demo_env_def
        tls_off_def tls_file_def tls_autocert_def tls_dns_def)
qed

theorem loaded_config_complete_witness:
  "\<exists>c. load_config demo_env (Inl ''gone'') = Inr c \<and> base_domain c \<noteq> [] \<and> dom (cfg_tokens c) \<noteq> {}"
  using loaded_config_complete [OF demo_load] demo_load by blast

end
