(* ===== verification/Certs.thy ===== *)
theory Certs
  imports Routing Registry Config
begin

text \<open>
  Certificates: the issuer that tracks one ACME request per host (\<open>server/cert_warmup.go\<close>), the TLS
  modes and the autocert host policy (\<open>server/tls.go\<close>) and the DNS-01 manager
  (\<open>server/acme_dns.go\<close>). The ACME libraries themselves are arguments: what they answer for a host.
\<close>

subsection \<open>The issuer\<close>

datatype issuance_status = IssuanceUnknown | IssuancePending | IssuanceReady | IssuanceError

record issuance_state =
  is_host :: string
  is_status :: issuance_status
  started_ms :: int
  done_ms :: int
  elapsed_ms :: int
  is_error :: string

text \<open>
  A host maps to an object that \<open>run\<close> still holds when it stores the outcome, so the objects have
  addresses. A started \<open>run\<close> is a pair of a host and the address it will write to.
\<close>

record cert_issuer =
  ci_states :: "string \<rightharpoonup> nat"
  ci_objects :: "nat \<Rightarrow> issuance_state"
  ci_next :: nat
  ci_running :: "(string \<times> nat) list"

definition clean_host :: "string \<Rightarrow> string" where
  "clean_host host = to_lower (trim_suffix host ''.'')"

definition blank_state :: "string \<Rightarrow> issuance_state" where
  "blank_state host = \<lparr>is_host = host, is_status = IssuanceUnknown, started_ms = 0, done_ms = 0, elapsed_ms = 0, is_error = []\<rparr>"

definition new_cert_issuer :: "bool \<Rightarrow> bool \<Rightarrow> cert_issuer option" where
  "new_cert_issuer autocert dns =
     (if \<not> autocert \<and> \<not> dns then None
      else Some \<lparr>ci_states = Map.empty, ci_objects = (\<lambda>_. blank_state []), ci_next = 0, ci_running = []\<rparr>)"

definition settled :: "string \<Rightarrow> cert_issuer \<Rightarrow> bool" where
  "settled h c \<longleftrightarrow>
     (case ci_states c h of
        None \<Rightarrow> False
      | Some p \<Rightarrow> is_status (ci_objects c p) = IssuancePending \<or> is_status (ci_objects c p) = IssuanceReady)"

definition issue :: "nat \<Rightarrow> string \<Rightarrow> cert_issuer \<Rightarrow> cert_issuer" where
  "issue now host c =
     (let h = clean_host host
      in if settled h c then c
         else (let p = ci_next c;
                   s = (blank_state h)\<lparr>is_status := IssuancePending, started_ms := int (unix_milli now)\<rparr>
               in c\<lparr>ci_objects := (ci_objects c)(p := s), ci_states := (ci_states c)(h \<mapsto> p),
                    ci_next := p + 1, ci_running := ci_running c @ [(h, p)]\<rparr>))"

text \<open>The end of \<open>run\<close>: the outcome of \<open>issueFn\<close> is stored under the lock.\<close>

definition run_done :: "nat \<Rightarrow> string \<times> nat \<Rightarrow> string option \<Rightarrow> cert_issuer \<Rightarrow> cert_issuer" where
  "run_done now r err c =
     (let p = snd r;
          s = ci_objects c p;
          s1 = (case err of
                  Some e \<Rightarrow> s\<lparr>is_status := IssuanceError, is_error := e\<rparr>
                | None \<Rightarrow> s\<lparr>is_status := IssuanceReady\<rparr>)
      in c\<lparr>ci_objects := (ci_objects c)(p := s1\<lparr>done_ms := int (unix_milli now)\<rparr>),
           ci_running := remove1 r (ci_running c)\<rparr>)"

definition default_issue ::
  "(string \<Rightarrow> string option) option \<Rightarrow> (string list \<Rightarrow> string option) option \<Rightarrow> string \<Rightarrow> string option" where
  "default_issue get_certificate manage_sync host =
     (case get_certificate of
        Some get \<Rightarrow> get host
      | None \<Rightarrow>
          (case manage_sync of
             Some manage \<Rightarrow> manage [host]
           | None \<Rightarrow> Some ''no cert manager configured''))"

definition with_elapsed :: "nat \<Rightarrow> issuance_state \<Rightarrow> issuance_state" where
  "with_elapsed now s =
     (if is_status s = IssuancePending then s\<lparr>elapsed_ms := int (unix_milli now) - started_ms s\<rparr>
      else if done_ms s > 0 then s\<lparr>elapsed_ms := done_ms s - started_ms s\<rparr>
      else s)"

definition cert_status :: "nat \<Rightarrow> string \<Rightarrow> cert_issuer \<Rightarrow> issuance_state" where
  "cert_status now host c =
     (case ci_states c (clean_host host) of
        None \<Rightarrow> blank_state (clean_host host)
      | Some p \<Rightarrow> with_elapsed now (ci_objects c p))"

definition cert_snapshot_all :: "nat \<Rightarrow> cert_issuer \<Rightarrow> (string \<rightharpoonup> issuance_state)" where
  "cert_snapshot_all now c = (\<lambda>h. map_option (\<lambda>p. with_elapsed now (ci_objects c p)) (ci_states c h))"

subsection \<open>The issuing page\<close>

record issuing_page =
  pg_host :: string
  pg_elapsed_secs :: int
  pg_errored :: bool
  pg_error :: string

text \<open>The page and its status code, \<open>None\<close> when the request is not intercepted.\<close>

definition render_issuing_page :: "nat \<Rightarrow> string \<Rightarrow> cert_issuer \<Rightarrow> (issuing_page \<times> nat) option" where
  "render_issuing_page now host c =
     (let s = cert_status now host c
      in case is_status s of
           IssuancePending \<Rightarrow>
             Some (\<lparr>pg_host = host, pg_elapsed_secs = sgn (elapsed_ms s) * (\<bar>elapsed_ms s\<bar> div 1000),
                    pg_errored = False, pg_error = []\<rparr>, 503)
         | IssuanceError \<Rightarrow>
             Some (\<lparr>pg_host = host, pg_elapsed_secs = 0, pg_errored = True, pg_error = is_error s\<rparr>, 503)
         | _ \<Rightarrow> None)"

subsection \<open>TLS modes\<close>

datatype policy_error = HostNotAllowed | ServiceNotRegistered

definition autocert_host_policy :: "config \<Rightarrow> registry \<Rightarrow> string \<Rightarrow> policy_error option" where
  "autocert_host_policy c reg name =
     (let base = to_lower (base_domain c);
          suffix = ''.'' @ base;
          allow = map to_lower (autocert_domains (cfg_tls c)) @ [base, ''www.'' @ base];
          host = clean_host name
      in if host \<in> set allow then None
         else if \<not> has_suffix host suffix then Some HostNotAllowed
         else (let inner = take (length host - length suffix) host
               in if \<not> service_name_ok inner then Some HostNotAllowed
                  else if \<not> has_service inner reg then Some ServiceNotRegistered
                  else None))"

definition build_libdns_provider :: "config \<Rightarrow> string + string" where
  "build_libdns_provider c =
     (if to_lower (dns_provider (cfg_tls c)) = ''digitalocean'' then Inr (digitalocean_token (cfg_tls c))
      else Inl (''unsupported DNS provider '' @ dns_provider (cfg_tls c)))"

text \<open>
  The directory of the issuer, and the configuration with which certmagic's cache renews a certificate: the
  callback given to the cache makes a default one, not the one that obtained the certificate.
\<close>

datatype acme_ca = LetsEncryptProduction | LetsEncryptStaging

datatype renewal = RenewAsObtained | RenewWithDefaults

record dns_acme =
  da_token :: string
  da_storage :: string
  da_ca :: acme_ca
  da_email :: string
  da_renewal :: renewal
  da_base :: string
  da_managed :: "string list"
  da_started :: bool

definition new_dns_acme :: "config \<Rightarrow> string + dns_acme" where
  "new_dns_acme c =
     bind_err (build_libdns_provider c)
       (\<lambda>t. Inr \<lparr>da_token = t, da_storage = dns_cache (cfg_tls c),
                 da_ca = (if dns_staging (cfg_tls c) then LetsEncryptStaging else LetsEncryptProduction),
                 da_email = dns_email (cfg_tls c), da_renewal = RenewWithDefaults, da_base = to_lower (base_domain c),
                 da_managed = dns_managed_hosts (cfg_tls c), da_started = False\<rparr>)"

definition dns_decision :: "dns_acme \<Rightarrow> string \<Rightarrow> bool" where
  "dns_decision d name =
     (let n = to_lower name in n = da_base d \<or> has_suffix n (''.'' @ da_base d))"

text \<open>The hosts handed to \<open>ManageAsync\<close> (none when it is not called) and its error.\<close>

definition dns_start :: "(string list \<Rightarrow> string option) \<Rightarrow> dns_acme \<Rightarrow> string list \<times> string option \<times> dns_acme" where
  "dns_start manage_async d =
     (if da_started d then ([], None, d)
      else (let d1 = d\<lparr>da_started := True\<rparr>
            in if da_managed d = [] then ([], None, d1) else (da_managed d, manage_async (da_managed d), d1)))"

datatype tls_setup = TlsNone | TlsKeyPair | TlsAutocert | TlsDns dns_acme

definition build_tls :: "(string \<Rightarrow> string \<Rightarrow> string option) \<Rightarrow> config \<Rightarrow> string + tls_setup" where
  "build_tls load_key_pair c =
     (let t = cfg_tls c
      in if tls_mode t = tls_off \<or> tls_mode t = [] then Inr TlsNone
         else if tls_mode t = tls_file then
           (case load_key_pair (cert_file t) (key_file t) of
              Some e \<Rightarrow> Inl (''load cert/key: '' @ e)
            | None \<Rightarrow> Inr TlsKeyPair)
         else if tls_mode t = tls_autocert then Inr TlsAutocert
         else if tls_mode t = tls_dns then bind_err (new_dns_acme c) (\<lambda>d. Inr (TlsDns d))
         else Inl (''unknown TLS mode '' @ tls_mode t))"

subsection \<open>The issuer as a state machine\<close>

inductive cert_step :: "cert_issuer \<Rightarrow> cert_issuer \<Rightarrow> bool" where
  step_issue: "cert_step c (issue now host c)"
| step_done: "r \<in> set (ci_running c) \<Longrightarrow> cert_step c (run_done now r err c)"

definition fresh_issuer :: "cert_issuer \<Rightarrow> bool" where
  "fresh_issuer c \<longleftrightarrow> new_cert_issuer True False = Some c"

text \<open>A \<open>run\<close> in progress is the one run of its host, and exactly the pending hosts have one.\<close>

definition cert_inv :: "cert_issuer \<Rightarrow> bool" where
  "cert_inv c \<longleftrightarrow>
     distinct (map snd (ci_running c)) \<and>
     (\<forall>(h, p) \<in> set (ci_running c). ci_states c h = Some p) \<and>
     (\<forall>h p. ci_states c h = Some p \<longrightarrow>
        p < ci_next c \<and> is_host (ci_objects c p) = h \<and> is_status (ci_objects c p) \<noteq> IssuanceUnknown \<and>
        (is_status (ci_objects c p) = IssuancePending \<longleftrightarrow> (h, p) \<in> set (ci_running c)))"

lemma cert_inv_start: "fresh_issuer c \<Longrightarrow> cert_inv c"
  by (auto simp: fresh_issuer_def new_cert_issuer_def cert_inv_def)

lemma cert_inv_next: "cert_inv c \<Longrightarrow> (h, p) \<in> set (ci_running c) \<Longrightarrow> p < ci_next c \<and> ci_states c h = Some p"
  by (auto simp: cert_inv_def)

lemma cert_inv_state:
  "cert_inv c \<Longrightarrow> ci_states c h = Some p \<Longrightarrow>
   p < ci_next c \<and> is_host (ci_objects c p) = h \<and> is_status (ci_objects c p) \<noteq> IssuanceUnknown \<and>
   (is_status (ci_objects c p) = IssuancePending \<longleftrightarrow> (h, p) \<in> set (ci_running c))"
  by (simp add: cert_inv_def)

lemma cert_invI:
  assumes "distinct (map snd (ci_running c))"
    and "\<And>h p. (h, p) \<in> set (ci_running c) \<Longrightarrow> ci_states c h = Some p"
    and "\<And>h p. ci_states c h = Some p \<Longrightarrow>
       p < ci_next c \<and> is_host (ci_objects c p) = h \<and> is_status (ci_objects c p) \<noteq> IssuanceUnknown \<and>
       (is_status (ci_objects c p) = IssuancePending \<longleftrightarrow> (h, p) \<in> set (ci_running c))"
  shows "cert_inv c"
  using assms by (auto simp: cert_inv_def)

lemma cert_inv_issue:
  assumes inv: "cert_inv c"
  shows "cert_inv (issue now host c)"
proof (cases "settled (clean_host host) c")
  case True
  with inv show ?thesis by (simp add: issue_def)
next
  case False
  let ?h = "clean_host host" and ?p = "ci_next c"
  have idle: "(?h, q) \<notin> set (ci_running c)" for q
  proof
    assume "(?h, q) \<in> set (ci_running c)"
    with inv have "ci_states c ?h = Some q" "is_status (ci_objects c q) = IssuancePending"
      by (auto simp: cert_inv_def)
    with False show False by (simp add: settled_def)
  qed
  have "distinct (map snd (ci_running c @ [(?h, ?p)]))"
    using inv by (auto simp: cert_inv_def dest: cert_inv_next [OF inv])
  moreover have "\<forall>(h, p) \<in> set (ci_running c @ [(?h, ?p)]). ((ci_states c)(?h \<mapsto> ?p)) h = Some p"
    using idle by (auto dest: cert_inv_next [OF inv])
  moreover have "(h, ?p) \<notin> set (ci_running c)" for h by (auto dest: cert_inv_next [OF inv])
  ultimately show ?thesis
    using inv False idle
    by (auto simp: issue_def Let_def cert_inv_def blank_state_def less_Suc_eq)
qed

lemma cert_inv_done:
  assumes inv: "cert_inv c" and r: "r \<in> set (ci_running c)"
  shows "cert_inv (run_done now r err c)"
proof -
  obtain h p where hp: "r = (h, p)" by (cases r)
  have d: "distinct (ci_running c)" using inv by (simp add: cert_inv_def distinct_map)
  then have sub: "set (remove1 r (ci_running c)) = set (ci_running c) - {r}" by (rule set_remove1_eq)
  have dist: "distinct (map snd (remove1 r (ci_running c)))"
    using inv unfolding cert_inv_def by (metis distinct_map inj_on_subset set_remove1_subset distinct_remove1)
  have here: "ci_states c h = Some p" using cert_inv_next [OF inv] r hp by blast
  let ?c = "run_done now r err c"
  have f: "ci_states ?c = ci_states c" "ci_next ?c = ci_next c" "ci_running ?c = remove1 r (ci_running c)"
    by (simp_all add: run_done_def Let_def)
  have o: "is_host (ci_objects ?c x) = is_host (ci_objects c x)"
    "is_status (ci_objects ?c x) = (if x = p then if err = None then IssuanceReady else IssuanceError
                                   else is_status (ci_objects c x))" for x
    by (auto simp: run_done_def Let_def hp split: option.split)
  show ?thesis
  proof (rule cert_invI, unfold f o)
    fix h' p'
    assume "ci_states c h' = Some p'"
    note st = cert_inv_state [OF inv this]
    show "p' < ci_next c \<and> is_host (ci_objects c p') = h' \<and>
       (if p' = p then if err = None then IssuanceReady else IssuanceError else is_status (ci_objects c p')) \<noteq> IssuanceUnknown \<and>
       ((if p' = p then if err = None then IssuanceReady else IssuanceError else is_status (ci_objects c p')) = IssuancePending
         \<longleftrightarrow> (h', p') \<in> set (remove1 r (ci_running c)))"
    proof (cases "p' = p")
      case True
      with st cert_inv_state [OF inv here] have "h' = h" by simp
      with st True show ?thesis using sub [unfolded hp] by (simp add: hp)
    next
      case False
      with st show ?thesis using sub [unfolded hp] by (simp add: hp)
    qed
  qed (use dist sub cert_inv_next [OF inv] in auto)
qed

interpretation certs: invariant_system fresh_issuer cert_step cert_inv
  by unfold_locales (auto elim!: cert_step.cases intro: cert_inv_start cert_inv_issue cert_inv_done)

inductive_cases cert_stepE: "cert_step c c'"

lemma ready_stays_step:
  assumes "cert_inv c" "cert_step c c'" "ci_states c h = Some p" "is_status (ci_objects c p) = IssuanceReady"
  shows "ci_states c' h = Some p \<and> is_status (ci_objects c' p) = IssuanceReady"
  using assms(2)
proof (rule cert_stepE)
  fix now host
  assume "c' = issue now host c"
  moreover have "p < ci_next c" using assms(1,3) by (auto simp: cert_inv_def)
  moreover have "settled h c" using assms(3,4) by (simp add: settled_def)
  ultimately show ?thesis using assms(3,4) by (auto simp: issue_def Let_def)
next
  fix r now err
  assume c': "c' = run_done now r err c" and r: "r \<in> set (ci_running c)"
  have "snd r \<noteq> p"
  proof
    assume "snd r = p"
    with r have "(fst r, p) \<in> set (ci_running c)" by (metis prod.collapse)
    with assms(1) have "ci_states c (fst r) = Some p" "is_status (ci_objects c p) = IssuancePending"
      by (auto simp: cert_inv_def)
    with assms(4) show False by simp
  qed
  with c' assms(3,4) show ?thesis by (simp add: run_done_def Let_def)
qed

subsection \<open>Hosts the policy accepts\<close>

lemma clean_host_suffix:
  assumes "has_suffix h s"
  shows "h = take (length h - length s) h @ s"
  using assms by (auto simp: has_suffix_iff)

lemma autocert_policy_iff:
  "autocert_host_policy c reg name = None \<longleftrightarrow>
   clean_host name \<in> to_lower ` set (autocert_domains (cfg_tls c)) \<or>
   clean_host name = to_lower (base_domain c) \<or> clean_host name = ''www.'' @ to_lower (base_domain c) \<or>
   (\<exists>svc. clean_host name = svc @ ''.'' @ to_lower (base_domain c) \<and> service_name_ok svc \<and> has_service svc reg)"
    (is "?l \<longleftrightarrow> ?a \<or> ?b \<or> ?c \<or> ?d")
proof (cases "?a \<or> ?b \<or> ?c")
  case True
  then have ?l by (auto simp: autocert_host_policy_def Let_def)
  with True show ?thesis by blast
next
  case False
  show ?thesis
  proof (cases "has_suffix (clean_host name) (''.'' @ to_lower (base_domain c))")
    case True
    then obtain inner where "clean_host name = inner @ ''.'' @ to_lower (base_domain c)" by (auto simp: has_suffix_iff)
    with False True show ?thesis by (auto simp: autocert_host_policy_def Let_def)
  next
    case no: False
    then have "\<not> ?d" by (auto simp: has_suffix_iff)
    with False no show ?thesis by (auto simp: autocert_host_policy_def Let_def)
  qed
qed

subsection \<open>Properties\<close>

text \<open>
  C15. One issuance per host. However \<open>Issue\<close> calls and completions interleave, a host has at most one
  ACME request in flight, it has one exactly when its state is pending (so no host stays
  pending with nothing working on it), and every state is filed under its own host.
\<close>

theorem one_issuance_per_host:
  assumes "reaches fresh_issuer cert_step c"
  shows "((h, p) \<in> set (ci_running c) \<and> (h, q) \<in> set (ci_running c) \<longrightarrow> p = q) \<and>
    (is_status (cert_status now h c) = IssuancePending \<longleftrightarrow> (\<exists>p. (clean_host h, p) \<in> set (ci_running c))) \<and>
    is_host (cert_status now h c) = clean_host h"
proof -
  have inv: "cert_inv c" by (rule certs.inv_reaches [OF assms])
  have "p = q" if "(h, p) \<in> set (ci_running c)" "(h, q) \<in> set (ci_running c)"
    using cert_inv_next [OF inv that(1)] cert_inv_next [OF inv that(2)] by simp
  moreover have "is_status (cert_status now h c) = IssuancePending \<longleftrightarrow> (\<exists>p. (clean_host h, p) \<in> set (ci_running c))"
  proof (cases "ci_states c (clean_host h)")
    case None
    have "(clean_host h, p) \<notin> set (ci_running c)" for p
      using cert_inv_next [OF inv, of "clean_host h" p] None by auto
    with None show ?thesis by (simp add: cert_status_def blank_state_def)
  next
    case (Some p)
    have one: "q = p" if "(clean_host h, q) \<in> set (ci_running c)" for q
      using cert_inv_next [OF inv that] Some by simp
    have "is_status (cert_status now h c) = is_status (ci_objects c p)"
      by (simp add: cert_status_def Some with_elapsed_def)
    then show ?thesis using cert_inv_state [OF inv Some] one by metis
  qed
  moreover have "is_host (cert_status now h c) = clean_host h"
    using cert_inv_state [OF inv] by (auto simp: cert_status_def with_elapsed_def blank_state_def split: option.split)
  ultimately show ?thesis by blast
qed

text \<open>
  C38. A ready certificate is final: no later \<open>Issue\<close>, completion or failure of another host takes a host
  out of the ready state, and its requests are never intercepted again.
\<close>

theorem ready_is_final:
  assumes "reaches fresh_issuer cert_step c" "cert_step\<^sup>*\<^sup>* c c'" "is_status (cert_status now h c) = IssuanceReady"
  shows "is_status (cert_status now' h c') = IssuanceReady \<and> render_issuing_page now' h c' = None \<and> issue now' h c' = c'"
proof -
  let ?h = "clean_host h"
  obtain p where p: "ci_states c ?h = Some p" "is_status (ci_objects c p) = IssuanceReady"
    using assms(3) by (auto simp: cert_status_def blank_state_def with_elapsed_def split: option.splits if_splits)
  from assms(2) have "cert_inv c' \<and> ci_states c' ?h = Some p \<and> is_status (ci_objects c' p) = IssuanceReady"
  proof (induction rule: rtranclp_induct)
    case base
    with p certs.inv_reaches [OF assms(1)] show ?case by simp
  next
    case (step y z)
    with ready_stays_step [of y z ?h p] certs.inv_step [of y z] show ?case by blast
  qed
  then show ?thesis
    by (simp add: cert_status_def with_elapsed_def render_issuing_page_def issue_def settled_def)
qed

text \<open>
  C20. The autocert policy accepts exactly: the listed domains, the apex, \<open>www\<close>, and \<open><service>.<base>\<close> for
  a well-formed service name that has been registered at some time.
\<close>

theorem host_policy_accepts:
  "autocert_host_policy c reg name = None \<longleftrightarrow>
   clean_host name \<in> to_lower ` set (autocert_domains (cfg_tls c)) \<or>
   clean_host name = to_lower (base_domain c) \<or> clean_host name = ''www.'' @ to_lower (base_domain c) \<or>
   (\<exists>svc. clean_host name = svc @ ''.'' @ to_lower (base_domain c) \<and> service_name_ok svc \<and> has_service svc reg)"
  by (rule autocert_policy_iff)

text \<open>
  With a configuration that \<open>LoadConfig\<close> accepted, the TLS setup fails only when the key pair of
  mode \<open>file\<close> cannot be loaded, and it produces the manager of the configured mode.
\<close>

lemma loaded_config_builds_tls:
  assumes "load_config e f = Inr c"
  shows "case build_tls load_pair c of
      Inl _ \<Rightarrow> tls_mode (cfg_tls c) = tls_file \<and> load_pair (cert_file (cfg_tls c)) (key_file (cfg_tls c)) \<noteq> None
    | Inr TlsNone \<Rightarrow> tls_mode (cfg_tls c) = tls_off
    | Inr TlsKeyPair \<Rightarrow> tls_mode (cfg_tls c) = tls_file
    | Inr TlsAutocert \<Rightarrow> tls_mode (cfg_tls c) = tls_autocert
    | Inr (TlsDns d) \<Rightarrow> tls_mode (cfg_tls c) = tls_dns \<and> da_token d \<noteq> [] \<and> da_base d = base_domain c"
proof -
  let ?t = "cfg_tls c"
  obtain c1 where c1: "load_tokens e f (env_config e) = Inr c1" "check_tls c1 = Inr c"
    using assms by (auto simp: load_config_def Let_def bind_err_Inr_iff split: if_splits)
  then have "to_lower (base_domain c1) = base_domain c1"
    by (auto simp: load_tokens_def Let_def bind_err_Inr_iff env_config_def split: if_splits)
  with c1(2) consider "tls_mode ?t = tls_off" | "tls_mode ?t = tls_file" | "tls_mode ?t = tls_autocert"
    | (dns) "tls_mode ?t = tls_dns" "dns_provider ?t = ''digitalocean''" "digitalocean_token ?t \<noteq> []"
        "to_lower (base_domain c) = base_domain c"
    by (auto simp: check_tls_def Let_def split: if_splits)
  then show ?thesis
  proof cases
    case dns
    moreover have "to_lower ''digitalocean'' = ''digitalocean''" by code_simp
    ultimately show ?thesis
      by (simp add: build_tls_def new_dns_acme_def build_libdns_provider_def Let_def tls_off_def tls_file_def
          tls_autocert_def tls_dns_def)
  qed (auto simp: build_tls_def Let_def tls_off_def tls_file_def tls_autocert_def tls_dns_def split: option.split)
qed

subsection \<open>Concrete issuances\<close>

definition demo_issuer :: cert_issuer where
  "demo_issuer = the (new_cert_issuer True False)"

lemma demo_fresh: "fresh_issuer demo_issuer"
  by (simp add: fresh_issuer_def demo_issuer_def new_cert_issuer_def)

lemma demo_reaches: "reaches fresh_issuer cert_step (issue 0 ''foo.r.com'' demo_issuer)"
  using demo_fresh by (blast intro: reaches.intros step_issue)

lemma demo_clean: "clean_host ''foo.r.com'' = ''foo.r.com''"
  by code_simp

lemma demo_running: "ci_running (issue 0 ''foo.r.com'' demo_issuer) = [(''foo.r.com'', 0)]"
  unfolding issue_def demo_clean by (simp add: settled_def demo_issuer_def new_cert_issuer_def Let_def)

theorem one_issuance_per_host_witness:
  "is_status (cert_status 9 ''foo.r.com'' (issue 0 ''foo.r.com'' demo_issuer)) = IssuancePending"
  using one_issuance_per_host [OF demo_reaches, of "''foo.r.com''" 0 0 9]
  unfolding demo_running demo_clean by simp

theorem ready_is_final_witness:
  "let c = run_done 5 (''foo.r.com'', 0) None (issue 0 ''foo.r.com'' demo_issuer)
   in is_status (cert_status 9 ''foo.r.com'' (issue 7 ''bar.r.com'' c)) = IssuanceReady"
proof -
  let ?c = "run_done 5 (''foo.r.com'', 0) None (issue 0 ''foo.r.com'' demo_issuer)"
  have "cert_step (issue 0 ''foo.r.com'' demo_issuer) ?c" by (rule step_done) (simp add: demo_running)
  with demo_reaches have r: "reaches fresh_issuer cert_step ?c" by (rule reaches_step)
  have s: "cert_step\<^sup>*\<^sup>* ?c (issue 7 ''bar.r.com'' ?c)" by (rule r_into_rtranclp) (rule step_issue)
  have "is_status (cert_status 6 ''foo.r.com'' ?c) = IssuanceReady"
    unfolding cert_status_def demo_clean issue_def run_done_def
    by (simp add: settled_def demo_issuer_def new_cert_issuer_def with_elapsed_def Let_def)
  from ready_is_final [OF r s this, of 9] show ?thesis by simp
qed

lemma loaded_config_builds_tls_example:
  "\<exists>c. load_config demo_env (Inl ''gone'') = Inr c \<and>
    (case build_tls (\<lambda>_ _. None) c of Inl _ \<Rightarrow> False | Inr s \<Rightarrow> s = TlsAutocert)"
proof -
  let ?c = "(env_config demo_env)\<lparr>cfg_tokens := [''a'' \<mapsto> ''foo'', ''b'' \<mapsto> ''*'']\<rparr>"
  have "tls_mode (cfg_tls ?c) = ''autocert''" by (simp add: demo_fields)
  then have "case build_tls (\<lambda>_ _. None) ?c of Inl _ \<Rightarrow> False | Inr s \<Rightarrow> s = TlsAutocert"
    using loaded_config_builds_tls [OF demo_load, of "\<lambda>_ _. None"]
    by (simp add: tls_off_def tls_file_def tls_dns_def split: sum.splits tls_setup.splits)
  with demo_load show ?thesis by blast
qed

end
