(* ===== verification/Control.thy ===== *)
theory Control
  imports Handshake Certs
begin

text \<open>
  The control port (\<open>handleControl\<close> and \<open>runControl\<close> of \<open>server/server.go\<close>): a connection is read, its token
  looked up, the service name decided, the answer written, and the session registered; every early
  return is an outcome of its own.
\<close>

subsection \<open>Deciding the service\<close>

definition service_pattern :: string where
  "service_pattern = ''^[a-z0-9][a-z0-9-]{0,30}$''"

definition refuse :: "byte \<Rightarrow> string \<Rightarrow> (byte \<times> ack) + 'a" where
  "refuse status msg = Inl (status, \<lparr>ack_service = [], ack_error = msg\<rparr>)"

definition choose_service :: "string \<Rightarrow> hello \<Rightarrow> (byte \<times> ack) + string" where
  "choose_service bound h =
     (if bound = ''*''
      then (let service = to_lower (trim_space (hello_service h))
            in if \<not> service_name_ok service
               then refuse status_bad_request
                      (''wildcard token requires a valid 'service' name in Hello (regex: '' @ service_pattern @ '')'')
               else Inr service)
      else if hello_service h \<noteq> [] \<and> \<not> equal_fold (hello_service h) bound
           then refuse status_bad_request (''token is bound to service '' @ bound)
           else Inr bound)"

definition authorize :: "token_store \<Rightarrow> hello \<Rightarrow> (byte \<times> ack) + string" where
  "authorize tokens h =
     (case token_lookup (hello_token h) tokens of
        None \<Rightarrow> refuse status_bad_auth ''invalid token''
      | Some bound \<Rightarrow> choose_service bound h)"

subsection \<open>One connection\<close>

datatype control_outcome =
    BadHandshake handshake_error
  | Refused byte ack
  | AckNotSent handshake_error
  | MuxFailed string
  | Serving string

record control_state =
  cs_reader :: reader
  cs_writer :: writer
  cs_registry :: registry
  cs_certs :: "cert_issuer option"

definition add_session :: "nat \<Rightarrow> session \<Rightarrow> registry \<Rightarrow> registry" where
  "add_session sid s r = r\<lparr>objs := (objs r)(sid \<mapsto> s)\<rparr>"

text \<open>
  \<open>sid\<close> is the address of the session object if one is made, \<open>mux\<close> the error of \<open>yamux.Client\<close>
  if it fails, \<open>peer\<close> the remote address.
\<close>

definition handle_control ::
  "nat \<Rightarrow> config \<Rightarrow> token_store \<Rightarrow> nat \<Rightarrow> string option \<Rightarrow> string \<Rightarrow> control_state \<Rightarrow> control_outcome \<times> control_state" where
  "handle_control now c tokens sid mux peer st =
     (case read_hello (cs_reader st) of
        (Inl e, rd) \<Rightarrow> (BadHandshake e, st\<lparr>cs_reader := rd\<rparr>)
      | (Inr h, rd) \<Rightarrow>
          (let st1 = st\<lparr>cs_reader := rd\<rparr>
           in case authorize tokens h of
                Inl (status, a) \<Rightarrow> (Refused status a, st1\<lparr>cs_writer := snd (write_ack status a (cs_writer st1))\<rparr>)
              | Inr service \<Rightarrow>
                  (case write_ack status_ok \<lparr>ack_service = service, ack_error = []\<rparr> (cs_writer st1) of
                     (Some e, w) \<Rightarrow> (AckNotSent e, st1\<lparr>cs_writer := w\<rparr>)
                   | (None, w) \<Rightarrow>
                       (let st2 = st1\<lparr>cs_writer := w\<rparr>
                        in case mux of
                             Some e \<Rightarrow> (MuxFailed e, st2)
                           | None \<Rightarrow>
                               (Serving service,
                                st2\<lparr>cs_registry := register now sid (add_session sid (new_session service (hello_token h) peer)
                                                                        (cs_registry st2)),
                                    cs_certs := map_option (issue now (service @ ''.'' @ to_lower (base_domain c))) (cs_certs st2)\<rparr>)))))"

text \<open>The end of a served connection.\<close>

definition control_closed :: "nat \<Rightarrow> nat \<Rightarrow> registry \<Rightarrow> registry" where
  "control_closed now sid r = unregister now sid r"

text \<open>The accept loop: a closed listener or a cancelled context ends it without an error.\<close>

datatype accept_result = Accepted | AcceptClosed | AcceptError string

fun run_control :: "bool \<Rightarrow> accept_result list \<Rightarrow> nat \<times> string option" where
  "run_control cancelled [] = (0, None)"
| "run_control cancelled (Accepted # rs) = apfst Suc (run_control cancelled rs)"
| "run_control cancelled (AcceptClosed # rs) = (0, None)"
| "run_control cancelled (AcceptError e # rs) = (0, if cancelled then None else Some e)"

subsection \<open>Lemmas\<close>

lemma authorize_cases:
  assumes "authorize tokens h = Inr service"
  obtains bound where "token_lookup (hello_token h) tokens = Some bound" "choose_service bound h = Inr service"
  using assms by (auto simp: authorize_def refuse_def split: option.splits)

lemma choose_service_Inr:
  "choose_service bound h = Inr service \<longleftrightarrow>
   (if bound = ''*'' then service = to_lower (trim_space (hello_service h)) \<and> service_name_ok service
    else service = bound \<and> (hello_service h = [] \<or> equal_fold (hello_service h) bound))"
  by (auto simp: choose_service_def refuse_def Let_def)

lemma handle_control_serving:
  assumes "handle_control now c tokens sid mux peer st = (Serving service, st')"
  obtains h rd where "read_hello (cs_reader st) = (Inr h, rd)" "authorize tokens h = Inr service"
    "write_ack status_ok \<lparr>ack_service = service, ack_error = []\<rparr> (cs_writer st) = (None, cs_writer st')"
    "mux = None"
    "cs_registry st' = register now sid (add_session sid (new_session service (hello_token h) peer) (cs_registry st))"
    "cs_certs st' = map_option (issue now (service @ ''.'' @ to_lower (base_domain c))) (cs_certs st)"
  using assms by (auto simp: handle_control_def Let_def split: sum.splits prod.splits option.splits)

lemma add_session_fields [simp]:
  "sessions (add_session sid s r) = sessions r" "last_seen (add_session sid s r) = last_seen r"
  "notifiers (add_session sid s r) = notifiers r" "chans (add_session sid s r) = chans r"
  "panicked (add_session sid s r) = panicked r" "grace (add_session sid s r) = grace r"
  by (simp_all add: add_session_def)

lemma add_session_owner [simp]: "owner (add_session sid s r) = (owner r)(sid \<mapsto> s_service s)"
  by (auto simp: owner_def add_session_def)

lemma add_session_ok:
  "registry_ok r \<Longrightarrow> objs r sid = None \<Longrightarrow> registry_ok (add_session sid s r)"
proof -
  assume ok: "registry_ok r" and new: "objs r sid = None"
  have "sessions r svc \<noteq> Some sid" for svc
  proof
    assume "sessions r svc = Some sid"
    with ok have "owner r sid = Some svc" by (rule directory.find_owned)
    with new show False by (simp add: owner_def)
  qed
  with ok show ?thesis by (auto simp: registry_ok_def slots_ok_def chans_ok_def)
qed

subsection \<open>Properties\<close>

text \<open>
  C7. A connection is served only as its token allows. When \<open>handleControl\<close> registers a service, the hello
  was well formed and carried a known token; a bound token gets exactly its service and only if no other
  one was asked for, a wildcard token gets the requested name, normalised and well formed. The session then
  answers for that service, and no other service changes hands.
\<close>

theorem served_as_authorized:
  assumes "handle_control now c tokens sid mux peer st = (Serving service, st')"
    and "registry_ok (cs_registry st)" "objs (cs_registry st) sid = None"
  shows "\<exists>h bound. fst (read_hello (cs_reader st)) = Inr h \<and> token_lookup (hello_token h) tokens = Some bound \<and>
      (if bound = ''*'' then service = to_lower (trim_space (hello_service h)) \<and> service_name_ok service
       else service = bound \<and> (hello_service h = [] \<or> equal_fold (hello_service h) bound))
    \<and> registry_ok (cs_registry st') \<and> sessions (cs_registry st') = (sessions (cs_registry st))(service \<mapsto> sid)
    \<and> has_service service (cs_registry st')"
proof -
  obtain h rd where h: "read_hello (cs_reader st) = (Inr h, rd)" "authorize tokens h = Inr service"
    and r: "cs_registry st' = register now sid (add_session sid (new_session service (hello_token h) peer) (cs_registry st))"
    using assms(1) by (rule handle_control_serving)
  obtain bound where b: "token_lookup (hello_token h) tokens = Some bound" "choose_service bound h = Inr service"
    using h(2) by (rule authorize_cases)
  let ?r = "add_session sid (new_session service (hello_token h) peer) (cs_registry st)"
  have own: "owner ?r sid = Some service" by (simp add: new_session_def)
  have "registry_ok (cs_registry st')"
    unfolding r by (rule directory.add_inv [OF add_session_ok own]) (use assms(2,3) in simp_all)
  moreover have "sessions (cs_registry st') = (sessions (cs_registry st))(service \<mapsto> sid)"
    unfolding r by (simp add: directory.find_add [OF own])
  ultimately show ?thesis
    using h(1) b by (auto simp: choose_service_Inr has_service_def)
qed

text \<open>
  C24. A refused or broken connection leaves no trace: unless a connection ends up served, the registry and the
  certificate issuer are exactly as before; and a refusal is written for the client with status 1
  for an unknown token and 3 for a service it may not have.
\<close>

theorem refused_leaves_no_trace:
  assumes "handle_control now c tokens sid mux peer st = (out, st')" "\<forall>service. out \<noteq> Serving service"
  shows "cs_registry st' = cs_registry st \<and> cs_certs st' = cs_certs st \<and>
    (\<forall>status a. out = Refused status a \<longrightarrow>
       cs_writer st' = snd (write_ack status a (cs_writer st)) \<and>
       (\<exists>h. fst (read_hello (cs_reader st)) = Inr h \<and>
         (if token_lookup (hello_token h) tokens = None then status = status_bad_auth else status = status_bad_request)))"
  using assms
  by (auto simp: handle_control_def Let_def authorize_def choose_service_def refuse_def
      split: sum.splits prod.splits option.splits if_splits)

text \<open>Sizes of what is written, for the frames that must fit.\<close>

lemma length_escape: "length (escape s) \<le> 6 * length s"
proof (induction s rule: escape.induct)
  case (2 a s)
  have ascii: "length (escape_ascii a) \<le> 6" by (simp add: escape_ascii_def hex4_def)
  let ?n = "rune_len (a # s)"
  show ?case
  proof (cases "code a < 128")
    case True
    with 2 ascii show ?thesis by (simp add: escape.simps(2) [of a s])
  next
    case False
    show ?thesis
    proof (cases "?n = 0")
      case True
      with 2 False show ?thesis by (simp add: escape.simps(2) [of a s] hex4_def del: rune_len.simps)
    next
      case n: False
      have "length (escape (drop (?n - 1) s)) \<le> 6 * length (drop (?n - 1) s)"
        by (rule "2.IH"(3)) (use False n in simp_all)
      moreover have "?n \<le> Suc (length s)" using rune_len_le [of "a # s"] by (simp del: rune_len.simps)
      ultimately have *: "length (escape (drop (?n - 1) s)) + 6 * ?n \<le> 6 * length (a # s)" by simp
      have u: "length (bslash # CHR ''u'' # hex4 k) \<le> max 6 ?n" for k by (simp add: hex4_def le_max_iff_disj)
      have t: "length (take ?n (a # s)) \<le> max 6 ?n" by (simp add: le_max_iff_disj del: rune_len.simps take_Suc_Cons)
      have "128 \<le> code a" using False by simp
      from escape_valid_multi [OF this refl n]
      have "length (escape (a # s)) \<le> max 6 ?n + length (escape (drop (?n - 1) s))"
        using u t by (simp only: length_append add_le_cancel_right split: if_split) blast
      with * n show ?thesis by linarith
    qed
  qed
qed simp

lemma length_service_ack:
  "length (marshal_ack \<lparr>ack_service = s, ack_error = []\<rparr>) \<le> 16 + 6 * length s"
proof -
  have "escape ''service'' = ''service''" by (simp add: escape_letter escape_ascii_def code_def dquote_def bslash_def)
  then show ?thesis
    using length_escape [of s] by (simp add: marshal_ack_def omit_empty_def json_object_def json_string_def)
qed

lemma service_name_ascii: "service_name_ok s \<Longrightarrow> valid_utf8 s"
proof (rule valid_ascii, rule ballI)
  fix x assume "service_name_ok s" "x \<in> set s"
  then have "service_tail_char x" by (rule service_name_ok_chars)
  then show "code x < 128" by (auto simp: service_tail_char_def is_lower_def is_digit_def code_def)
qed

text \<open>
  The whole handshake with a wildcard token: a client whose hello arrives is told status 0 and the normalised
  name of the service it asked for, and what follows on the connection is left for yamux on both sides.
\<close>

lemma wildcard_handshake:
  assumes "hello_valid h" "write_hello h \<lparr>sent = [], room = n, failure = e\<rparr> = (None, w1)"
    and "token_lookup (hello_token h) tokens = Some ''*''"
    and "service_name_ok (clean_service (hello_service h))"
    and "cs_reader st = \<lparr>arriving = sent w1 @ rest, ending = x\<rparr>" "sent (cs_writer st) = []" "300 \<le> room (cs_writer st)"
  shows "\<exists>st'. handle_control now c tokens sid None peer st = (Serving (clean_service (hello_service h)), st') \<and>
      arriving (cs_reader st') = rest \<and>
      read_ack \<lparr>arriving = sent (cs_writer st') @ rest', ending = y\<rparr> =
        (Inr (status_ok, \<lparr>ack_service = clean_service (hello_service h), ack_error = []\<rparr>), \<lparr>arriving = rest', ending = y\<rparr>)"
proof -
  let ?s = "clean_service (hello_service h)"
  let ?a = "\<lparr>ack_service = ?s, ack_error = []\<rparr>"
  obtain f where f: "hello_frame h = Some f" "w1 = \<lparr>sent = f, room = n - length f, failure = e\<rparr>"
    using assms(2) by (cases "hello_frame h") (auto simp: write_hello_frame conn_write_def split: if_splits)
  have rd: "read_hello (cs_reader st) = (Inr h, \<lparr>arriving = rest, ending = x\<rparr>)"
    by (subst hello_wire.whole [OF assms(1) f(1), of _ rest]) (simp_all add: assms(5) f(2))
  have au: "authorize tokens h = Inr ?s"
    using assms(3,4) by (simp add: authorize_def choose_service_Inr clean_service_def)
  have "length (marshal_ack ?a) \<le> 202"
    using length_service_ack [of ?s] service_name_ok_length [OF assms(4)] by simp
  then obtain g where g: "ack_frame (status_ok, ?a) = Some g" "length g \<le> 300"
    by (auto simp: ack_frame_def Let_def max_payload_def magic_def)
  then have wr: "write_ack status_ok ?a (cs_writer st)
      = (None, (cs_writer st)\<lparr>sent := g, room := room (cs_writer st) - length g\<rparr>)"
    using assms(6,7) by (simp add: write_ack_frame conn_write_def)
  have valid: "ack_valid (status_ok, ?a)" using service_name_ascii [OF assms(4)] by (simp add: ack_valid_def)
  have "read_ack \<lparr>arriving = g @ rest', ending = y\<rparr> = (Inr (status_ok, ?a), \<lparr>arriving = rest', ending = y\<rparr>)"
    by (subst ack_wire.whole [OF valid g(1), of _ rest']) simp_all
  then show ?thesis
    by (simp add: handle_control_def rd au wr Let_def)
qed

subsection \<open>A concrete connection\<close>

definition demo_state :: control_state where
  "demo_state =
     \<lparr>cs_reader = \<lparr>arriving = the (hello_frame demo_hello), ending = EOF\<rparr>,
      cs_writer = \<lparr>sent = [], room = 1000, failure = ConnReset\<rparr>,
      cs_registry = new_registry 0, cs_certs = None\<rparr>"

definition wildcard_store :: token_store where
  "wildcard_store = demo_store\<lparr>inline_tokens := [''tk'' \<mapsto> ''*'']\<rparr>"

lemma demo_hello_sent:
  "write_hello demo_hello \<lparr>sent = [], room = 1000, failure = Timeout\<rparr>
   = (None, \<lparr>sent = the (hello_frame demo_hello), room = 963, failure = Timeout\<rparr>)"
  by (simp add: write_hello_frame hello_frame_def Let_def marshal_demo max_payload_def conn_write_def magic_def)

lemma demo_hello_service: "clean_service (hello_service demo_hello) = ''foo''" "hello_token demo_hello = ''tk''"
  by (simp_all add: demo_hello_def) code_simp


lemma demo_fields_hello:
  "cs_reader demo_state = \<lparr>arriving = sent \<lparr>sent = the (hello_frame demo_hello), room = 963, failure = Timeout\<rparr> @ [], ending = EOF\<rparr>"
  "sent (cs_writer demo_state) = []" "300 \<le> room (cs_writer demo_state)"
  "token_lookup (hello_token demo_hello) wildcard_store = Some ''*''"
  "service_name_ok (clean_service (hello_service demo_hello))"
  "registry_ok (cs_registry demo_state)" "objs (cs_registry demo_state) sid = None"
proof -
  have "service_name_ok ''foo''" by code_simp
  then show "service_name_ok (clean_service (hello_service demo_hello))" by (simp only: demo_hello_service)
qed (simp_all add: demo_state_def wildcard_store_def token_lookup_def demo_hello_service demo_store_def new_registry_def
      registry_ok_new [unfolded new_registry_def])

lemma demo_served:
  "\<exists>st'. handle_control 1 (env_config demo_env) wildcard_store 7 None ''peer'' demo_state = (Serving ''foo'', st')"
  using wildcard_handshake [OF demo_valid(1) demo_hello_sent demo_fields_hello(4,5,1,2,3)]
  unfolding demo_hello_service by blast

theorem served_as_authorized_witness:
  "\<exists>st'. handle_control 1 (env_config demo_env) wildcard_store 7 None ''peer'' demo_state = (Serving ''foo'', st') \<and>
      sessions (cs_registry st') ''foo'' = Some 7"
proof -
  obtain st' where st: "handle_control 1 (env_config demo_env) wildcard_store 7 None ''peer'' demo_state = (Serving ''foo'', st')"
    using demo_served by blast
  from served_as_authorized [OF st demo_fields_hello(6,7)] st show ?thesis by auto
qed

theorem refused_leaves_no_trace_witness:
  "\<exists>st'. handle_control 1 (env_config demo_env) demo_store 7 None ''peer'' demo_state =
      (Refused status_bad_auth \<lparr>ack_service = [], ack_error = ''invalid token''\<rparr>, st') \<and>
    cs_registry st' = cs_registry demo_state"
proof -
  obtain f where f: "hello_frame demo_hello = Some f"
    by (simp add: hello_frame_def marshal_demo max_payload_def Let_def)
  have "read_hello (cs_reader demo_state) = (Inr demo_hello, \<lparr>arriving = [], ending = EOF\<rparr>)"
    by (subst hello_wire.whole [OF demo_valid(1) f, of _ "[]"]) (simp_all add: demo_state_def f)
  moreover have "authorize demo_store demo_hello = Inl (status_bad_auth, \<lparr>ack_service = [], ack_error = ''invalid token''\<rparr>)"
    by (simp add: authorize_def token_lookup_def demo_hello_service demo_store_def refuse_def)
  ultimately obtain st' where st: "handle_control 1 (env_config demo_env) demo_store 7 None ''peer'' demo_state =
      (Refused status_bad_auth \<lparr>ack_service = [], ack_error = ''invalid token''\<rparr>, st')"
    by (simp add: handle_control_def Let_def)
  from refused_leaves_no_trace [OF st] st show ?thesis by simp
qed

end
