(* ===== verification/RouterClient.thy ===== *)
theory RouterClient
  imports Handshake
begin

text \<open>
  The long-running client (\<open>client/client.go\<close>): its configuration, one connection to the router with every
  way it can end, and the reconnect loop with its back-off, whose durations are 64-bit integers.
\<close>

subsection \<open>Configuration\<close>

record client_config =
  cc_server_addr :: string
  cc_token :: string
  cc_service :: string
  cc_min :: duration
  cc_max :: duration

datatype client_error = ServerAddrRequired | TokenRequired

definition new_client :: "client_config \<Rightarrow> client_error + client_config" where
  "new_client c =
     (if cc_server_addr c = [] then Inl ServerAddrRequired
      else if cc_token c = [] then Inl TokenRequired
      else (let c1 = (if cc_min c = 0 then c\<lparr>cc_min := 500000000\<rparr> else c)
            in Inr (if cc_max c1 = 0 then c1\<lparr>cc_max := 15 * second\<rparr> else c1)))"

text \<open>\<open>NewHandler\<close> (\<open>client/handler.go\<close>): the handler must not be nil, then the configuration is completed.\<close>

datatype handler_error = HandlerRequired | HandlerConfig client_error

definition new_handler :: "client_config \<Rightarrow> 'h option \<Rightarrow> handler_error + client_config \<times> 'h" where
  "new_handler cfg h =
     (case h of
        None \<Rightarrow> Inl HandlerRequired
      | Some x \<Rightarrow> (case new_client cfg of Inl e \<Rightarrow> Inl (HandlerConfig e) | Inr c \<Rightarrow> Inr (c, x)))"

subsection \<open>One connection\<close>

datatype run_error =
    DialFailed string
  | HelloFailed handshake_error
  | AckFailed handshake_error
  | Rejected byte string
  | MuxFailed string
  | AcceptFailed string
  | Cancelled

text \<open>What the world does to one attempt: the dial, the connection, yamux, and its accepted streams.\<close>

record attempt =
  at_dial :: "string option"
  at_writer :: writer
  at_reader :: reader
  at_mux :: "string option"
  at_streams :: nat \<comment> \<open>streams accepted before the one that fails\<close>
  at_accept :: string
  at_cancelled :: bool \<comment> \<open>the context is done when \<open>Accept\<close> fails\<close>

definition client_hello :: "client_config \<Rightarrow> hello" where
  "client_hello c = \<lparr>hello_token = cc_token c, hello_service = cc_service c, hello_version = []\<rparr>"

text \<open>The error, the bytes sent, and the number of streams handed to the stream handler.\<close>

definition run_once :: "client_config \<Rightarrow> attempt \<Rightarrow> run_error \<times> writer \<times> nat" where
  "run_once c a =
     (case at_dial a of
        Some e \<Rightarrow> (DialFailed e, at_writer a, 0)
      | None \<Rightarrow>
          (case write_hello (client_hello c) (at_writer a) of
             (Some e, w) \<Rightarrow> (HelloFailed e, w, 0)
           | (None, w) \<Rightarrow>
               (case read_ack (at_reader a) of
                  (Inl e, _) \<Rightarrow> (AckFailed e, w, 0)
                | (Inr (status, ack), _) \<Rightarrow>
                    if status \<noteq> status_ok then (Rejected status (ack_error ack), w, 0)
                    else (case at_mux a of
                            Some e \<Rightarrow> (MuxFailed e, w, 0)
                          | None \<Rightarrow>
                              (if at_cancelled a then Cancelled else AcceptFailed (at_accept a), w, at_streams a)))))"

subsection \<open>The reconnect loop\<close>

definition wrap64 :: "int \<Rightarrow> int" where
  "wrap64 x = (x + 2 ^ 63) mod 2 ^ 64 - 2 ^ 63"

definition next_backoff :: "client_config \<Rightarrow> duration \<Rightarrow> duration" where
  "next_backoff c b = (let d = wrap64 (b * 2) in if d > cc_max c then cc_max c else d)"

text \<open>When the context is cancelled during a round of the loop, if it is.\<close>

datatype cancel = BeforeAttempt | DuringAttempt | DuringSleep | NotCancelled

text \<open>
  The loop over a list of rounds, from a given back-off: the sleeps it takes and whether it has returned (it
  returns only the context's error).
\<close>

fun run_loop :: "client_config \<Rightarrow> duration \<Rightarrow> (run_error \<times> cancel) list \<Rightarrow> duration list \<times> bool" where
  "run_loop c backoff [] = ([], False)"
| "run_loop c backoff ((err, cancel) # rounds) =
     (case cancel of
        BeforeAttempt \<Rightarrow> ([], True)
      | DuringAttempt \<Rightarrow> ([], True)
      | DuringSleep \<Rightarrow> ([backoff], True)
      | NotCancelled \<Rightarrow> apfst ((#) backoff) (run_loop c (next_backoff c backoff) rounds))"

definition client_run :: "client_config \<Rightarrow> (run_error \<times> cancel) list \<Rightarrow> duration list \<times> bool" where
  "client_run c rounds = run_loop c (cc_min c) rounds"

subsection \<open>The back-off\<close>

lemma wrap64_id: "- (2 ^ 63) \<le> x \<Longrightarrow> x < 2 ^ 63 \<Longrightarrow> wrap64 x = x"
  by (simp add: wrap64_def)

definition backoff_at :: "client_config \<Rightarrow> nat \<Rightarrow> duration" where
  "backoff_at c k = (next_backoff c ^^ k) (cc_min c)"

lemma backoff_at_Suc: "backoff_at c (Suc k) = next_backoff c (backoff_at c k)"
  by (simp add: backoff_at_def)

lemma backoff_closed:
  assumes "0 < cc_min c" "cc_min c \<le> cc_max c" "cc_max c < 2 ^ 62"
  shows "backoff_at c k = min (cc_max c) (cc_min c * 2 ^ k)"
proof (induction k)
  case 0
  with assms show ?case by (simp add: backoff_at_def)
next
  case (Suc k)
  let ?b = "min (cc_max c) (cc_min c * 2 ^ k)"
  have b: "0 < ?b" "?b < 2 ^ 62" using assms by auto
  then have "wrap64 (?b * 2) = ?b * 2" by (intro wrap64_id) auto
  with Suc have "backoff_at c (Suc k) = min (cc_max c) (?b * 2)"
    by (simp add: backoff_at_Suc next_backoff_def Let_def min_def)
  also have "\<dots> = min (cc_max c) (cc_min c * 2 ^ Suc k)"
    using assms(1,2) by (simp add: min_def)
  finally show ?case .
qed

lemma run_loop_sleeps:
  "\<forall>r \<in> set rounds. snd r = NotCancelled \<Longrightarrow>
   run_loop c b rounds = (map (\<lambda>k. (next_backoff c ^^ k) b) [0..<length rounds], False)"
proof (induction rounds arbitrary: b)
  case (Cons r rounds)
  obtain e where r: "r = (e, NotCancelled)" using Cons.prems by (cases r) auto
  have "map (\<lambda>k. (next_backoff c ^^ k) b) [0..<Suc (length rounds)]
      = b # map (\<lambda>k. (next_backoff c ^^ k) (next_backoff c b)) [0..<length rounds]"
    by (simp add: upt_conv_Cons map_Suc_upt [symmetric] funpow_swap1 del: upt_Suc)
  with Cons r show ?case by simp
qed simp

lemma run_loop_returns: "snd (run_loop c b rounds) \<longleftrightarrow> (\<exists>r \<in> set rounds. snd r \<noteq> NotCancelled)"
  by (induction c b rounds rule: run_loop.induct) (auto split: cancel.splits)

subsection \<open>Properties\<close>

text \<open>
  C30. The back-off: while the context is not cancelled the client goes on forever, and before the \<open>k\<close>-th
  reconnection it sleeps the minimum times \<open>2^k\<close>, capped at the maximum; how the attempts ended makes no
  difference, so a connection that was up for days does not bring the delay back down.
\<close>

theorem backoff_exponential:
  assumes "\<forall>r \<in> set rounds. snd r = NotCancelled"
    and "0 < cc_min c" "cc_min c \<le> cc_max c" "cc_max c < 2 ^ 62"
  shows "client_run c rounds = (map (\<lambda>k. min (cc_max c) (cc_min c * 2 ^ k)) [0..<length rounds], False)"
  using run_loop_sleeps [OF assms(1)] backoff_closed [OF assms(2-4)]
  by (simp add: client_run_def backoff_at_def)

text \<open>
  With the defaults that \<open>newClient\<close> fills in, every sleep lies between half a second and fifteen, and the loop returns
  exactly when the context is cancelled.
\<close>

lemma default_backoff_bounds:
  assumes "new_client c0 = Inr c" "cc_min c0 = 0" "cc_max c0 = 0"
  shows "500000000 \<le> backoff_at c k \<and> backoff_at c k \<le> 15 * second \<and>
    (snd (client_run c rounds) \<longleftrightarrow> (\<exists>r \<in> set rounds. snd r \<noteq> NotCancelled))"
proof -
  have c: "cc_min c = 500000000" "cc_max c = 15000000000"
    using assms by (auto simp: new_client_def Let_def second_def split: if_splits)
  have "(1 :: int) \<le> 2 ^ k" by simp
  then have "(500000000 :: int) \<le> 500000000 * 2 ^ k" by simp
  with backoff_closed [of c k] c run_loop_returns [of c "cc_min c" rounds] show ?thesis
    by (simp add: second_def client_run_def min_def)
qed

text \<open>
  The doubling is not protected against overflow: with a large enough maximum the delay wraps around to a
  negative number and then to zero, and stays there, so the client reconnects without any pause.
\<close>

theorem backoff_overflows:
  assumes "cc_min c = 2 ^ 61" "cc_max c = 2 ^ 63 - 1"
  shows "backoff_at c 2 < 0 \<and> (\<forall>k \<ge> 3. backoff_at c k = 0)"
proof -
  have b1: "backoff_at c 1 = 2 ^ 62"
    using assms by (simp add: backoff_at_def next_backoff_def wrap64_def)
  then have b2: "backoff_at c 2 = - (2 ^ 63)"
    using assms backoff_at_Suc [of c 1] by (simp add: next_backoff_def wrap64_def numeral_2_eq_2)
  then have b3: "backoff_at c 3 = 0"
    using assms backoff_at_Suc [of c 2] by (simp add: next_backoff_def wrap64_def numeral_3_eq_3 numeral_2_eq_2)
  have "backoff_at c (k + 3) = 0" for k
  proof (induction k)
    case (Suc k)
    with backoff_at_Suc [of c "k + 3"] show ?case by (simp add: next_backoff_def wrap64_def assms(2))
  qed (simp add: b3)
  with b2 show ?thesis by (metis add.commute le_Suc_ex neg_less_0_iff_less zero_less_numeral zero_less_power)
qed

text \<open>
  Streams are served only on an accepted connection: a stream reaches the handler only if the hello
  was written whole and the router answered with status 0; a router that answers otherwise is reported with
  its status and message.
\<close>

theorem streams_need_ok:
  assumes "run_once c a = (err, w, n)" "0 < n"
  shows "at_dial a = None \<and> fst (write_hello (client_hello c) (at_writer a)) = None \<and>
    (\<exists>ack. fst (read_ack (at_reader a)) = Inr (status_ok, ack)) \<and> (err = Cancelled \<longleftrightarrow> at_cancelled a)"
  using assms
  by (auto simp: run_once_def split: option.splits prod.splits sum.splits if_splits)

subsection \<open>A concrete client\<close>

definition demo_client :: client_config where
  "demo_client = \<lparr>cc_server_addr = ''r:7000'', cc_token = ''tk'', cc_service = ''foo'', cc_min = 0, cc_max = 0\<rparr>"

definition demo_attempt :: attempt where
  "demo_attempt = \<lparr>at_dial = None, at_writer = \<lparr>sent = [], room = 100, failure = Timeout\<rparr>,
     at_reader = \<lparr>arriving = the (ack_frame (status_ok, demo_ack)), ending = EOF\<rparr>,
     at_mux = None, at_streams = 2, at_accept = ''session shutdown'', at_cancelled = True\<rparr>"

lemma demo_client_defaults:
  "new_client demo_client = Inr (demo_client\<lparr>cc_min := 500000000, cc_max := 15 * second\<rparr>)"
  by (simp add: new_client_def demo_client_def)

theorem backoff_exponential_witness:
  "client_run (demo_client\<lparr>cc_min := 1, cc_max := 5\<rparr>) (replicate 4 (Cancelled, NotCancelled)) = ([1, 2, 4, 5], False)"
  using backoff_exponential [of "replicate 4 (Cancelled, NotCancelled)" "demo_client\<lparr>cc_min := 1, cc_max := 5\<rparr>"]
  by (simp add: upt_conv_Cons numeral_eq_Suc)

lemma default_backoff_bounds_example:
  "backoff_at (demo_client\<lparr>cc_min := 500000000, cc_max := 15 * second\<rparr>) 100 \<le> 15 * second"
  using default_backoff_bounds [OF demo_client_defaults, of 100] by (simp add: demo_client_def)

theorem backoff_overflows_witness:
  "backoff_at (demo_client\<lparr>cc_min := 2 ^ 61, cc_max := 2 ^ 63 - 1\<rparr>) 7 = 0"
  using backoff_overflows [of "demo_client\<lparr>cc_min := 2 ^ 61, cc_max := 2 ^ 63 - 1\<rparr>"] by simp

lemma demo_client_hello: "client_hello demo_client = demo_hello"
  by (simp add: client_hello_def demo_client_def demo_hello_def)

theorem streams_need_ok_witness:
  "\<exists>w. run_once demo_client demo_attempt = (Cancelled, w, 2) \<and> fst (write_hello (client_hello demo_client) (at_writer demo_attempt)) = None"
proof -
  obtain w where w: "write_hello demo_hello (at_writer demo_attempt) = (None, w)"
    by (simp add: write_hello_def Let_def marshal_demo max_payload_def conn_write_def magic_def demo_attempt_def)
  obtain f where f: "ack_frame (status_ok, demo_ack) = Some f"
    by (simp add: ack_frame_def marshal_demo max_payload_def Let_def)
  have a: "read_ack (at_reader demo_attempt) = (Inr (status_ok, demo_ack), \<lparr>arriving = [], ending = EOF\<rparr>)"
    by (subst ack_wire.whole [OF demo_valid(2) f, of _ "[]"]) (simp_all add: demo_attempt_def f)
  have fields: "at_dial demo_attempt = None" "at_mux demo_attempt = None" "at_streams demo_attempt = 2"
    "at_cancelled demo_attempt"
    by (simp_all add: demo_attempt_def)
  have r: "run_once demo_client demo_attempt = (Cancelled, w, 2)"
    by (simp add: run_once_def demo_client_hello w a fields)
  from streams_need_ok [OF r] r show ?thesis by auto
qed

end
