(* ===== verification/Connect.thy ===== *)
theory Connect
  imports Control RouterClient
begin

text \<open>
  The two ends of a control connection together: one attempt of the client (\<open>runOnce\<close> of
  \<open>client/client.go\<close>) against the router that answers it (\<open>handleControl\<close> of \<open>server/server.go\<close>). What one
  side has written is what the other side reads.
\<close>

subsection \<open>Answers that fit\<close>

lemma valid_utf8_ascii_append: "\<forall>c \<in> set a. code c < 128 \<Longrightarrow> valid_utf8 s \<Longrightarrow> valid_utf8 (a @ s)"
  by (induction a) simp_all

lemma length_marshal_ack:
  "length (marshal_ack a) \<le> 29 + 6 * (length (ack_service a) + length (ack_error a))"
proof -
  have e: "escape ''service'' = ''service''" "escape ''error'' = ''error''"
    by (simp_all add: escape_letter escape_ascii_def code_def dquote_def bslash_def)
  show ?thesis
    using length_escape [of "ack_service a"] length_escape [of "ack_error a"] e
    by (cases "ack_service a = []"; cases "ack_error a = []")
      (simp_all add: marshal_ack_def omit_empty_def json_object_def json_string_def)
qed

text \<open>
  What arrives of what one side said: a part of it, if the connection breaks or the reader's time is up, or all of it and
  then what the speaker goes on to say.
\<close>

definition arrives_of :: "bool \<Rightarrow> string \<Rightarrow> string \<Rightarrow> bool" where
  "arrives_of goes_on said got \<longleftrightarrow> (\<exists>k. got = take k said) \<or> goes_on \<and> (\<exists>rest. got = said @ rest)"

text \<open>A frame whose writing may have broken off: the listener has all of it or less.\<close>

lemma frame_arrives:
  assumes "conn_write f w = (err, w')" "sent w = []" "arrives_of goes_on (sent w') got" "goes_on \<Longrightarrow> err = None"
  shows "err = None \<and> sent w' = f \<and> (\<exists>rest. got = f @ rest) \<or>
    (\<exists>k < length f. got = take k f) \<and> (err = None \<longrightarrow> length got < length (sent w'))"
proof (cases "length f \<le> room w")
  case True
  with assms(1,2) have w: "err = None" "sent w' = f" by (auto simp: conn_write_def)
  from assms(3) consider rest where "got = f @ rest" | k where "got = take k f" "k < length f"
    unfolding arrives_of_def w by (metis append_Nil2 linorder_not_less take_all)
  then show ?thesis using w by cases auto
next
  case False
  with assms(1,2) have w: "err \<noteq> None" "sent w' = take (room w) f" by (auto simp: conn_write_def)
  with assms(3,4) obtain k where "got = take k (take (room w) f)" by (auto simp: arrives_of_def)
  with False w(1) show ?thesis by (intro disjI2 conjI exI [of _ "min k (room w)"]) auto
qed

lemma empty_input: "arriving r = [] \<Longrightarrow> \<exists>e. fst (read_hello r) = Inl e \<and> fst (read_ack r) = Inl e"
  by (simp add: read_hello_def read_ack_def read_full_def)

text \<open>The status of an answer is read as it was written whatever its text.\<close>

lemma ack_status_kept:
  assumes "ack_frame (status, a) = Some f" "arriving r = f @ rest"
  shows "(\<exists>a'. fst (read_ack r) = Inr (status, a')) \<or> (\<exists>e. fst (read_ack r) = Inl e)"
proof -
  let ?b = "marshal_ack a"
  let ?n = "word_of_nat (length ?b) :: 16 word"
  obtain x y where xy: "put_u16 ?n = [x, y]" "get_u16 x y = ?n" using put_u16_cases by blast
  from assms(1) have f: "f = magic @ [byte_char handshake_version, byte_char status, x, y] @ ?b"
    using xy by (auto simp: ack_frame_def Let_def split: if_splits)
  have "read_full 8 r = (Inr (magic @ [byte_char handshake_version, byte_char status, x, y]), r\<lparr>arriving := ?b @ rest\<rparr>)"
    by (rule read_full_ok) (simp_all add: assms(2) f magic_def)
  then show ?thesis
    by (auto simp: read_ack_def Let_def magic_def xy(2) byte_char_inverse split: sum.splits prod.splits)
qed

lemma ack_heard:
  assumes "write_ack status a w = (err, w')" "sent w = []" "arrives_of goes_on (sent w') (arriving r)" "goes_on \<longrightarrow> err = None"
  shows "(\<exists>a'. fst (read_ack r) = Inr (status, a') \<and> err = None \<and> (ack_valid (status, a) \<longrightarrow> a' = a)) \<or>
    (\<exists>e. fst (read_ack r) = Inl e \<and> (ack_valid (status, a) \<and> err = None \<longrightarrow> length (arriving r) < length (sent w')))"
proof (cases "ack_frame (status, a)")
  case None
  with assms have "err = Some TooLarge" "arriving r = []" by (auto simp: write_ack_frame arrives_of_def)
  with empty_input [of r] show ?thesis by auto
next
  case (Some f)
  with assms(1) obtain e where e: "conn_write f w = (e, w')" "err = map_option IoError e"
    by (cases "conn_write f w") (auto simp: write_ack_frame)
  from frame_arrives [OF e(1) assms(2,3)] assms(4) e(2) consider
      (whole) rest where "err = None" "arriving r = f @ rest"
    | (broken) k where "arriving r = take k f" "k < length f" "err = None \<longrightarrow> length (arriving r) < length (sent w')"
    by auto
  then show ?thesis
  proof cases
    case whole
    show ?thesis
    proof (cases "ack_valid (status, a)")
      case True
      from ack_wire.whole [OF True Some whole(2)] whole(1) show ?thesis by simp
    next
      case False
      with ack_status_kept [OF Some whole(2)] whole(1) show ?thesis by blast
    qed
  next
    case broken
    with ack_wire.cut [OF Some broken(1,2)] show ?thesis by auto
  qed
qed

lemma hello_heard:
  assumes "hello_valid h" "write_hello h w = (err, w')" "sent w = []" "arrives_of (err = None) (sent w') (arriving r)"
  shows "err = None \<and> fst (read_hello r) = Inr h \<or>
    (\<exists>e. fst (read_hello r) = Inl e) \<and> (err = None \<longrightarrow> length (arriving r) < length (sent w'))"
proof (cases "hello_frame h")
  case None
  with assms have "err = Some TooLarge" "arriving r = []" by (auto simp: write_hello_frame arrives_of_def)
  with empty_input [of r] show ?thesis by auto
next
  case (Some f)
  with assms(2) obtain e where e: "conn_write f w = (e, w')" "err = map_option IoError e"
    by (cases "conn_write f w") (auto simp: write_hello_frame)
  from frame_arrives [OF e(1) assms(3,4)] e(2) consider
      (whole) rest where "err = None" "arriving r = f @ rest"
    | (broken) k where "arriving r = take k f" "k < length f" "err = None \<longrightarrow> length (arriving r) < length (sent w')"
    by auto
  then show ?thesis
  proof cases
    case whole
    from hello_wire.whole [OF assms(1) Some whole(2)] whole(1) show ?thesis by simp
  next
    case broken
    with hello_wire.cut [OF Some broken(1,2)] show ?thesis by auto
  qed
qed

lemma ack_goes_out:
  assumes "length (marshal_ack a) \<le> max_payload" "max_payload + 8 \<le> room w"
  shows "fst (write_ack status a w) = None"
proof -
  obtain g where "ack_frame (status, a) = Some g" "length g \<le> max_payload + 8"
    using assms(1) by (auto simp: ack_frame_def Let_def magic_def)
  with assms(2) show ?thesis by (simp add: write_ack_frame conn_write_def)
qed

text \<open>Names of services that an answer has room for; the pattern admits no others.\<close>

definition modest :: "string \<Rightarrow> bool" where
  "modest s \<longleftrightarrow> valid_utf8 s \<and> length s \<le> 1000"

lemma service_name_modest: "service_name_ok s \<Longrightarrow> modest s"
  using service_name_ascii service_name_ok_length by (fastforce simp: modest_def)

lemma ok_ack_fits:
  "modest s \<Longrightarrow> ack_valid (status_ok, \<lparr>ack_service = s, ack_error = []\<rparr>) \<and>
     length (marshal_ack \<lparr>ack_service = s, ack_error = []\<rparr>) \<le> max_payload"
  using length_service_ack [of s] by (simp add: ack_valid_def modest_def max_payload_def)

lemma refusal_fits:
  assumes "authorize tokens h = Inl (status, a)" "\<forall>bound. token_lookup (hello_token h) tokens = Some bound \<longrightarrow> modest bound"
  shows "ack_valid (status, a) \<and> length (marshal_ack a) \<le> max_payload \<and> status \<noteq> status_ok"
proof -
  let ?m1 = "''wildcard token requires a valid 'service' name in Hello (regex: '' @ service_pattern @ '')''"
  let ?m2 = "''token is bound to service ''"
  have ascii: "\<forall>c \<in> set ''invalid token''. code c < 128" "\<forall>c \<in> set ?m1. code c < 128" "\<forall>c \<in> set ?m2. code c < 128"
    by (simp_all add: code_def service_pattern_def)
  have len: "length ?m1 \<le> 100" "length ?m2 = 26" by (simp_all add: service_pattern_def)
  have a: "ack_service a = [] \<and> (ack_error a = ''invalid token'' \<or> ack_error a = ?m1 \<or> (\<exists>bound. modest bound \<and> ack_error a = ?m2 @ bound))"
    and st: "status = status_bad_auth \<or> status = status_bad_request"
    using assms by (auto simp: authorize_def choose_service_def refuse_def Let_def split: option.splits if_splits)
  have v: "valid_utf8 (ack_error a) \<and> length (ack_error a) \<le> 1026"
  proof -
    have "valid_utf8 ''invalid token'' \<and> length ''invalid token'' \<le> 1026" using valid_ascii [OF ascii(1)] by simp
    moreover have "valid_utf8 ?m1 \<and> length ?m1 \<le> 1026" using valid_ascii [OF ascii(2)] len(1) by linarith
    moreover have "valid_utf8 (?m2 @ bound) \<and> length (?m2 @ bound) \<le> 1026" if "modest bound" for bound
      using that valid_utf8_ascii_append [OF ascii(3), of bound] len(2) unfolding modest_def length_append by linarith
    ultimately show ?thesis using a by metis
  qed
  with a have "ack_valid (status, a)" by (simp add: ack_valid_def)
  moreover have "length (marshal_ack a) \<le> max_payload"
    using length_marshal_ack [of a] v a by (simp add: max_payload_def)
  moreover have "status \<noteq> status_ok" using st by (auto simp: status_ok_def status_bad_auth_def status_bad_request_def)
  ultimately show ?thesis by blast
qed

lemma authorize_modest:
  assumes "authorize tokens h = Inr service" "\<forall>bound. token_lookup (hello_token h) tokens = Some bound \<longrightarrow> modest bound"
  shows "modest service"
proof -
  obtain bound where b: "token_lookup (hello_token h) tokens = Some bound" "choose_service bound h = Inr service"
    using assms(1) by (rule authorize_cases)
  with assms(2) service_name_modest show ?thesis by (auto simp: choose_service_Inr split: if_splits)
qed


subsection \<open>The router's answer\<close>

text \<open>What the router has done and said, by what it could read and decide.\<close>

lemma router_unheard:
  assumes "fst (read_hello (cs_reader st)) = Inl e" "handle_control now cfg tokens sid mux peer st = (out, st')"
  shows "out = BadHandshake e \<and> cs_registry st' = cs_registry st \<and> cs_writer st' = cs_writer st"
  using assms by (cases "read_hello (cs_reader st)") (auto simp: handle_control_def)

lemma router_refuses:
  assumes "fst (read_hello (cs_reader st)) = Inr h" "authorize tokens h = Inl (status, a)"
    and "handle_control now cfg tokens sid mux peer st = (out, st')"
  shows "out = Refused status a \<and> cs_registry st' = cs_registry st \<and>
    cs_writer st' = snd (write_ack status a (cs_writer st))"
  using assms by (cases "read_hello (cs_reader st)") (auto simp: handle_control_def Let_def)

lemma router_accepts:
  assumes "fst (read_hello (cs_reader st)) = Inr h" "authorize tokens h = Inr service"
    and "handle_control now cfg tokens sid mux peer st = (out, st')"
    and "write_ack status_ok \<lparr>ack_service = service, ack_error = []\<rparr> (cs_writer st) = (err, w)"
  shows "cs_writer st' = w \<and>
    (case err of
       Some e \<Rightarrow> out = AckNotSent e \<and> cs_registry st' = cs_registry st
     | None \<Rightarrow>
         (case mux of
            Some m \<Rightarrow> out = control_outcome.MuxFailed m \<and> cs_registry st' = cs_registry st
          | None \<Rightarrow> out = Serving service \<and>
              cs_registry st' = register now sid (add_session sid (new_session service (hello_token h) peer) (cs_registry st))))"
  using assms by (cases "read_hello (cs_reader st)") (auto simp: handle_control_def Let_def split: option.splits)

lemma refused_status: "authorize tokens h = Inl (status, a) \<Longrightarrow> status \<noteq> status_ok"
  by (auto simp: authorize_def choose_service_def refuse_def Let_def status_ok_def status_bad_auth_def
      status_bad_request_def split: option.splits if_splits)

subsection \<open>The client's view\<close>

text \<open>The client has been told that it is served: it starts its session, or fails at that or later.\<close>

fun admitted :: "run_error \<Rightarrow> bool" where
  "admitted (RouterClient.MuxFailed e) = True"
| "admitted (AcceptFailed e) = True"
| "admitted Cancelled = True"
| "admitted e = False"

fun turned_away :: "run_error \<Rightarrow> bool" where
  "turned_away (Rejected status msg) = True"
| "turned_away e = False"

lemma client_view:
  assumes "write_hello (client_hello c) (at_writer a) = (err, w)"
  shows "(case fst (run_once c a) of
       Rejected status msg \<Rightarrow> err = None \<and> status \<noteq> status_ok \<and> (\<exists>x. fst (read_ack (at_reader a)) = Inr (status, x) \<and> ack_error x = msg)
     | e \<Rightarrow> if admitted e then err = None \<and> (\<exists>x. fst (read_ack (at_reader a)) = Inr (status_ok, x)) else snd (snd (run_once c a)) = 0) \<and>
    (at_dial a = None \<and> err = None \<and> (\<exists>x. fst (read_ack (at_reader a)) = Inr x) \<longrightarrow>
       admitted (fst (run_once c a)) \<or> turned_away (fst (run_once c a)))"
proof (cases "at_dial a = None \<and> err = None")
  case False
  with assms show ?thesis by (cases "at_dial a"; cases err) (simp_all add: run_once_def)
next
  case True
  obtain x rd where r: "read_ack (at_reader a) = (x, rd)" by (cases "read_ack (at_reader a)")
  show ?thesis
  proof (cases x)
    case (Inl e)
    with True assms r show ?thesis by (simp add: run_once_def)
  next
    case (Inr m)
    obtain status ack where m: "m = (status, ack)" by (cases m)
    show ?thesis
    proof (cases "status = status_ok")
      case True
      with \<open>at_dial a = None \<and> err = None\<close> assms r Inr m show ?thesis
        by (cases "at_mux a"; cases "at_cancelled a") (simp_all add: run_once_def)
    next
      case False
      with \<open>at_dial a = None \<and> err = None\<close> assms r Inr m show ?thesis by (simp add: run_once_def)
    qed
  qed
qed

subsection \<open>Property\<close>

text \<open>
  C6. The two ends of a control connection never contradict each other, wherever the connection breaks in either
  direction. A client that takes itself for served has been authorised, and the router has
  registered it unless its own yamux failed after the answer; a client that is told a status was refused with
  that status, and with that reason; any other client serves no stream. The router registers a
  session only for the service the client's token allows and changes nothing otherwise (it may have registered a
  client that its answer no longer reached). And if nothing is lost, the client is served or told why not.
\<close>

theorem both_ends_agree:
  assumes "hello_valid (client_hello c)" "sent (at_writer a) = []" "sent (cs_writer st) = []"
    and "write_hello (client_hello c) (at_writer a) = (err, w)"
    and "arrives_of (err = None) (sent w) (arriving (cs_reader st))"
    and "handle_control now cfg tokens sid mux peer st = (out, st')"
    and "arrives_of (\<exists>service. out = Serving service) (sent (cs_writer st')) (arriving (at_reader a))"
  shows "(case fst (run_once c a) of
       Rejected status msg \<Rightarrow> \<exists>r. out = Refused status r \<and> (ack_valid (status, r) \<longrightarrow> ack_error r = msg)
     | e \<Rightarrow> if admitted e
           then \<exists>service. authorize tokens (client_hello c) = Inr service \<and>
             (if mux = None then out = Serving service else out = control_outcome.MuxFailed (the mux))
           else snd (snd (run_once c a)) = 0) \<and>
    (\<forall>service. out = Serving service \<longrightarrow>
       (\<exists>bound. token_lookup (cc_token c) tokens = Some bound \<and>
          (if bound = ''*'' then service = clean_service (cc_service c) \<and> service_name_ok service else service = bound)) \<and>
       cs_registry st' = register now sid (add_session sid (new_session service (cc_token c) peer) (cs_registry st))) \<and>
    ((\<forall>service. out \<noteq> Serving service) \<longrightarrow> cs_registry st' = cs_registry st) \<and>
    (at_dial a = None \<and> err = None \<and> length (sent w) \<le> length (arriving (cs_reader st)) \<and>
       max_payload + 8 \<le> room (cs_writer st) \<and> length (sent (cs_writer st')) \<le> length (arriving (at_reader a)) \<and>
       (\<forall>bound. token_lookup (cc_token c) tokens = Some bound \<longrightarrow> modest bound) \<longrightarrow>
     admitted (fst (run_once c a)) \<or> turned_away (fst (run_once c a)))"
proof -
  let ?h = "client_hello c" and ?r = "at_reader a"
  have tok: "hello_token ?h = cc_token c" "hello_service ?h = cc_service c" by (simp_all add: client_hello_def)
  note view = client_view [OF assms(4)]
  consider (unheard) e where "fst (read_hello (cs_reader st)) = Inl e" "err = None \<longrightarrow> length (arriving (cs_reader st)) < length (sent w)"
    | (heard) "err = None" "fst (read_hello (cs_reader st)) = Inr ?h"
    using hello_heard [OF assms(1,4,2,5)] by blast
  then show ?thesis
  proof cases
    case unheard
    have out: "out = BadHandshake e" "cs_registry st' = cs_registry st" "cs_writer st' = cs_writer st"
      using router_unheard [OF unheard(1) assms(6)] by blast+
    then have "arriving ?r = []" using assms(3,7) by (auto simp: arrives_of_def)
    then obtain e' where "fst (read_ack ?r) = Inl e'" using empty_input by blast
    with view out unheard(2) show ?thesis by (cases "fst (run_once c a)") auto
  next
    case heard
    show ?thesis
    proof (cases "authorize tokens ?h")
      case (Inl x)
      obtain status m where x: "x = (status, m)" by (cases x)
      obtain werr w' where w': "write_ack status m (cs_writer st) = (werr, w')" by (cases "write_ack status m (cs_writer st)")
      have out: "out = Refused status m" "cs_registry st' = cs_registry st" "cs_writer st' = w'"
        using router_refuses [OF heard(2) Inl [unfolded x] assms(6)] w' by auto
      have down: "arrives_of False (sent w') (arriving ?r)" using assms(7) by (simp add: out(1,3))
      have "False \<longrightarrow> werr = None" by simp
      note ack = ack_heard [OF w' assms(3) down this]
      have fits: "ack_valid (status, m) \<and> werr = None"
        if "\<forall>bound. token_lookup (cc_token c) tokens = Some bound \<longrightarrow> modest bound" "max_payload + 8 \<le> room (cs_writer st)"
        using refusal_fits [OF Inl [unfolded x]] that ack_goes_out [of m "cs_writer st" status] w' tok by simp
      from ack show ?thesis
      proof (elim disjE exE conjE)
        fix a' assume "fst (read_ack ?r) = Inr (status, a')" "ack_valid (status, m) \<longrightarrow> a' = m"
        with view refused_status [OF Inl [unfolded x]] out heard(1) show ?thesis by (cases "fst (run_once c a)") auto
      next
        fix e assume "fst (read_ack ?r) = Inl e" "ack_valid (status, m) \<and> werr = None \<longrightarrow> length (arriving ?r) < length (sent w')"
        with view out fits show ?thesis by (cases "fst (run_once c a)") auto
      qed
    next
      case (Inr service)
      let ?m = "\<lparr>ack_service = service, ack_error = []\<rparr>"
      obtain werr w' where w': "write_ack status_ok ?m (cs_writer st) = (werr, w')" by (cases "write_ack status_ok ?m (cs_writer st)")
      note out = router_accepts [OF heard(2) Inr assms(6) w', unfolded tok]
      have down: "arrives_of (\<exists>service. out = Serving service) (sent w') (arriving ?r)" using assms(7) out by simp
      have "(\<exists>service. out = Serving service) \<longrightarrow> werr = None" using out by (auto split: option.splits)
      note ack = ack_heard [OF w' assms(3) down this]
      have fits: "ack_valid (status_ok, ?m) \<and> werr = None"
        if "\<forall>bound. token_lookup (cc_token c) tokens = Some bound \<longrightarrow> modest bound" "max_payload + 8 \<le> room (cs_writer st)"
        using ok_ack_fits [OF authorize_modest [OF Inr]] that ack_goes_out [of ?m "cs_writer st" status_ok] w' tok by simp
      obtain bound where b: "token_lookup (cc_token c) tokens = Some bound" "choose_service bound ?h = Inr service"
        using authorize_cases [OF Inr] tok by metis
      have allowed: "if bound = ''*'' then service = clean_service (cc_service c) \<and> service_name_ok service else service = bound"
        using b(2) by (auto simp: choose_service_Inr clean_service_def tok)
      from ack show ?thesis
      proof (elim disjE exE conjE)
        fix a' assume r: "fst (read_ack ?r) = Inr (status_ok, a')" "werr = None"
        with view Inr out heard(1) b(1) allowed show ?thesis
          by (cases "fst (run_once c a)"; cases mux) auto
      next
        fix e assume r: "fst (read_ack ?r) = Inl e" "ack_valid (status_ok, ?m) \<and> werr = None \<longrightarrow> length (arriving ?r) < length (sent w')"
        with view out fits b(1) allowed show ?thesis
          by (cases "fst (run_once c a)"; cases mux; cases werr) auto
      qed
    qed
  qed
qed

subsection \<open>A concrete connection\<close>

definition chat_client :: client_config where
  "chat_client = \<lparr>cc_server_addr = ''router.com:7000'', cc_token = ''tk'', cc_service = ''foo'', cc_min = 0, cc_max = 0\<rparr>"

definition far_writer :: writer where
  "far_writer = \<lparr>sent = [], room = 9000, failure = ConnReset\<rparr>"

definition router_side :: control_state where
  "router_side =
     \<lparr>cs_reader = \<lparr>arriving = sent (snd (write_hello demo_hello far_writer)) @ [], ending = EOF\<rparr>,
      cs_writer = far_writer, cs_registry = new_registry 0, cs_certs = None\<rparr>"

definition client_side :: attempt where
  "client_side =
     \<lparr>at_dial = None, at_writer = far_writer,
      at_reader = \<lparr>arriving = sent (cs_writer (snd (handle_control 1 (env_config demo_env) wildcard_store 7 None ''peer'' router_side))) @ [],
                   ending = EOF\<rparr>,
      at_mux = None, at_streams = 3, at_accept = ''EOF'', at_cancelled = False\<rparr>"

theorem both_ends_agree_witness:
  "\<exists>st'. handle_control 1 (env_config demo_env) wildcard_store 7 None ''peer'' router_side = (Serving ''foo'', st') \<and>
     admitted (fst (run_once chat_client client_side))"
proof -
  have h: "client_hello chat_client = demo_hello" by (simp add: client_hello_def chat_client_def demo_hello_def)
  have tok: "token_lookup (cc_token chat_client) wildcard_store = Some ''*''"
    using demo_fields_hello(4) by (simp add: demo_hello_service chat_client_def)
  have fit: "modest ''*''" by (simp add: modest_def code_def)
  obtain w1 where w1: "write_hello demo_hello far_writer = (None, w1)"
    by (simp add: far_writer_def write_hello_def Let_def marshal_demo max_payload_def conn_write_def magic_def)
  obtain out st' where run: "handle_control 1 (env_config demo_env) wildcard_store 7 None ''peer'' router_side = (out, st')"
    by (metis prod.collapse)
  have side: "cs_reader router_side = \<lparr>arriving = sent w1 @ [], ending = EOF\<rparr>"
    "sent (cs_writer router_side) = []" "300 \<le> room (cs_writer router_side)"
    using w1 by (simp_all add: router_side_def far_writer_def)
  obtain st1 where "handle_control 1 (env_config demo_env) wildcard_store 7 None ''peer'' router_side
      = (Serving (clean_service (hello_service demo_hello)), st1)"
    using wildcard_handshake [OF demo_valid(1) w1 [unfolded far_writer_def] demo_fields_hello(4,5) side] by blast
  with run have out: "out = Serving ''foo''" unfolding demo_hello_service by simp
  have client: "sent (at_writer client_side) = []" "write_hello (client_hello chat_client) (at_writer client_side) = (None, w1)"
    "at_dial client_side = None" "arriving (at_reader client_side) = sent (cs_writer st')"
    using w1 run by (simp_all add: h client_side_def far_writer_def)
  have up: "arrives_of (None = None) (sent w1) (arriving (cs_reader router_side))"
    and down: "arrives_of (\<exists>service. out = Serving service) (sent (cs_writer st')) (arriving (at_reader client_side))"
    unfolding arrives_of_def side client(4) by (metis append_Nil2 take_all order_refl reader.select_convs(1))+
  have "max_payload + 8 \<le> room (cs_writer router_side)"
    by (simp add: router_side_def far_writer_def max_payload_def)
  with both_ends_agree [OF demo_valid(1) [folded h] client(1) side(2) client(2) up run down] out side client(3,4) tok fit
  have "admitted (fst (run_once chat_client client_side)) \<or> turned_away (fst (run_once chat_client client_side))"
    and "turned_away (fst (run_once chat_client client_side)) \<longrightarrow> (\<exists>status r. out = Refused status r)"
    by (auto split: run_error.splits)
  with run out show ?thesis by auto
qed

end
