(* ===== verification/Exchange.thy ===== *)
theory Exchange
  imports Prelude
begin

text \<open>
  One plain request as the goroutines run it: in \<open>forwardHTTP\<close> of \<open>server/proxy.go\<close> the goroutine that writes
  the request and the handler that reads the response, and on the other end of the stream \<open>Serve\<close> of
  \<open>client/handler.go\<close>. Each direction of the stream holds as many pieces as its window allows. The first piece
  of a request or a response is its head.
\<close>

subsection \<open>State\<close>

datatype upload_pc = Uploading | Uploaded

datatype serve_pc = AwaitHead | Handling | Answering | Gone

datatype forward_pc = AwaitResponse | CopyResponse | AwaitUpload | Finished

text \<open>
  \<open>xc_complete\<close> tells whether the visitor sends its whole body, or breaks off after the pieces of \<open>xc_upload\<close>;
  \<open>xc_early\<close> whether the handler answers without reading the body to its end. \<open>xc_whole\<close> is history: all that
  the handler has to say.
\<close>

record exchange =
  xc_window :: nat
  xc_upload :: "string list"
  xc_complete :: bool
  xc_writer :: upload_pc
  xc_up :: "string list"
  xc_up_end :: bool
  xc_client :: serve_pc
  xc_early :: bool
  xc_answer :: "string list"
  xc_down :: "string list"
  xc_down_end :: bool
  xc_main :: forward_pc
  xc_got :: "string list" \<comment> \<open>what the visitor has received\<close>
  xc_bad_gateway :: bool
  xc_visitor_gone :: bool
  xc_dead :: bool \<comment> \<open>the session under the stream has ended\<close>
  xc_whole :: "string list"

definition start_exchange :: "nat \<Rightarrow> string list \<Rightarrow> bool \<Rightarrow> bool \<Rightarrow> string list \<Rightarrow> exchange" where
  "start_exchange window upload complete early answer =
     \<lparr>xc_window = window, xc_upload = upload, xc_complete = complete, xc_writer = Uploading, xc_up = [], xc_up_end = False,
      xc_client = AwaitHead, xc_early = early, xc_answer = answer, xc_down = [], xc_down_end = False,
      xc_main = AwaitResponse, xc_got = [], xc_bad_gateway = False, xc_visitor_gone = False, xc_dead = False, xc_whole = answer\<rparr>"

definition init_exchange :: "exchange \<Rightarrow> bool" where
  "init_exchange x \<longleftrightarrow>
     (\<exists>window upload complete early answer. 0 < window \<and> upload \<noteq> [] \<and> answer \<noteq> [] \<and>
        x = start_exchange window upload complete early answer)"

subsection \<open>Steps\<close>

text \<open>
  The result of \<open>r.Write\<close> goes into a channel with room for it, whether it is an error or not. A write to a
  stream that the other side has closed fails, at the latest when the session's timeout for half-closed
  streams resets it; every read and write fails once the session has ended.
\<close>

inductive exchange_step :: "exchange \<Rightarrow> exchange \<Rightarrow> bool" where
  uploads: "xc_writer x = Uploading \<Longrightarrow> xc_upload x = p # ps \<Longrightarrow> length (xc_up x) < xc_window x \<Longrightarrow>
    exchange_step x (x\<lparr>xc_upload := ps, xc_up := xc_up x @ [p]\<rparr>)"
| upload_ends: "xc_writer x = Uploading \<Longrightarrow> xc_upload x = [] \<Longrightarrow> xc_complete x \<Longrightarrow>
    exchange_step x (x\<lparr>xc_writer := Uploaded, xc_up_end := True\<rparr>)"
| upload_breaks: "xc_writer x = Uploading \<Longrightarrow> xc_upload x = [] \<Longrightarrow> \<not> xc_complete x \<Longrightarrow>
    exchange_step x (x\<lparr>xc_writer := Uploaded\<rparr>)"
| upload_fails: "xc_writer x = Uploading \<Longrightarrow> xc_client x = Gone \<or> xc_dead x \<Longrightarrow>
    exchange_step x (x\<lparr>xc_writer := Uploaded\<rparr>)"
| head_read: "xc_client x = AwaitHead \<Longrightarrow> xc_up x = p # ps \<Longrightarrow> exchange_step x (x\<lparr>xc_client := Handling, xc_up := ps\<rparr>)"
| body_read: "xc_client x = Handling \<Longrightarrow> xc_up x = p # ps \<Longrightarrow> exchange_step x (x\<lparr>xc_up := ps\<rparr>)"
| answers: "xc_client x = Handling \<Longrightarrow> xc_early x \<or> xc_up x = [] \<and> xc_up_end x \<Longrightarrow> exchange_step x (x\<lparr>xc_client := Answering\<rparr>)"
| writes_piece: "xc_client x = Answering \<Longrightarrow> xc_answer x = p # ps \<Longrightarrow> length (xc_down x) < xc_window x \<Longrightarrow>
    exchange_step x (x\<lparr>xc_answer := ps, xc_down := xc_down x @ [p]\<rparr>)"
| client_closes: "xc_client x = Answering \<Longrightarrow> xc_answer x = [] \<Longrightarrow> exchange_step x (x\<lparr>xc_client := Gone, xc_down_end := True\<rparr>)"
| client_fails: "xc_client x \<noteq> Gone \<Longrightarrow> xc_dead x \<or> xc_main x = Finished \<Longrightarrow>
    exchange_step x (x\<lparr>xc_client := Gone, xc_down_end := True\<rparr>)"
| head_arrives: "xc_main x = AwaitResponse \<Longrightarrow> xc_down x = p # ps \<Longrightarrow>
    exchange_step x (x\<lparr>xc_main := CopyResponse, xc_down := ps, xc_got := [p]\<rparr>)"
| no_response: "xc_main x = AwaitResponse \<Longrightarrow> xc_down x = [] \<Longrightarrow> xc_down_end x \<or> xc_dead x \<Longrightarrow>
    exchange_step x (x\<lparr>xc_main := AwaitUpload, xc_bad_gateway := True\<rparr>)"
| copies: "xc_main x = CopyResponse \<Longrightarrow> xc_down x = p # ps \<Longrightarrow> exchange_step x (x\<lparr>xc_down := ps, xc_got := xc_got x @ [p]\<rparr>)"
| copy_breaks: "xc_main x = CopyResponse \<Longrightarrow> xc_down x = p # ps \<Longrightarrow>
    exchange_step x (x\<lparr>xc_main := AwaitUpload, xc_down := ps, xc_visitor_gone := True\<rparr>)"
| copy_ends: "xc_main x = CopyResponse \<Longrightarrow> xc_down x = [] \<Longrightarrow> xc_down_end x \<or> xc_dead x \<Longrightarrow>
    exchange_step x (x\<lparr>xc_main := AwaitUpload\<rparr>)"
| returns: "xc_main x = AwaitUpload \<Longrightarrow> xc_writer x = Uploaded \<Longrightarrow> exchange_step x (x\<lparr>xc_main := Finished\<rparr>)"

inductive_cases exchange_stepE: "exchange_step x y"

text \<open>With the end of the session, which may come at any moment.\<close>

inductive exchange_world :: "exchange \<Rightarrow> exchange \<Rightarrow> bool" where
  own_step: "exchange_step x y \<Longrightarrow> exchange_world x y"
| session_ends: "exchange_world x (x\<lparr>xc_dead := True\<rparr>)"

subsection \<open>Every run ends\<close>

definition exchange_work :: "exchange \<Rightarrow> nat" where
  "exchange_work x =
     2 * length (xc_upload x) + length (xc_up x) + (case xc_writer x of Uploading \<Rightarrow> 1 | Uploaded \<Rightarrow> 0) +
     (case xc_client x of AwaitHead \<Rightarrow> 3 | Handling \<Rightarrow> 2 | Answering \<Rightarrow> 1 | Gone \<Rightarrow> 0) +
     2 * length (xc_answer x) + length (xc_down x) +
     (case xc_main x of AwaitResponse \<Rightarrow> 3 | CopyResponse \<Rightarrow> 2 | AwaitUpload \<Rightarrow> 1 | Finished \<Rightarrow> 0)"

lemma exchange_step_work: "exchange_step x y \<Longrightarrow> exchange_work y < exchange_work x"
  by (erule exchange_stepE) (auto simp: exchange_work_def split: serve_pc.splits)

lemma exchange_runs_out: "(exchange_step ^^ n) x y \<Longrightarrow> n + exchange_work y \<le> exchange_work x"
proof (induction n arbitrary: y)
  case (Suc n)
  then obtain z where "(exchange_step ^^ n) x z" "exchange_step z y" by auto
  with Suc.IH exchange_step_work [of z y] show ?case by fastforce
qed simp

lemma exchange_normalises: "\<exists>y. exchange_step\<^sup>*\<^sup>* x y \<and> (\<forall>z. \<not> exchange_step y z)"
proof (induction x rule: measure_induct_rule [where f = exchange_work])
  case (less x)
  show ?case
  proof (cases "\<exists>y. exchange_step x y")
    case True
    then obtain y where y: "exchange_step x y" by blast
    from less [OF exchange_step_work [OF y]] y show ?thesis by (meson converse_rtranclp_into_rtranclp)
  qed blast
qed

subsection \<open>Invariant\<close>

text \<open>While the session lives: where each side is, what has been said, and what is left to say.\<close>

definition upload_ok :: "exchange \<Rightarrow> bool" where
  "upload_ok x \<longleftrightarrow>
     (xc_client x = AwaitHead \<longrightarrow> xc_upload x \<noteq> [] \<or> xc_up x \<noteq> []) \<and>
     (xc_writer x = Uploaded \<and> xc_client x \<noteq> Gone \<longrightarrow> xc_upload x = [] \<and> (xc_up_end x \<longleftrightarrow> xc_complete x)) \<and>
     (xc_writer x = Uploading \<longrightarrow> \<not> xc_up_end x) \<and>
     (xc_client x = Answering \<longrightarrow> xc_early x \<or> xc_up_end x)"

definition silent :: "exchange \<Rightarrow> bool" where
  "silent x \<longleftrightarrow> xc_main x = AwaitResponse \<and> \<not> xc_visitor_gone x \<and> xc_down x = [] \<and> xc_got x = [] \<and> xc_answer x = xc_whole x"

definition spoken :: "exchange \<Rightarrow> bool" where
  "spoken x \<longleftrightarrow>
     (case xc_main x of
        AwaitResponse \<Rightarrow> \<not> xc_visitor_gone x \<and> xc_got x = [] \<and> xc_down x @ xc_answer x = xc_whole x
      | CopyResponse \<Rightarrow> \<not> xc_visitor_gone x \<and> xc_got x @ xc_down x @ xc_answer x = xc_whole x
      | _ \<Rightarrow> xc_visitor_gone x \<or> xc_client x = Gone \<and> xc_answer x = [] \<and> xc_got x = xc_whole x)"

definition answer_ok :: "exchange \<Rightarrow> bool" where
  "answer_ok x \<longleftrightarrow> \<not> xc_bad_gateway x \<and>
     (case xc_client x of
        AwaitHead \<Rightarrow> silent x \<and> \<not> xc_down_end x
      | Handling \<Rightarrow> silent x \<and> \<not> xc_down_end x
      | Answering \<Rightarrow> spoken x \<and> \<not> xc_down_end x
      | Gone \<Rightarrow> spoken x \<and> xc_down_end x \<and> (xc_visitor_gone x \<or> xc_answer x = []))"

definition exchange_inv :: "exchange \<Rightarrow> bool" where
  "exchange_inv x \<longleftrightarrow> 0 < xc_window x \<and> xc_whole x \<noteq> [] \<and> (\<not> xc_dead x \<longrightarrow> upload_ok x \<and> answer_ok x)"

lemma step_constants:
  "exchange_step x y \<Longrightarrow> xc_window y = xc_window x \<and> xc_whole y = xc_whole x \<and> xc_dead y = xc_dead x \<and>
     xc_complete y = xc_complete x \<and> xc_early y = xc_early x"
  by (erule exchange_stepE) simp_all

lemma upload_ok_step: "exchange_step x y \<Longrightarrow> \<not> xc_dead x \<Longrightarrow> upload_ok x \<Longrightarrow> upload_ok y"
  by (erule exchange_stepE) (auto simp: upload_ok_def)

lemma answer_ok_step: "exchange_step x y \<Longrightarrow> \<not> xc_dead x \<Longrightarrow> xc_whole x \<noteq> [] \<Longrightarrow> answer_ok x \<Longrightarrow> answer_ok y"
  by (erule exchange_stepE) (auto simp: answer_ok_def silent_def spoken_def split: serve_pc.splits forward_pc.splits)

lemma exchange_inv_world: "exchange_world x y \<Longrightarrow> exchange_inv x \<Longrightarrow> exchange_inv y"
proof (induction rule: exchange_world.induct)
  case (own_step x y)
  then show ?case
    using step_constants [OF own_step(1)] upload_ok_step [OF own_step(1)] answer_ok_step [OF own_step(1)]
    by (auto simp: exchange_inv_def)
qed (simp add: exchange_inv_def)

interpretation exchanging: invariant_system init_exchange exchange_world exchange_inv
proof unfold_locales
  show "exchange_inv x" if "init_exchange x" for x
    using that by (auto simp: init_exchange_def start_exchange_def exchange_inv_def upload_ok_def answer_ok_def silent_def)
qed (rule exchange_inv_world)

subsection \<open>Where an exchange can stop\<close>

text \<open>A goroutine that can go no further while its session lives, one by one.\<close>

lemma stopped_main:
  assumes "\<forall>y. \<not> exchange_step x y"
  shows "xc_down x = [] \<or> xc_main x = AwaitUpload \<or> xc_main x = Finished"
proof (cases "xc_down x")
  case (Cons p ps)
  then show ?thesis using assms head_arrives [of x p ps] copies [of x p ps] by (cases "xc_main x") blast+
qed simp

lemma stopped_client:
  assumes "\<forall>y. \<not> exchange_step x y" "exchange_inv x"
  shows "xc_client x = Gone \<or> xc_client x = AwaitHead \<and> xc_up x = [] \<or>
    xc_client x = Handling \<and> xc_up x = [] \<and> \<not> xc_early x \<and> \<not> xc_up_end x \<or>
    xc_client x = Answering \<and> xc_main x = AwaitUpload"
proof (cases "xc_client x")
  case AwaitHead
  then show ?thesis using assms(1) head_read [of x] by (cases "xc_up x") blast+
next
  case Handling
  moreover have "xc_up x = []" using Handling assms(1) body_read [of x] by (cases "xc_up x") blast+
  ultimately show ?thesis using assms(1) answers [of x] by blast
next
  case Answering
  then obtain p ps where a: "xc_answer x = p # ps" using assms(1) client_closes [of x] by (cases "xc_answer x") blast+
  have "xc_main x \<noteq> Finished" using Answering assms(1) client_fails [of x] by force
  moreover have "xc_down x \<noteq> []"
    using assms writes_piece [OF Answering a] by (cases "xc_down x") (auto simp: exchange_inv_def)
  ultimately show ?thesis using Answering stopped_main [OF assms(1)] by blast
qed simp

lemma stopped_writer:
  assumes "\<forall>y. \<not> exchange_step x y" "exchange_inv x"
  shows "xc_writer x = Uploaded \<or> xc_client x = Answering \<and> xc_main x = AwaitUpload \<and> xc_up x \<noteq> [] \<and> \<not> xc_dead x"
proof (cases "xc_writer x")
  case Uploading
  with assms(1) have live: "\<not> xc_dead x" "xc_client x \<noteq> Gone" using upload_fails [of x] by blast+
  obtain p ps where u: "xc_upload x = p # ps"
    using assms(1) Uploading upload_ends [of x] upload_breaks [of x] by (cases "xc_upload x") blast+
  then have "xc_up x \<noteq> []" using assms uploads [OF Uploading u] by (auto simp: exchange_inv_def)
  with stopped_client [OF assms] live show ?thesis by blast
qed simp

lemma finished_answer:
  assumes "exchange_inv x" "xc_main x = Finished" "\<not> xc_dead x"
  shows "\<not> xc_bad_gateway x \<and> (\<not> xc_visitor_gone x \<longrightarrow> xc_got x = xc_whole x)"
  using assms
  by (cases "xc_client x") (auto simp: exchange_inv_def answer_ok_def silent_def spoken_def)

lemma stopped_dead:
  assumes "\<forall>y. \<not> exchange_step x y" "xc_dead x"
  shows "xc_main x = Finished"
proof -
  have "xc_writer x = Uploaded" using assms upload_fails [of x] by (cases "xc_writer x") blast+
  moreover have "xc_main x \<noteq> AwaitResponse" "xc_main x \<noteq> CopyResponse"
    using assms stopped_main [OF assms(1)] no_response [of x] copy_ends [of x] by force+
  ultimately show ?thesis using assms(1) returns [of x] by (cases "xc_main x") blast+
qed

lemma stopped_live:
  assumes "\<forall>y. \<not> exchange_step x y" "exchange_inv x" "\<not> xc_dead x"
  shows "xc_main x = Finished \<or>
    xc_main x = AwaitResponse \<and> xc_client x = Handling \<and> \<not> xc_complete x \<and> \<not> xc_early x \<or>
    xc_main x = AwaitUpload \<and> xc_writer x = Uploading \<and> xc_client x = Answering \<and> xc_visitor_gone x \<and> xc_early x"
proof -
  have up: "upload_ok x" and ans: "answer_ok x" using assms(2,3) by (simp_all add: exchange_inv_def)
  show ?thesis
  proof (cases "xc_client x")
    case Gone
    with stopped_writer [OF assms(1,2)] have w: "xc_writer x = Uploaded" by simp
    have "xc_down_end x" using ans Gone by (simp add: answer_ok_def)
    with stopped_main [OF assms(1)] assms(1) have "xc_main x \<noteq> AwaitResponse" "xc_main x \<noteq> CopyResponse"
      using no_response [of x] copy_ends [of x] by force+
    with w show ?thesis using assms(1) returns [of x] by (cases "xc_main x") blast+
  next
    case AwaitHead
    with stopped_client [OF assms(1,2)] stopped_writer [OF assms(1,2)] up show ?thesis by (auto simp: upload_ok_def)
  next
    case Handling
    with stopped_client [OF assms(1,2)] stopped_writer [OF assms(1,2)] have "xc_writer x = Uploaded" "\<not> xc_early x" "\<not> xc_up_end x"
      by simp_all
    with Handling up ans show ?thesis by (simp add: upload_ok_def answer_ok_def silent_def)
  next
    case Answering
    with stopped_client [OF assms(1,2)] have m: "xc_main x = AwaitUpload" by simp
    with assms(1) have w: "xc_writer x = Uploading" using returns [of x] by (cases "xc_writer x") blast+
    with m Answering up ans show ?thesis by (auto simp: upload_ok_def answer_ok_def spoken_def)
  qed
qed

subsection \<open>A visitor that breaks off\<close>

definition waits_forever :: "exchange \<Rightarrow> bool" where
  "waits_forever x \<longleftrightarrow>
     \<not> xc_dead x \<and> \<not> xc_complete x \<and> \<not> xc_early x \<and> \<not> xc_up_end x \<and> xc_client x \<in> {AwaitHead, Handling} \<and>
     xc_main x = AwaitResponse \<and> xc_down x = [] \<and> \<not> xc_down_end x \<and> xc_got x = []"

lemma waits_forever_step: "exchange_step x y \<Longrightarrow> waits_forever x \<Longrightarrow> waits_forever y"
  by (erule exchange_stepE) (auto simp: waits_forever_def)

lemma waits_forever_star: "exchange_step\<^sup>*\<^sup>* x y \<Longrightarrow> waits_forever x \<Longrightarrow> waits_forever y"
  by (induction rule: rtranclp_induct) (auto intro: waits_forever_step)

subsection \<open>Properties\<close>

text \<open>
  C5. A plain request ends. However the goroutines of the router and the client interleave, a run of them that can go
  no further has ended the request, and if the session lived and the visitor stayed it has the whole answer of the
  handler and no error page, with two exceptions: the visitor broke off its upload while the handler waits for the
  rest of the body, or the visitor left during the answer of a handler that did not read the body, and the two
  directions wait for each other.
\<close>

theorem exchange_ends:
  assumes "reaches init_exchange exchange_world x" "\<forall>y. \<not> exchange_step x y"
  shows "xc_main x = Finished \<and>
      (\<not> xc_dead x \<longrightarrow> \<not> xc_bad_gateway x \<and> (\<not> xc_visitor_gone x \<longrightarrow> xc_got x = xc_whole x)) \<or>
    \<not> xc_dead x \<and> \<not> xc_complete x \<and> \<not> xc_early x \<and> xc_main x = AwaitResponse \<and> xc_client x = Handling \<or>
    \<not> xc_dead x \<and> xc_visitor_gone x \<and> xc_early x \<and> xc_main x = AwaitUpload \<and> xc_writer x = Uploading \<and> xc_client x = Answering"
proof -
  have inv: "exchange_inv x" by (rule exchanging.inv_reaches [OF assms(1)])
  show ?thesis
  proof (cases "xc_dead x")
    case True
    with stopped_dead [OF assms(2)] show ?thesis by simp
  next
    case False
    from stopped_live [OF assms(2) inv False] finished_answer [OF inv _ False] False show ?thesis by blast
  qed
qed

text \<open>
  C33. No run of a request is longer than its work: twice the pieces of the upload and of the answer, and seven.
\<close>

theorem exchange_bounded:
  assumes "(exchange_step ^^ n) (start_exchange window upload complete early answer) x"
  shows "n \<le> 2 * length upload + 2 * length answer + 7"
  using exchange_runs_out [OF assms] by (simp add: exchange_work_def start_exchange_def)

text \<open>
  C31. A visitor that breaks off its upload leaves both ends waiting for as long as the session lives: when the
  handler reads the body to its end, then whatever happens, the router still waits for a response and the client
  still for the rest of the body, because the error of writing the request closes nothing.
\<close>

theorem broken_upload_hangs:
  assumes "exchange_step\<^sup>*\<^sup>* (start_exchange window upload False False answer) x"
  shows "xc_main x = AwaitResponse \<and> xc_client x \<in> {AwaitHead, Handling} \<and> xc_got x = []"
proof -
  have "waits_forever (start_exchange window upload False False answer)"
    by (simp add: waits_forever_def start_exchange_def)
  from waits_forever_star [OF assms this] show ?thesis by (auto simp: waits_forever_def)
qed

subsection \<open>Concrete runs\<close>

definition demo_exchange :: exchange where
  "demo_exchange = start_exchange 2 [''head''] True False [''200'']"

definition demo_broken :: exchange where
  "demo_broken = start_exchange 2 [''head''] False False [''200'']"

lemmas demo_exchange_defs = demo_exchange_def demo_broken_def start_exchange_def

lemma demo_exchange_end:
  obtains x where "exchange_step\<^sup>*\<^sup>* demo_exchange x" "\<forall>y. \<not> exchange_step x y"
  using exchange_normalises by blast

lemma exchange_star_complete:
  "exchange_step\<^sup>*\<^sup>* x y \<Longrightarrow> xc_complete y = xc_complete x \<and> xc_early y = xc_early x \<and> xc_dead y = xc_dead x \<and> xc_whole y = xc_whole x"
  by (induction rule: rtranclp_induct) (auto dest: step_constants)

lemma demo_exchange_init: "init_exchange demo_exchange"
  unfolding init_exchange_def demo_exchange_def by (metis list.distinct(1) zero_less_numeral)

lemma exchange_star_world: "exchange_step\<^sup>*\<^sup>* x y \<Longrightarrow> exchange_world\<^sup>*\<^sup>* x y"
  by (rule rtranclp_mono [THEN predicate2D]) (auto intro: own_step)

theorem exchange_ends_witness:
  "\<exists>x. exchange_step\<^sup>*\<^sup>* demo_exchange x \<and> xc_main x = Finished \<and> (\<not> xc_visitor_gone x \<longrightarrow> xc_got x = [''200''])"
proof -
  obtain x where x: "exchange_step\<^sup>*\<^sup>* demo_exchange x" "\<forall>y. \<not> exchange_step x y" by (rule demo_exchange_end)
  have "reaches init_exchange exchange_world x"
    by (rule reaches_star [OF reaches_start exchange_star_world [OF x(1)]]) (rule demo_exchange_init)
  from exchange_ends [OF this x(2)] exchange_star_complete [OF x(1)] x(1) show ?thesis by (auto simp: demo_exchange_defs)
qed

theorem exchange_bounded_witness:
  "\<exists>n x. (exchange_step ^^ n) demo_exchange x \<and> (\<forall>y. \<not> exchange_step x y) \<and> n \<le> 11"
proof -
  obtain x where x: "exchange_step\<^sup>*\<^sup>* demo_exchange x" "\<forall>y. \<not> exchange_step x y" by (rule demo_exchange_end)
  then obtain n where "(exchange_step ^^ n) demo_exchange x" by (meson rtranclp_imp_relpowp)
  with x(2) exchange_bounded [of n 2 "[''head'']" True False "[''200'']" x] show ?thesis by (auto simp: demo_exchange_def)
qed

theorem broken_upload_hangs_witness:
  "\<exists>x. exchange_step\<^sup>*\<^sup>* demo_broken x \<and> (\<forall>y. \<not> exchange_step x y) \<and> xc_main x = AwaitResponse"
proof -
  obtain x where x: "exchange_step\<^sup>*\<^sup>* demo_broken x" "\<forall>y. \<not> exchange_step x y" using exchange_normalises by blast
  with broken_upload_hangs [of 2 "[''head'']" "[''200'']" x] show ?thesis by (auto simp: demo_broken_def)
qed


text \<open>
  The second exception, with a window of one piece: the handler answers without reading the body, the visitor
  leaves after the head of the answer, and both directions are full.
\<close>

lemma early_answer_deadlock:
  "\<exists>x. exchange_step\<^sup>*\<^sup>* (start_exchange 1 [h, a, b] True True [p, q, r, s]) x \<and> (\<forall>y. \<not> exchange_step x y) \<and>
     xc_main x = AwaitUpload \<and> xc_visitor_gone x \<and> \<not> xc_dead x"
proof -
  let ?s0 = "start_exchange 1 [h, a, b] True True [p, q, r, s]"
  let ?s1 = "?s0\<lparr>xc_upload := [a, b], xc_up := [h]\<rparr>"
  let ?s2 = "?s1\<lparr>xc_client := Handling, xc_up := []\<rparr>"
  let ?s3 = "?s2\<lparr>xc_upload := [b], xc_up := [a]\<rparr>"
  let ?s4 = "?s3\<lparr>xc_client := Answering\<rparr>"
  let ?s5 = "?s4\<lparr>xc_answer := [q, r, s], xc_down := [p]\<rparr>"
  let ?s6 = "?s5\<lparr>xc_main := CopyResponse, xc_down := [], xc_got := [p]\<rparr>"
  let ?s7 = "?s6\<lparr>xc_answer := [r, s], xc_down := [q]\<rparr>"
  let ?s8 = "?s7\<lparr>xc_main := AwaitUpload, xc_down := [], xc_visitor_gone := True\<rparr>"
  let ?s9 = "?s8\<lparr>xc_answer := [s], xc_down := [r]\<rparr>"
  have "exchange_step ?s0 ?s1" using uploads [of ?s0 h "[a, b]"] by (simp add: start_exchange_def)
  moreover have "exchange_step ?s1 ?s2" using head_read [of ?s1 h "[]"] by (simp add: start_exchange_def)
  moreover have "exchange_step ?s2 ?s3" using uploads [of ?s2 a "[b]"] by (simp add: start_exchange_def)
  moreover have "exchange_step ?s3 ?s4" using answers [of ?s3] by (simp add: start_exchange_def)
  moreover have "exchange_step ?s4 ?s5" using writes_piece [of ?s4 p "[q, r, s]"] by (simp add: start_exchange_def)
  moreover have "exchange_step ?s5 ?s6" using head_arrives [of ?s5 p "[]"] by (simp add: start_exchange_def)
  moreover have "exchange_step ?s6 ?s7" using writes_piece [of ?s6 q "[r, s]"] by (simp add: start_exchange_def)
  moreover have "exchange_step ?s7 ?s8" using copy_breaks [of ?s7 q "[]"] by (simp add: start_exchange_def)
  moreover have "exchange_step ?s8 ?s9" using writes_piece [of ?s8 r "[s]"] by (simp add: start_exchange_def)
  ultimately have "exchange_step\<^sup>*\<^sup>* ?s0 ?s9" by (meson rtranclp.rtrancl_into_rtrancl rtranclp.rtrancl_refl)
  moreover have "\<not> exchange_step ?s9 y" for y by (auto simp: start_exchange_def elim: exchange_stepE)
  ultimately show ?thesis by (intro exI [of _ ?s9]) (simp add: start_exchange_def)
qed

end
