(* ===== verification/Http.thy ===== *)
theory Http
  imports GoStrings "HOL-Library.AList"
begin

text \<open>
  What the program uses of \<open>net/http\<close>: headers (read, set and written), the request as a handler sees it,
  status texts, and the test for a protocol upgrade (\<open>isUpgrade\<close> of \<open>server/proxy.go\<close>).

  A header is an association list from canonical names to values; the program only uses canonical
  names.
\<close>

subsection \<open>Headers\<close>

type_synonym header = "(string \<times> string list) list"

definition header_get :: "header \<Rightarrow> string \<Rightarrow> string" where
  "header_get h k = (case map_of h k of Some (v # _) \<Rightarrow> v | _ \<Rightarrow> [])"

definition header_set :: "string \<Rightarrow> string \<Rightarrow> header \<Rightarrow> header" where
  "header_set k v h = AList.update k [v] h"

definition token_byte :: "char \<Rightarrow> bool" where
  "token_byte c \<longleftrightarrow> is_upper c \<or> is_lower c \<or> is_digit c \<or> c \<in> set ''!#$%&*+-.^_|~'' \<or> code c = 39 \<or> code c = 96"

definition valid_field_name :: "string \<Rightarrow> bool" where
  "valid_field_name k \<longleftrightarrow> k \<noteq> [] \<and> list_all token_byte k"

definition crlf :: string where
  "crlf = [CHR 0x0D, CHR 0x0A]"

definition is_blank :: "char \<Rightarrow> bool" where
  "is_blank c \<longleftrightarrow> code c = 32 \<or> code c = 9"

definition trim_blank :: "string \<Rightarrow> string" where
  "trim_blank s = rev (dropWhile is_blank (rev (dropWhile is_blank s)))"

text \<open>Line breaks in a value become blanks, and blanks around it are dropped.\<close>

definition clean_value :: "string \<Rightarrow> string" where
  "clean_value v = trim_blank (map (\<lambda>c. if code c = 10 \<or> code c = 13 then CHR '' '' else c) v)"

definition write_field :: "string \<times> string list \<Rightarrow> string" where
  "write_field f =
     (if valid_field_name (fst f) then concat (map (\<lambda>v. fst f @ '': '' @ clean_value v @ crlf) (snd f)) else [])"

definition write_header :: "header \<Rightarrow> string" where
  "write_header h = concat (map write_field (sort_key fst h))"

lemma header_get_set [simp]: "header_get (header_set k v h) j = (if j = k then v else header_get h j)"
  by (simp add: header_get_def header_set_def update_conv')

subsection \<open>Requests\<close>

record request =
  rq_method :: string
  rq_uri :: string
  rq_path :: string
  rq_host :: string
  rq_header :: header
  rq_close :: bool
  rq_basic :: "(string \<times> string) option" \<comment> \<open>what \<open>BasicAuth\<close> returns\<close>

definition is_upgrade :: "request \<Rightarrow> bool" where
  "is_upgrade r =
     (let c = header_get (rq_header r) ''Connection''
      in if \<not> equal_fold c ''upgrade'' \<and> ''upgrade'' \<notin> set (map trim_space (split_byte (to_lower c) CHR '',''))
         then False
         else header_get (rq_header r) ''Upgrade'' \<noteq> [])"

lemma not_upgrade_close:
  "header_get (rq_header r) ''Connection'' = ''close'' \<Longrightarrow> \<not> is_upgrade r"
proof -
  have "\<not> equal_fold ''close'' ''upgrade''" "''upgrade'' \<notin> set (map trim_space (split_byte (to_lower ''close'') CHR '',''))"
    by code_simp+
  then show "header_get (rq_header r) ''Connection'' = ''close'' \<Longrightarrow> \<not> is_upgrade r"
    by (simp add: is_upgrade_def)
qed

subsection \<open>Answers\<close>

text \<open>An answer of the router itself: what it hands to the response writer, with the number of flushes.\<close>

record answer =
  an_status :: nat
  an_header :: header
  an_body :: string
  an_flushes :: nat

definition http_error :: "string \<Rightarrow> nat \<Rightarrow> header \<Rightarrow> answer" where
  "http_error msg st h =
     \<lparr>an_status = st,
      an_header = header_set ''X-Content-Type-Options'' ''nosniff''
        (header_set ''Content-Type'' ''text/plain; charset=utf-8'' (AList.delete ''Content-Length'' h)),
      an_body = msg @ [CHR 0x0A], an_flushes = 0\<rparr>"

subsection \<open>No header splitting\<close>

text \<open>Whatever a value contains, what is written for a field has no line break but those between lines.\<close>

lemma set_trim_blank: "set (trim_blank s) \<subseteq> set s"
  using set_dropWhileD unfolding trim_blank_def by (metis set_rev subsetI)

lemma clean_value_set: "c \<in> set (clean_value v) \<Longrightarrow> c \<in> set v \<and> code c \<noteq> 10 \<and> code c \<noteq> 13 \<or> c = CHR '' ''"
  using set_trim_blank unfolding clean_value_def by (fastforce split: if_splits)

lemma clean_value_no_break: "c \<in> set (clean_value v) \<Longrightarrow> code c \<noteq> 10 \<and> code c \<noteq> 13"
  using clean_value_set [of c v] by (auto simp: code_def)

end
