(* ===== verification/Url.thy ===== *)
theory Url
  imports GoStrings
begin

text \<open>
  What the client uses of \<open>net/url\<close>: whether \<open>Parse\<close> accepts a string, and the scheme and the host it finds
  there. The other fields of a \<open>URL\<close> are only checked for well-formed escapes.
\<close>

subsection \<open>Escapes\<close>

definition is_letter :: "char \<Rightarrow> bool" where
  "is_letter c \<longleftrightarrow> is_upper c \<or> is_lower c"

definition hex_digit :: "char \<Rightarrow> nat option" where
  "hex_digit c =
     (let n = code c
      in if is_digit c then Some (n - 48)
         else if 97 \<le> n \<and> n \<le> 102 then Some (n - 87)
         else if 65 \<le> n \<and> n \<le> 70 then Some (n - 55)
         else None)"

fun escapes_ok :: "string \<Rightarrow> bool" where
  "escapes_ok [] = True"
| "escapes_ok (c # s) =
     (if c = CHR ''%''
      then (case s of
              a # b # s' \<Rightarrow> hex_digit a \<noteq> None \<and> hex_digit b \<noteq> None \<and> escapes_ok s'
            | _ \<Rightarrow> False)
      else escapes_ok s)"

text \<open>A byte that may not stand for itself in a host.\<close>

definition escape_in_host :: "char \<Rightarrow> bool" where
  "escape_in_host c \<longleftrightarrow>
     code c < 128 \<and> \<not> (is_letter c \<or> is_digit c \<or> c \<in> set ''!$&()*+,;=:[]<>-_.~'' \<or> code c = 34 \<or> code c = 39)"

text \<open>\<open>unescape\<close> for a host or the zone of an address.\<close>

fun unescape_host :: "bool \<Rightarrow> string \<Rightarrow> string option" where
  "unescape_host zone [] = Some []"
| "unescape_host zone (c # s) =
     (if c = CHR ''%''
      then (case s of
              a # b # s' \<Rightarrow>
                (case (hex_digit a, hex_digit b) of
                   (Some x, Some y) \<Rightarrow>
                     (let v = char_of (16 * x + y) :: char;
                          percent = (a = CHR ''2'' \<and> b = CHR ''5'')
                      in if \<not> zone \<and> x < 8 \<and> \<not> percent then None
                         else if zone \<and> \<not> percent \<and> v \<noteq> CHR '' '' \<and> (escape_in_host v \<or> 128 \<le> code v) then None
                         else map_option ((#) v) (unescape_host zone s'))
                 | _ \<Rightarrow> None)
            | _ \<Rightarrow> None)
      else if escape_in_host c then None
      else map_option ((#) c) (unescape_host zone s))"

subsection \<open>The authority\<close>

definition cut :: "char \<Rightarrow> string \<Rightarrow> string \<times> string" where
  "cut c s = (takeWhile (\<lambda>x. x \<noteq> c) s, drop 1 (dropWhile (\<lambda>x. x \<noteq> c) s))"

definition valid_optional_port :: "string \<Rightarrow> bool" where
  "valid_optional_port s = (case s of [] \<Rightarrow> True | c # p \<Rightarrow> c = CHR '':'' \<and> list_all is_digit p)"

fun index_zone :: "string \<Rightarrow> nat option" where
  "index_zone [] = None"
| "index_zone (c # s) = (if has_prefix (c # s) ''%25'' then Some 0 else map_option Suc (index_zone s))"

definition parse_host :: "string \<Rightarrow> string option" where
  "parse_host h =
     (if has_prefix h ''[''
      then (case last_index_byte h CHR '']'' of
              None \<Rightarrow> None
            | Some i \<Rightarrow>
                if \<not> valid_optional_port (drop (i + 1) h) then None
                else (case index_zone (take i h) of
                        None \<Rightarrow> unescape_host False h
                      | Some z \<Rightarrow>
                          (case (unescape_host False (take z h), unescape_host True (drop z (take i h)),
                                 unescape_host False (drop i h)) of
                             (Some a, Some b, Some c) \<Rightarrow> Some (a @ b @ c)
                           | _ \<Rightarrow> None)))
      else (case last_index_byte h CHR '':'' of
              Some i \<Rightarrow> if valid_optional_port (drop i h) then unescape_host False h else None
            | None \<Rightarrow> unescape_host False h))"

definition valid_userinfo :: "string \<Rightarrow> bool" where
  "valid_userinfo s = list_all (\<lambda>c. is_letter c \<or> is_digit c \<or> c \<in> set ''-._:~!$&()*+,;=%@'' \<or> code c = 39) s"

definition parse_authority :: "string \<Rightarrow> string option" where
  "parse_authority a =
     (case last_index_byte a CHR ''@'' of
        None \<Rightarrow> parse_host a
      | Some i \<Rightarrow>
          (case parse_host (drop (i + 1) a) of
             None \<Rightarrow> None
           | Some h \<Rightarrow>
               (let u = take i a
                in if valid_userinfo u \<and> escapes_ok (fst (cut CHR '':'' u)) \<and> escapes_ok (snd (cut CHR '':'' u))
                   then Some h else None)))"

subsection \<open>Paths of requests\<close>

text \<open>The path in a request URI with its escapes resolved.\<close>

fun unescape_path :: "string \<Rightarrow> string" where
  "unescape_path [] = []"
| "unescape_path (c # s) =
     (case (c = CHR ''%'', s) of
        (True, a # b # s') \<Rightarrow>
          (case (hex_digit a, hex_digit b) of
             (Some x, Some y) \<Rightarrow> char_of (16 * x + y) # unescape_path s'
           | _ \<Rightarrow> c # unescape_path s)
      | _ \<Rightarrow> c # unescape_path s)"

text \<open>\<open>other\<close> stands for the URIs that are neither a path nor a star.\<close>

definition uri_path :: "(string \<Rightarrow> string) \<Rightarrow> string \<Rightarrow> string" where
  "uri_path other u =
     (if has_prefix u ''/'' then unescape_path (fst (cut CHR ''?'' u)) else if u = ''*'' then u else other u)"

subsection \<open>The URL\<close>

record url =
  url_scheme :: string
  url_host :: string

text \<open>\<open>None\<close>: the scheme is missing in front of a colon.\<close>

definition get_scheme :: "string \<Rightarrow> (string \<times> string) option" where
  "get_scheme raw =
     (let is_scheme = (\<lambda>c. is_letter c \<or> is_digit c \<or> c \<in> set ''+-.'');
          s = takeWhile is_scheme raw;
          rest = dropWhile is_scheme raw
      in case raw of
           [] \<Rightarrow> Some ([], raw)
         | c # _ \<Rightarrow>
             if c = CHR '':'' then None
             else if \<not> is_letter c then Some ([], raw)
             else (case rest of
                     [] \<Rightarrow> Some ([], raw)
                   | d # r \<Rightarrow> if d = CHR '':'' then Some (s, r) else Some ([], raw)))"

definition url_parse :: "string \<Rightarrow> url option" where
  "url_parse raw0 =
     (let (raw, frag) = cut CHR ''#'' raw0
      in if list_ex (\<lambda>c. code c < 32 \<or> code c = 127) raw \<or> \<not> escapes_ok frag then None
         else if raw = ''*'' then Some \<lparr>url_scheme = [], url_host = []\<rparr>
         else (case get_scheme raw of
                 None \<Rightarrow> None
               | Some (s, rest0) \<Rightarrow>
                   (let scheme = to_lower s;
                        rest = fst (cut CHR ''?'' rest0);
                        no_host = Some \<lparr>url_scheme = scheme, url_host = []\<rparr>
                    in if \<not> has_prefix rest ''/'' \<and> scheme \<noteq> [] then no_host
                       else if \<not> has_prefix rest ''/'' \<and> CHR '':'' \<in> set (fst (cut CHR ''/'' rest)) then None
                       else if (scheme \<noteq> [] \<or> \<not> has_prefix rest ''///'') \<and> has_prefix rest ''//'' then
                         (let auth = takeWhile (\<lambda>c. c \<noteq> CHR ''/'') (drop 2 rest);
                              path = dropWhile (\<lambda>c. c \<noteq> CHR ''/'') (drop 2 rest)
                          in case parse_authority auth of
                               None \<Rightarrow> None
                             | Some h \<Rightarrow> if escapes_ok path then Some \<lparr>url_scheme = scheme, url_host = h\<rparr> else None)
                       else if escapes_ok rest then no_host else None)))"

subsection \<open>Plain hosts\<close>

text \<open>A host or host and port of ordinary characters behind \<open>http://\<close> parses to itself.\<close>

definition plain_host :: "string \<Rightarrow> bool" where
  "plain_host h \<longleftrightarrow> list_all (\<lambda>c. is_letter c \<or> is_digit c \<or> c = CHR ''-'' \<or> c = CHR ''.'') h"

lemma plain_byte:
  assumes "is_letter c \<or> is_digit c \<or> c = CHR ''-'' \<or> c = CHR ''.''"
  shows "c \<noteq> CHR ''%''" "c \<noteq> CHR ''@''" "c \<noteq> CHR ''/''" "c \<noteq> CHR ''?''" "c \<noteq> CHR ''#''" "c \<noteq> CHR '':''" "c \<noteq> CHR ''[''"
    "\<not> escape_in_host c" "32 \<le> code c" "code c \<noteq> 127"
  using assms by (auto simp: escape_in_host_def is_letter_def is_digit_def is_upper_def is_lower_def code_def)

lemma cut_absent [simp]: "c \<notin> set s \<Longrightarrow> cut c s = (s, [])"
  unfolding cut_def by (metis (mono_tags) drop_Nil dropWhile_eq_Nil_conv takeWhile_eq_all_conv)

lemma unescape_host_plain:
  "\<forall>c \<in> set h. c \<noteq> CHR ''%'' \<and> \<not> escape_in_host c \<Longrightarrow> unescape_host zone h = Some h"
  by (induction h) auto

definition plain_host_port :: "string \<Rightarrow> string \<Rightarrow> string" where
  "plain_host_port h p = h @ CHR '':'' # p"

lemma plain_authority_bytes:
  assumes "plain_host h" "list_all is_digit p" "c \<in> set (plain_host_port h p)"
  shows "c \<noteq> CHR ''%''" "c \<noteq> CHR ''@''" "c \<noteq> CHR ''/''" "c \<noteq> CHR ''?''" "c \<noteq> CHR ''#''" "c \<noteq> CHR ''[''"
    "\<not> escape_in_host c" "32 \<le> code c" "code c \<noteq> 127"
proof -
  have colon: "\<not> escape_in_host CHR '':''" "32 \<le> code CHR '':''" "code CHR '':'' \<noteq> 127"
    by (simp_all add: escape_in_host_def code_def)
  have "c = CHR '':'' \<or> is_letter c \<or> is_digit c \<or> c = CHR ''-'' \<or> c = CHR ''.''"
    using assms by (auto simp: plain_host_port_def plain_host_def list_all_iff)
  then show "c \<noteq> CHR ''%''" "c \<noteq> CHR ''@''" "c \<noteq> CHR ''/''" "c \<noteq> CHR ''?''" "c \<noteq> CHR ''#''" "c \<noteq> CHR ''[''"
    "\<not> escape_in_host c" "32 \<le> code c" "code c \<noteq> 127"
    using plain_byte [of c] colon by (elim disjE; simp)+
qed

lemma parse_authority_plain:
  assumes "plain_host h" "list_all is_digit p"
  shows "parse_authority (plain_host_port h p) = Some (plain_host_port h p)"
proof -
  let ?a = "plain_host_port h p"
  have "CHR ''@'' \<notin> set ?a" using plain_authority_bytes(2) [OF assms] by blast
  moreover have "\<not> has_prefix ?a ''[''"
    using plain_authority_bytes(6) [OF assms] unfolding has_prefix_iff by (metis append_Cons list.set_intros(1))
  moreover have "CHR '':'' \<notin> set p" using assms(2) by (auto simp: list_all_iff is_digit_def code_def)
  then have "last_index_byte ?a CHR '':'' = Some (length h)" by (simp add: plain_host_port_def)
  moreover have "valid_optional_port (drop (length h) ?a)"
    using assms(2) by (simp add: plain_host_port_def valid_optional_port_def)
  moreover have "unescape_host False ?a = Some ?a"
    using plain_authority_bytes(1,7) [OF assms] by (intro unescape_host_plain) blast
  ultimately show ?thesis by (simp add: parse_authority_def parse_host_def)
qed

lemma url_parse_plain:
  assumes "plain_host h" "list_all is_digit p"
  shows "url_parse (''http://'' @ plain_host_port h p) = Some \<lparr>url_scheme = ''http'', url_host = plain_host_port h p\<rparr>"
proof -
  let ?a = "plain_host_port h p"
  note bytes = plain_authority_bytes [OF assms]
  have absent: "CHR ''#'' \<notin> set (''http://'' @ ?a)" "CHR ''?'' \<notin> set (''//'' @ ?a)"
    using bytes(4,5) by auto
  have ctl: "\<not> list_ex (\<lambda>c. code c < 32 \<or> code c = 127) (''http://'' @ ?a)"
    using bytes(8,9) by (fastforce simp: list_ex_iff code_def)
  have slash: "takeWhile (\<lambda>c. c \<noteq> CHR ''/'') ?a = ?a" "dropWhile (\<lambda>c. c \<noteq> CHR ''/'') ?a = []"
    using bytes(3) by (auto simp: takeWhile_eq_all_conv dropWhile_eq_Nil_conv)
  have scheme: "get_scheme (''http://'' @ ?a) = Some (''http'', ''//'' @ ?a)"
    by (simp add: get_scheme_def Let_def is_letter_def is_upper_def is_lower_def is_digit_def code_def)
  have pre: "has_prefix (''//'' @ ?a) ''/''" "has_prefix (''//'' @ ?a) ''//''" "''http://'' @ ?a \<noteq> ''*''" "to_lower ''http'' = ''http''"
    by (simp_all add: has_prefix_def ascii_lower_id is_upper_def code_def)
  show ?thesis
    using absent ctl scheme pre unfolding url_parse_def
    by (simp add: Let_def slash parse_authority_plain [OF assms])
qed

end
