(* ===== verification/ProxyClient.thy ===== *)
theory ProxyClient
  imports RouterClient Http Url
begin

text \<open>
  The proxy mode of a client (\<open>client/proxy.go\<close>): the target it is built for, the address it dials, and one
  forwarded request with every way it can end.
\<close>

subsection \<open>The client\<close>

record proxy_client =
  pc_config :: client_config
  pc_target :: url
  pc_host_rewrite :: bool
  pc_dial_timeout :: duration

datatype proxy_error = ParseTarget | UnsupportedScheme string | MissingHost | BadConfig client_error

definition new_proxy :: "client_config \<Rightarrow> string \<Rightarrow> proxy_error + proxy_client" where
  "new_proxy cfg target =
     (case url_parse target of
        None \<Rightarrow> Inl ParseTarget
      | Some u \<Rightarrow>
          if url_scheme u \<notin> set [''http'', ''https'', ''ws'', ''wss''] then Inl (UnsupportedScheme (url_scheme u))
          else if url_host u = [] then Inl MissingHost
          else (case new_client cfg of
                  Inl e \<Rightarrow> Inl (BadConfig e)
                | Inr c \<Rightarrow> Inr \<lparr>pc_config = c, pc_target = u, pc_host_rewrite = False, pc_dial_timeout = 5 * second\<rparr>))"

definition default_port :: "string \<Rightarrow> string" where
  "default_port scheme = (if scheme = ''https'' \<or> scheme = ''wss'' then ''443'' else ''80'')"

definition dial_addr :: "proxy_client \<Rightarrow> string" where
  "dial_addr pc =
     (let addr = url_host (pc_target pc)
      in if CHR '':'' \<notin> set addr then addr @ '':'' @ default_port (url_scheme (pc_target pc)) else addr)"

definition use_tls :: "proxy_client \<Rightarrow> bool" where
  "use_tls pc \<longleftrightarrow> url_scheme (pc_target pc) = ''https'' \<or> url_scheme (pc_target pc) = ''wss''"

subsection \<open>One request\<close>

text \<open>The request as it is written to the target.\<close>

definition proxy_request :: "proxy_client \<Rightarrow> request \<Rightarrow> request" where
  "proxy_request pc r =
     (let r1 = (if pc_host_rewrite pc then r\<lparr>rq_host := url_host (pc_target pc)\<rparr> else r)
      in r1\<lparr>rq_header := header_set ''Connection'' ''close'' (rq_header r1), rq_close := True\<rparr>)"

definition proxy_bad_gateway :: "writer \<Rightarrow> writer" where
  "proxy_bad_gateway w =
     (let body = ''bad gateway: upstream unreachable'' @ [CHR 0x0A]
      in snd (conn_write
           (''HTTP/1.1 502 Bad Gateway'' @ crlf @ ''Content-Length: '' @ format_nat (length body) @ crlf @
            ''Content-Type: text/plain; charset=utf-8'' @ crlf @ ''Connection: close'' @ crlf @ crlf @ body) w))"

text \<open>
  From the public side to the target: what the reader had buffered, then the rest of the stream. A failed write
  of the buffered bytes ends the copy.
\<close>

definition copy_upstream :: "string \<Rightarrow> string \<Rightarrow> writer \<Rightarrow> writer" where
  "copy_upstream buffered more_bytes conn =
     (if buffered \<noteq> []
      then (case conn_write buffered conn of
              (Some _, conn1) \<Rightarrow> conn1
            | (None, conn1) \<Rightarrow> snd (conn_write more_bytes conn1))
      else snd (conn_write more_bytes conn))"

text \<open>
  What one stream meets: how reading the request ends (the flag of an error tells whether it was the end
  of the stream, which is not logged), the dial, the bytes that the request takes on the wire, the bytes
  that follow it in the reader and on the stream, and what the target sends back. A request that cannot be
  written has no bytes.
\<close>

record proxy_world =
  pw_request :: "bool + request"
  pw_dial :: "string \<Rightarrow> bool \<Rightarrow> string option"
  pw_wire :: "request \<Rightarrow> string option"
  pw_upstream :: writer
  pw_buffered :: string
  pw_stream :: string
  pw_reply :: string

datatype proxy_end =
    NoRequest bool \<comment> \<open>whether a line was logged\<close>
  | Unreachable string
  | RequestLost
  | Proxied request

text \<open>How it ended, what the target has received, and the public stream afterwards.\<close>

definition proxy_serve :: "proxy_client \<Rightarrow> proxy_world \<Rightarrow> writer \<Rightarrow> proxy_end \<times> writer \<times> writer" where
  "proxy_serve pc w stream =
     (case pw_request w of
        Inl eof \<Rightarrow> (NoRequest (\<not> eof), pw_upstream w, stream)
      | Inr req \<Rightarrow>
          (case pw_dial w (dial_addr pc) (use_tls pc) of
             Some e \<Rightarrow> (Unreachable (dial_addr pc), pw_upstream w, proxy_bad_gateway stream)
           | None \<Rightarrow>
               (let r = proxy_request pc req
                in case pw_wire w r of
                    None \<Rightarrow> (RequestLost, pw_upstream w, stream)
                  | Some bytes \<Rightarrow>
                      (case conn_write bytes (pw_upstream w) of
                         (Some e, conn) \<Rightarrow> (RequestLost, conn, stream)
                       | (None, conn) \<Rightarrow>
                           (Proxied r, copy_upstream (pw_buffered w) (pw_stream w) conn,
                            snd (conn_write (pw_reply w) stream))))))"

subsection \<open>Properties\<close>

lemma proxy_request_header:
  "header_get (rq_header (proxy_request pc r)) j = (if j = ''Connection'' then ''close'' else header_get (rq_header r) j)"
  by (simp add: proxy_request_def Let_def)

text \<open>
  What a target receives of a request: the same request with \<open>Connection: close\<close>, every other header
  untouched, under the target's host if host rewriting is on. So it is never an upgrade for the target,
  although the documentation promises WebSockets in this mode.
\<close>

lemma proxy_breaks_upgrade:
  assumes "proxy_serve pc w stream = (Proxied r', up, down)"
  shows "\<exists>r. pw_request w = Inr r \<and> r' = proxy_request pc r \<and> \<not> is_upgrade r' \<and>
    (\<forall>j. header_get (rq_header r') j = (if j = ''Connection'' then ''close'' else header_get (rq_header r) j)) \<and>
    rq_host r' = (if pc_host_rewrite pc then url_host (pc_target pc) else rq_host r)"
proof -
  obtain r where r: "pw_request w = Inr r" "r' = proxy_request pc r"
    using assms by (auto simp: proxy_serve_def Let_def split: sum.splits option.splits prod.splits)
  have "\<not> is_upgrade r'"
    by (rule not_upgrade_close) (simp add: r(2) proxy_request_header)
  with r show ?thesis
    by (simp add: proxy_request_header) (simp add: proxy_request_def Let_def)
qed

text \<open>
  A target that is an IPv6 address gets no default port, because its own colons are taken for one: the client
  is built without an error and then dials an address without a port.
\<close>

lemma ipv6_target_without_port:
  assumes "new_client cfg = Inr c"
  shows "\<exists>pc. new_proxy cfg ''http://[::1]'' = Inr pc \<and> dial_addr pc = ''[::1]''"
proof -
  have "url_parse ''http://[::1]'' = Some \<lparr>url_scheme = ''http'', url_host = ''[::1]''\<rparr>" by code_simp
  with assms show ?thesis by (simp add: new_proxy_def dial_addr_def)
qed

subsection \<open>A concrete client\<close>

definition demo_proxy :: proxy_client where
  "demo_proxy = \<lparr>pc_config = demo_client, pc_target = \<lparr>url_scheme = ''ws'', url_host = ''localhost:8080''\<rparr>,
     pc_host_rewrite = True, pc_dial_timeout = 5 * second\<rparr>"

definition demo_upgrade :: request where
  "demo_upgrade = \<lparr>rq_method = ''GET'', rq_uri = ''/ws'', rq_path = ''/ws'', rq_host = ''foo.router.com'',
     rq_header = [(''Connection'', [''Upgrade'']), (''Upgrade'', [''websocket''])], rq_close = False, rq_basic = None\<rparr>"

definition demo_world :: proxy_world where
  "demo_world = \<lparr>pw_request = Inr demo_upgrade, pw_dial = (\<lambda>_ _. None), pw_wire = (\<lambda>r. Some (rq_uri r)),
     pw_upstream = \<lparr>sent = [], room = 100, failure = Timeout\<rparr>, pw_buffered = [], pw_stream = [], pw_reply = []\<rparr>"

lemma demo_upgrade_is: "is_upgrade demo_upgrade"
  by code_simp

lemma demo_proxied: "fst (proxy_serve demo_proxy demo_world w) = Proxied (proxy_request demo_proxy demo_upgrade)"
  by (simp add: proxy_serve_def demo_world_def conn_write_def Let_def)
    (simp add: proxy_request_def demo_proxy_def demo_upgrade_def Let_def)

lemma proxy_breaks_upgrade_example:
  "is_upgrade demo_upgrade \<and> \<not> is_upgrade (proxy_request demo_proxy demo_upgrade)"
proof -
  obtain up down where
    "proxy_serve demo_proxy demo_world \<lparr>sent = [], room = 9, failure = Timeout\<rparr>
      = (Proxied (proxy_request demo_proxy demo_upgrade), up, down)"
    using demo_proxied by (metis prod.collapse)
  from proxy_breaks_upgrade [OF this] demo_upgrade_is show ?thesis by blast
qed

end
