(* ===== verification/MimeHeader.thy ===== *)
theory MimeHeader
  imports Http
begin

text \<open>
  A header on the wire, as \<open>net/http\<close> reads it: lines, continued lines, fields with canonical names; and the
  round trip of what \<open>Header.Write\<close> writes. Requests and responses share it.
\<close>

subsection \<open>Lines\<close>

text \<open>A line ends with a line feed; one carriage return before it is dropped.\<close>

definition read_line :: "string \<Rightarrow> (string \<times> string) option" where
  "read_line s =
     (case index_byte s (CHR 0x0A) of
        None \<Rightarrow> None
      | Some i \<Rightarrow> Some (trim_suffix (take i s) [CHR 0x0D], drop (Suc i) s))"

lemma read_line_shorter: "read_line s = Some (l, r) \<Longrightarrow> length r < length s"
  by (auto simp: read_line_def elim!: index_byte_SomeE split: option.splits)

text \<open>The lines up to the first empty one.\<close>

function header_lines :: "string \<Rightarrow> (string list \<times> string) option" where
  "header_lines s =
     (case read_line s of
        None \<Rightarrow> None
      | Some (l, r) \<Rightarrow> if l = [] then Some ([], r) else map_option (apfst ((#) l)) (header_lines r))"
  by pat_completeness auto
termination by (relation "measure length") (auto dest: read_line_shorter)

declare header_lines.simps [simp del]

text \<open>A line that starts with a blank goes on with the one before it.\<close>

definition continues :: "string \<Rightarrow> bool" where
  "continues l \<longleftrightarrow> l \<noteq> [] \<and> is_blank (hd l)"

fun join_lines :: "string \<Rightarrow> string list \<Rightarrow> string list" where
  "join_lines acc [] = [acc]"
| "join_lines acc (l # ls) =
     (if continues l then join_lines (acc @ '' '' @ trim_blank l) ls else acc # join_lines (trim_blank l) ls)"

subsection \<open>Header fields\<close>

definition cut_byte :: "string \<Rightarrow> char \<Rightarrow> (string \<times> string) option" where
  "cut_byte s c = map_option (\<lambda>i. (take i s, drop (Suc i) s)) (index_byte s c)"

text \<open>Upper case at the start and after a dash, lower case elsewhere; a name with a blank is left as it is.\<close>

definition ascii_upper :: "char \<Rightarrow> char" where
  "ascii_upper c = (if is_lower c then char_of (code c - 32) else c)"

fun canonical_case :: "bool \<Rightarrow> string \<Rightarrow> string" where
  "canonical_case up [] = []"
| "canonical_case up (c # s) = (if up then ascii_upper c else ascii_lower c) # canonical_case (c = CHR ''-'') s"

definition canonical_key :: "string \<Rightarrow> string option" where
  "canonical_key k =
     (if k = [] \<or> \<not> list_all (\<lambda>c. token_byte c \<or> c = CHR '' '') k then None
      else if CHR '' '' \<in> set k then Some k
      else Some (canonical_case True k))"

definition value_byte :: "char \<Rightarrow> bool" where
  "value_byte c \<longleftrightarrow> code c = 9 \<or> 32 \<le> code c \<and> code c \<noteq> 127"

definition parse_field :: "string \<Rightarrow> (string \<times> string) option" where
  "parse_field l =
     (case cut_byte l CHR '':'' of
        None \<Rightarrow> None
      | Some (k, v) \<Rightarrow>
          (case canonical_key k of
             None \<Rightarrow> None
           | Some key \<Rightarrow> if list_all value_byte v then Some (key, dropWhile is_blank v) else None))"

definition header_add :: "string \<times> string \<Rightarrow> header \<Rightarrow> header" where
  "header_add f h = AList.update (fst f) ((case map_of h (fst f) of Some vs \<Rightarrow> vs | None \<Rightarrow> []) @ [snd f]) h"

fun parse_fields :: "string list \<Rightarrow> header \<Rightarrow> header option" where
  "parse_fields [] h = Some h"
| "parse_fields (l # ls) h = (case parse_field l of None \<Rightarrow> None | Some f \<Rightarrow> parse_fields ls (header_add f h))"

definition read_mime_header :: "string \<Rightarrow> (header \<times> string) option" where
  "read_mime_header s =
     (case header_lines s of
        None \<Rightarrow> None
      | Some ([], r) \<Rightarrow> Some ([], r)
      | Some (l # ls, r) \<Rightarrow>
          if continues l then None
          else map_option (\<lambda>h. (h, r)) (parse_fields (join_lines (trim_blank l) ls) []))"

subsection \<open>Reading what was written: lines\<close>

lemma trim_suffix_cr [simp]: "trim_suffix (l @ [CHR 0x0D]) [CHR 0x0D] = l"
  by (rule trim_suffix_append)

lemma read_line_crlf: "CHR 0x0A \<notin> set l \<Longrightarrow> read_line (l @ crlf @ r) = Some (l, r)"
  using index_byte_first [of "CHR 0x0A" "l @ [CHR 0x0D]" r] by (simp add: read_line_def crlf_def)

lemma header_lines_append:
  "\<forall>l \<in> set ls. l \<noteq> [] \<and> CHR 0x0A \<notin> set l \<Longrightarrow>
   header_lines (concat (map (\<lambda>l. l @ crlf) ls) @ crlf @ r) = Some (ls, r)"
proof (induction ls)
  case Nil
  then show ?case using read_line_crlf [of "[]" r] by (simp add: header_lines.simps [of "crlf @ r"])
next
  case (Cons l ls)
  then have "read_line (l @ crlf @ concat (map (\<lambda>l. l @ crlf) ls) @ crlf @ r)
      = Some (l, concat (map (\<lambda>l. l @ crlf) ls) @ crlf @ r)"
    by (intro read_line_crlf) simp
  with Cons show ?case by (subst header_lines.simps) simp
qed

lemma join_lines_plain:
  "\<forall>l \<in> set ls. \<not> continues l \<Longrightarrow> join_lines acc ls = acc # map trim_blank ls"
  by (induction ls arbitrary: acc) auto

subsection \<open>Fields\<close>

definition good_name :: "string \<Rightarrow> bool" where
  "good_name k \<longleftrightarrow> valid_field_name k \<and> canonical_case True k = k"

definition good_value :: "string \<Rightarrow> bool" where
  "good_value v \<longleftrightarrow> list_all (\<lambda>c. value_byte c \<or> c = CHR 0x0D \<or> c = CHR 0x0A) v"

lemma token_byte_plain: "token_byte c \<Longrightarrow> c \<noteq> CHR '':'' \<and> \<not> is_blank c \<and> c \<noteq> CHR 0x0A \<and> c \<noteq> CHR '' ''"
  by (auto simp: token_byte_def is_upper_def is_lower_def is_digit_def is_blank_def code_def)

lemma good_name_key: "good_name k \<Longrightarrow> canonical_key k = Some k"
  using token_byte_plain
  by (fastforce simp: good_name_def valid_field_name_def canonical_key_def list_all_iff)

lemma trim_blank_ends: "trim_blank s = [] \<or> \<not> is_blank (hd (trim_blank s)) \<and> \<not> is_blank (last (trim_blank s))"
proof -
  let ?t = "dropWhile is_blank s"
  have "\<not> is_blank (last (trim_blank s))" if "trim_blank s \<noteq> []"
    using that hd_dropWhile [of is_blank "rev ?t"] by (simp add: trim_blank_def last_rev)
  moreover have "\<not> is_blank (hd (trim_blank s))" if "trim_blank s \<noteq> []"
  proof -
    have t: "?t \<noteq> []" using that unfolding trim_blank_def by force
    then have h: "\<not> is_blank (hd ?t)" by (rule hd_dropWhile)
    have "?t = trim_blank s @ rev (takeWhile is_blank (rev ?t))"
      by (metis rev_append rev_rev_ident takeWhile_dropWhile_id trim_blank_def)
    then have "hd ?t = hd (trim_blank s)" using that by (metis hd_append2)
    with h show ?thesis by simp
  qed
  ultimately show ?thesis by blast
qed

lemma trim_blank_id: "s = [] \<or> \<not> is_blank (hd s) \<and> \<not> is_blank (last s) \<Longrightarrow> trim_blank s = s"
proof (cases "s = []")
  case False
  assume "s = [] \<or> \<not> is_blank (hd s) \<and> \<not> is_blank (last s)"
  with False obtain a t where s: "s = a # t" "\<not> is_blank a" "\<not> is_blank (last s)" by (cases s) auto
  then obtain b u where r: "rev s = b # u" "\<not> is_blank b" by (metis False last_rev list.exhaust_sel list.sel(1) rev_is_Nil_conv rev_rev_ident)
  have "dropWhile is_blank s = s" using s by simp
  then have "trim_blank s = rev (dropWhile is_blank (rev s))" by (simp add: trim_blank_def)
  also have "\<dots> = rev (rev s)" using r(2) unfolding r(1) by simp
  also have "\<dots> = s" by simp
  finally show ?thesis .
qed (simp add: trim_blank_def)

text \<open>The line of a field: its name, a colon, a blank and the cleaned value; trimming takes the blank when there is no value.\<close>

definition field_line :: "string \<times> string \<Rightarrow> string" where
  "field_line f = fst f @ '': '' @ clean_value (snd f)"

lemma trim_field_line:
  assumes "good_name k"
  shows "trim_blank (field_line (k, v)) = k @ CHR '':'' # (if clean_value v = [] then [] else CHR '' '' # clean_value v)"
proof -
  obtain a t where k: "k = a # t" "\<not> is_blank a"
    using assms token_byte_plain by (cases k) (auto simp: good_name_def valid_field_name_def)
  show ?thesis
  proof (cases "clean_value v = []")
    case True
    have "trim_blank (k @ '': '') = k @ '':''"
      using k by (simp add: trim_blank_def is_blank_def code_def)
    with True show ?thesis by (simp add: field_line_def)
  next
    case False
    then have "\<not> is_blank (last (clean_value v))" using trim_blank_ends unfolding clean_value_def by blast
    with False k show ?thesis by (subst trim_blank_id) (simp_all add: field_line_def)
  qed
qed

lemma clean_value_bytes: "good_value v \<Longrightarrow> list_all value_byte (clean_value v)"
proof -
  assume v: "good_value v"
  have "value_byte c" if "c \<in> set (clean_value v)" for c
    using clean_value_set [OF that] v by (auto simp: good_value_def list_all_iff value_byte_def code_def)
  then show ?thesis by (simp add: list_all_iff)
qed

lemma parse_field_line:
  assumes "good_name k" "good_value v"
  shows "parse_field (trim_blank (field_line (k, v))) = Some (k, clean_value v)"
proof -
  have c: "CHR '':'' \<notin> set k" using assms(1) token_byte_plain by (auto simp: good_name_def valid_field_name_def list_all_iff)
  let ?w = "if clean_value v = [] then [] else CHR '' '' # clean_value v"
  have "cut_byte (trim_blank (field_line (k, v))) CHR '':'' = Some (k, ?w)"
    unfolding trim_field_line [OF assms(1)] cut_byte_def using index_byte_first [OF c, of ?w] by simp
  moreover have "dropWhile is_blank ?w = clean_value v"
    using trim_blank_ends [of "map (\<lambda>c. if code c = 10 \<or> code c = 13 then CHR '' '' else c) v"]
    by (cases "clean_value v") (auto simp: clean_value_def is_blank_def code_def)
  moreover have "list_all value_byte ?w" using clean_value_bytes [OF assms(2)] by (simp add: value_byte_def code_def)
  ultimately show ?thesis by (simp add: parse_field_def good_name_key [OF assms(1)])
qed

lemma field_line_plain:
  assumes "good_name k"
  shows "field_line (k, v) \<noteq> [] \<and> CHR 0x0A \<notin> set (field_line (k, v)) \<and> \<not> continues (field_line (k, v))"
proof -
  obtain a t where k: "k = a # t" "\<not> is_blank a" "CHR 0x0A \<notin> set k"
    using assms token_byte_plain by (cases k) (auto simp: good_name_def valid_field_name_def list_all_iff)
  moreover have "CHR 0x0A \<notin> set (clean_value v)" using clean_value_no_break by (fastforce simp: code_def)
  ultimately show ?thesis by (auto simp: field_line_def continues_def)
qed

subsection \<open>Headers\<close>

text \<open>A header with at least one value for each name, all of them fit to be sent.\<close>

definition good_header :: "header \<Rightarrow> bool" where
  "good_header h \<longleftrightarrow>
     distinct (map fst h) \<and> (\<forall>(k, vs) \<in> set h. good_name k \<and> vs \<noteq> [] \<and> list_all good_value vs)"

definition header_fields :: "header \<Rightarrow> (string \<times> string) list" where
  "header_fields h = concat (map (\<lambda>(k, vs). map (Pair k) vs) h)"

definition good_field :: "string \<times> string \<Rightarrow> bool" where
  "good_field f \<longleftrightarrow> good_name (fst f) \<and> good_value (snd f)"

definition field_lines :: "(string \<times> string) list \<Rightarrow> string" where
  "field_lines fs = concat (map (\<lambda>f. field_line f @ crlf) fs)"

lemma good_header_sort: "good_header h \<Longrightarrow> good_header (sort_key fst h)"
  by (auto simp: good_header_def distinct_map)

lemma fields_good: "good_header h \<Longrightarrow> f \<in> set (header_fields h) \<Longrightarrow> good_field f"
  by (fastforce simp: good_header_def header_fields_def good_field_def list_all_iff)

lemma write_fields: "good_header h \<Longrightarrow> concat (map write_field h) = field_lines (header_fields h)"
proof (induction h)
  case (Cons f h)
  obtain k vs where f: "f = (k, vs)" by (cases f)
  with Cons.prems have "good_header h" "valid_field_name k" by (auto simp: good_header_def good_name_def)
  moreover from this(2) have "write_field f = field_lines (map (Pair k) vs)"
    by (simp add: f write_field_def field_lines_def field_line_def comp_def)
  ultimately show ?case using Cons.IH f by (simp add: header_fields_def field_lines_def)
qed (simp add: header_fields_def field_lines_def)

lemma parse_fields_written:
  "list_all good_field fs \<Longrightarrow>
   parse_fields (map trim_blank (map field_line fs)) h = Some (fold header_add (map (apsnd clean_value) fs) h)"
  by (induction fs arbitrary: h) (auto simp: parse_field_line good_field_def)

lemma header_add_map: "map_of (header_add (k, v) h) = (map_of h)(k \<mapsto> (case map_of h k of Some vs \<Rightarrow> vs | None \<Rightarrow> []) @ [v])"
  by (simp add: header_add_def update_conv')

lemma fold_header_add_distinct: "distinct (map fst h) \<Longrightarrow> distinct (map fst (fold header_add fs h))"
  by (induction fs arbitrary: h) (simp_all add: header_add_def distinct_update)

lemma fold_add_values:
  "vs \<noteq> [] \<Longrightarrow> map_of (fold header_add (map (Pair k) vs) h) =
     (map_of h)(k \<mapsto> (case map_of h k of Some us \<Rightarrow> us | None \<Rightarrow> []) @ vs)"
proof (induction vs arbitrary: h)
  case (Cons v vs)
  show ?case
  proof (cases "vs = []")
    case False
    from Cons.IH [OF False, of "header_add (k, v) h"] show ?thesis by (simp add: header_add_map fun_eq_iff)
  qed (simp add: header_add_map)
qed simp

lemma fold_fields:
  "distinct (map fst g) \<Longrightarrow> \<forall>(k, vs) \<in> set g. vs \<noteq> [] \<and> map_of h k = None \<Longrightarrow>
   map_of (fold header_add (header_fields g) h) = map_of h ++ map_of g"
proof (induction g arbitrary: h)
  case (Cons f g)
  obtain k vs where f: "f = (k, vs)" "vs \<noteq> []" using Cons.prems(2) by (cases f) auto
  let ?h = "fold header_add (map (Pair k) vs) h"
  have h: "map_of ?h = (map_of h)(k \<mapsto> vs)" using Cons.prems(2) f fold_add_values [OF f(2), of k h] by simp
  have "map_of (fold header_add (header_fields g) ?h) = map_of ?h ++ map_of g"
  proof (rule Cons.IH)
    show "distinct (map fst g)" using Cons.prems(1) by simp
    show "\<forall>(j, us) \<in> set g. us \<noteq> [] \<and> map_of ?h j = None"
    proof (intro ballI, clarify)
      fix j us
      assume j: "(j, us) \<in> set g"
      then have "us \<noteq> []" "map_of h j = None" using Cons.prems(2) by auto
      moreover have "j \<noteq> k" using j Cons.prems(1) f by force
      ultimately show "us \<noteq> [] \<and> map_of ?h j = None" by (simp add: h)
    qed
  qed
  moreover have "map_of g k = None" using Cons.prems(1) f by (simp add: map_of_eq_None_iff)
  ultimately show ?case using f h by (auto simp: header_fields_def map_add_def fun_eq_iff split: option.splits)
qed (simp add: header_fields_def)

definition clean_header :: "header \<Rightarrow> header" where
  "clean_header h = map (apsnd (map clean_value)) h"

lemma fields_clean: "map (apsnd clean_value) (header_fields h) = header_fields (clean_header h)"
  by (induction h) (auto simp: header_fields_def clean_header_def)

lemma clean_header_map: "map_of (clean_header h) k = map_option (map clean_value) (map_of h k)"
  by (induction h) (auto simp: clean_header_def)

lemma sort_key_map_of: "distinct (map fst h) \<Longrightarrow> map_of (sort_key fst h) = map_of h"
  by (intro map_of_inject_set [THEN iffD2]) (simp_all add: distinct_map)

text \<open>Lines of fields are read back field by field.\<close>

lemma read_field_lines:
  assumes "list_all good_field fs"
  shows "read_mime_header (field_lines fs @ crlf @ r) = Some (fold header_add (map (apsnd clean_value) fs) [], r)"
proof -
  have plain: "\<forall>l \<in> set (map field_line fs). l \<noteq> [] \<and> CHR 0x0A \<notin> set l" "\<forall>l \<in> set (map field_line fs). \<not> continues l"
    using assms field_line_plain by (auto simp: good_field_def list_all_iff)
  have "field_lines fs = concat (map (\<lambda>l. l @ crlf) (map field_line fs))" by (simp add: field_lines_def comp_def)
  then have lines: "header_lines (field_lines fs @ crlf @ r) = Some (map field_line fs, r)"
    using header_lines_append [OF plain(1)] by simp
  show ?thesis
  proof (cases "map field_line fs")
    case Nil
    with lines show ?thesis by (simp add: read_mime_header_def)
  next
    case (Cons l ls)
    have "join_lines (trim_blank l) ls = map trim_blank (map field_line fs)"
      using plain(2) Cons by (simp add: join_lines_plain)
    with parse_fields_written [OF assms] lines Cons plain(2) show ?thesis by (simp add: read_mime_header_def)
  qed
qed

lemma read_good_fields:
  assumes "good_header h"
  obtains h' where "read_mime_header (field_lines (header_fields h) @ crlf @ r) = Some (h', r)" "distinct (map fst h')"
    "map_of h' = (\<lambda>k. map_option (map clean_value) (map_of h k))"
proof -
  let ?h' = "fold header_add (header_fields (clean_header h)) []"
  have d: "distinct (map fst (clean_header h))" using assms by (simp add: good_header_def clean_header_def comp_def)
  have "list_all good_field (header_fields h)" using fields_good [OF assms] by (simp add: list_all_iff)
  then have "read_mime_header (field_lines (header_fields h) @ crlf @ r) = Some (?h', r)"
    by (simp add: read_field_lines fields_clean)
  moreover have "\<forall>(k, vs) \<in> set (clean_header h). vs \<noteq> []" using assms by (force simp: clean_header_def good_header_def)
  with fold_fields [OF d, of "[]"] have "map_of ?h' k = map_option (map clean_value) (map_of h k)" for k
    by (simp add: clean_header_map)
  moreover have "distinct (map fst ?h')" by (rule fold_header_add_distinct) simp
  ultimately show ?thesis using that by blast
qed

text \<open>What is read back of a header that was written: the same names, with the cleaned values.\<close>

lemma read_written_header:
  assumes "good_header h"
  obtains h' where "read_mime_header (write_header h @ crlf @ r) = Some (h', r)" "distinct (map fst h')"
    "map_of h' = (\<lambda>k. map_option (map clean_value) (map_of h k))"
proof -
  have s: "good_header (sort_key fst h)" by (rule good_header_sort [OF assms])
  then have "write_header h = field_lines (header_fields (sort_key fst h))" unfolding write_header_def by (rule write_fields)
  moreover have "map_of (sort_key fst h) = map_of h" using assms by (simp add: good_header_def sort_key_map_of)
  ultimately show ?thesis using that read_good_fields [OF s, of r] by metis
qed

end
