(* ===== verification/Responder.thy ===== *)
theory Responder
  imports Handshake Http
begin

text \<open>
  The handler side of a client (\<open>client/handler.go\<close>): the \<open>http.ResponseWriter\<close> that writes an HTTP/1.1
  response onto a raw stream, with its choice of framing, its chunked encoding, hijacking, and the errors of
  the connection below. A handler is the list of calls it makes.
\<close>

subsection \<open>\<open>bufio.Writer\<close>\<close>

text \<open>A buffer of 4096 bytes in front of a connection; the first error stays and stops all output.\<close>

record bufw =
  bw_conn :: writer
  bw_buf :: string
  bw_err :: "io_error option"

definition buf_size :: nat where
  "buf_size = 4096"

definition new_bufw :: "writer \<Rightarrow> bufw" where
  "new_bufw w = \<lparr>bw_conn = w, bw_buf = [], bw_err = None\<rparr>"

definition bufio_direct :: "string \<Rightarrow> bufw \<Rightarrow> bufw" where
  "bufio_direct p b = (case conn_write p (bw_conn b) of (e, w) \<Rightarrow> b\<lparr>bw_conn := w, bw_err := e\<rparr>)"

definition bufio_flush :: "bufw \<Rightarrow> bufw" where
  "bufio_flush b =
     (if bw_err b \<noteq> None \<or> bw_buf b = [] then b
      else (case conn_write (bw_buf b) (bw_conn b) of
              (None, w) \<Rightarrow> b\<lparr>bw_conn := w, bw_buf := []\<rparr>
            | (Some e, w) \<Rightarrow> b\<lparr>bw_conn := w, bw_buf := drop (room (bw_conn b)) (bw_buf b), bw_err := Some e\<rparr>))"

definition bufio_write :: "string \<Rightarrow> bufw \<Rightarrow> bufw" where
  "bufio_write p b =
     (let free = buf_size - length (bw_buf b)
      in if bw_err b \<noteq> None then b
         else if length p \<le> free then b\<lparr>bw_buf := bw_buf b @ p\<rparr>
         else if bw_buf b = [] then bufio_direct p b
         else (let b1 = bufio_flush (b\<lparr>bw_buf := bw_buf b @ take free p\<rparr>);
                   q = drop free p
               in if bw_err b1 \<noteq> None then b1
                  else if length q \<le> buf_size then b1\<lparr>bw_buf := bw_buf b1 @ q\<rparr>
                  else bufio_direct q b1))"

subsection \<open>The response writer\<close>

record stream_rw =
  rw_bw :: bufw
  rw_header :: header
  rw_status :: nat
  rw_wrote_header :: bool
  rw_chunked :: bool
  rw_hijacked :: bool
  rw_no_body :: bool

definition new_stream_rw :: "writer \<Rightarrow> stream_rw" where
  "new_stream_rw w =
     \<lparr>rw_bw = new_bufw w, rw_header = [], rw_status = 0, rw_wrote_header = False, rw_chunked = False,
      rw_hijacked = False, rw_no_body = False\<rparr>"

definition status_texts :: "(nat \<times> string) list" where
  "status_texts =
    [(100, ''Continue''), (101, ''Switching Protocols''), (102, ''Processing''), (103, ''Early Hints''),
     (200, ''OK''), (201, ''Created''), (202, ''Accepted''), (203, ''Non-Authoritative Information''),
     (204, ''No Content''), (205, ''Reset Content''), (206, ''Partial Content''), (207, ''Multi-Status''),
     (208, ''Already Reported''), (226, ''IM Used''), (300, ''Multiple Choices''), (301, ''Moved Permanently''),
     (302, ''Found''), (303, ''See Other''), (304, ''Not Modified''), (305, ''Use Proxy''),
     (307, ''Temporary Redirect''), (308, ''Permanent Redirect''), (400, ''Bad Request''), (401, ''Unauthorized''),
     (402, ''Payment Required''), (403, ''Forbidden''), (404, ''Not Found''), (405, ''Method Not Allowed''),
     (406, ''Not Acceptable''), (407, ''Proxy Authentication Required''), (408, ''Request Timeout''),
     (409, ''Conflict''), (410, ''Gone''), (411, ''Length Required''), (412, ''Precondition Failed''),
     (413, ''Request Entity Too Large''), (414, ''Request URI Too Long''), (415, ''Unsupported Media Type''),
     (416, ''Requested Range Not Satisfiable''), (417, ''Expectation Failed''), (418, ''I'm a teapot''),
     (421, ''Misdirected Request''), (422, ''Unprocessable Entity''), (423, ''Locked''), (424, ''Failed Dependency''),
     (425, ''Too Early''), (426, ''Upgrade Required''), (428, ''Precondition Required''), (429, ''Too Many Requests''),
     (431, ''Request Header Fields Too Large''), (451, ''Unavailable For Legal Reasons''),
     (500, ''Internal Server Error''), (501, ''Not Implemented''), (502, ''Bad Gateway''), (503, ''Service Unavailable''),
     (504, ''Gateway Timeout''), (505, ''HTTP Version Not Supported''), (506, ''Variant Also Negotiates''),
     (507, ''Insufficient Storage''), (508, ''Loop Detected''), (510, ''Not Extended''),
     (511, ''Network Authentication Required'')]"

definition status_text :: "nat \<Rightarrow> string" where
  "status_text sc = (case map_of status_texts sc of Some t \<Rightarrow> t | None \<Rightarrow> [])"

definition status_line :: "nat \<Rightarrow> string" where
  "status_line sc = ''HTTP/1.1 '' @ format_nat sc @ '' '' @ status_text sc @ crlf"

text \<open>
  Consecutive writes to the buffer are modelled as one write of their concatenation: the same bytes go
  out, and the same number of them when the connection breaks.
\<close>

definition on_bw :: "(bufw \<Rightarrow> bufw) \<Rightarrow> stream_rw \<Rightarrow> stream_rw" where
  "on_bw f s = s\<lparr>rw_bw := f (rw_bw s)\<rparr>"

definition set_rw_header :: "string \<Rightarrow> string \<Rightarrow> stream_rw \<Rightarrow> stream_rw" where
  "set_rw_header k v s = s\<lparr>rw_header := header_set k v (rw_header s)\<rparr>"

definition write_status :: "nat \<Rightarrow> stream_rw \<Rightarrow> stream_rw" where
  "write_status sc s =
     (if rw_wrote_header s \<or> rw_hijacked s then s
      else (let s1 = s\<lparr>rw_wrote_header := True, rw_status := sc\<rparr>;
                s2 = (if sc = 101 \<or> sc = 204 \<or> sc = 304 then s1\<lparr>rw_no_body := True\<rparr>
                      else if header_get (rw_header s1) ''Content-Length'' = [] \<and>
                              header_get (rw_header s1) ''Transfer-Encoding'' = []
                      then (set_rw_header ''Transfer-Encoding'' ''chunked'' s1)\<lparr>rw_chunked := True\<rparr>
                      else s1);
                s3 = set_rw_header ''Connection'' ''close'' s2
            in on_bw (bufio_write (status_line sc @ write_header (rw_header s3) @ crlf)) s3))"

text \<open>\<open>httputil.NewChunkedWriter\<close>: an empty write is no chunk, for it would be the last.\<close>

definition chunk :: "string \<Rightarrow> string" where
  "chunk p = (if p = [] then [] else format_hex (length p) @ crlf @ p @ crlf)"

datatype write_result = WriteAfterHijack | WriteErr io_error | Wrote nat

definition rw_write :: "string \<Rightarrow> stream_rw \<Rightarrow> write_result \<times> stream_rw" where
  "rw_write p s0 =
     (if rw_hijacked s0 then (WriteAfterHijack, s0)
      else (let s = (if \<not> rw_wrote_header s0 then write_status 200 s0 else s0)
            in if rw_no_body s then (Wrote 0, s)
               else (let s1 = on_bw (bufio_write (if rw_chunked s then chunk p else p)) s
                     in case bw_err (rw_bw s1) of
                          Some e \<Rightarrow> (WriteErr e, s1)
                        | None \<Rightarrow>
                            (let s2 = on_bw bufio_flush s1
                             in (case bw_err (rw_bw s2) of Some e \<Rightarrow> WriteErr e | None \<Rightarrow> Wrote (length p), s2)))))"

definition rw_flush :: "stream_rw \<Rightarrow> stream_rw" where
  "rw_flush s0 =
     (if rw_hijacked s0 then s0
      else on_bw bufio_flush (if \<not> rw_wrote_header s0 then write_status 200 s0 else s0))"

datatype hijack_result = AlreadyHijacked | HijackAfterHeader | HijackErr io_error | HijackOk

definition rw_hijack :: "stream_rw \<Rightarrow> hijack_result \<times> stream_rw" where
  "rw_hijack s =
     (if rw_hijacked s then (AlreadyHijacked, s)
      else if rw_wrote_header s then (HijackAfterHeader, s)
      else (let s1 = on_bw bufio_flush (s\<lparr>rw_hijacked := True\<rparr>)
            in (case bw_err (rw_bw s1) of Some e \<Rightarrow> HijackErr e | None \<Rightarrow> HijackOk, s1)))"

definition rw_finish :: "stream_rw \<Rightarrow> stream_rw" where
  "rw_finish s0 =
     (if rw_hijacked s0 then s0
      else (let s = (if \<not> rw_wrote_header s0 then write_status 200 s0 else s0);
                s1 = (if rw_chunked s then on_bw (bufio_write (''0'' @ crlf @ crlf)) s else s)
            in on_bw bufio_flush s1))"

subsection \<open>A handler's calls\<close>

datatype rw_op = SetHeader string string | WriteHeader nat | WriteBody string | FlushNow | HijackConn

fun rw_apply :: "rw_op \<Rightarrow> stream_rw \<Rightarrow> stream_rw" where
  "rw_apply (SetHeader k v) s = set_rw_header k v s"
| "rw_apply (WriteHeader sc) s = write_status sc s"
| "rw_apply (WriteBody p) s = snd (rw_write p s)"
| "rw_apply FlushNow s = rw_flush s"
| "rw_apply HijackConn s = snd (rw_hijack s)"

text \<open>
  \<open>Serve\<close> once the request has been read (\<open>None\<close>: it could not be). A handler makes its calls and returns or
  panics; nothing recovers a panic, which then ends the whole process (the flag) with what the buffer holds unsent.
\<close>

definition handler_serve :: "(request \<Rightarrow> rw_op list \<times> bool) \<Rightarrow> request option \<Rightarrow> writer \<Rightarrow> bool \<times> writer" where
  "handler_serve handler req w =
     (case req of
        None \<Rightarrow> (False, w)
      | Some r \<Rightarrow>
          (case handler r of (ops, panics) \<Rightarrow>
             let rw = fold rw_apply ops (new_stream_rw w)
             in (panics, bw_conn (rw_bw (if panics then rw else rw_finish rw)))))"

subsection \<open>Reading a chunked body\<close>

definition parse_hex :: "string \<Rightarrow> nat option" where
  "parse_hex s =
     (if s = [] then None
      else fold (\<lambda>c acc. case (acc, hex_val c) of (Some n, Some d) \<Rightarrow> Some (16 * n + d) | _ \<Rightarrow> None) s (Some 0))"

text \<open>The decoder of \<open>net/http\<close>: sizes in hexadecimal, each chunk followed by a line break, a chunk of size 0 last.\<close>

fun dechunk :: "nat \<Rightarrow> string \<Rightarrow> (string \<times> string) option" where
  "dechunk 0 s = None"
| "dechunk (Suc fuel) s =
     (case index_byte s (CHR 0x0D) of
        None \<Rightarrow> None
      | Some i \<Rightarrow>
          (case parse_hex (take i s) of
             None \<Rightarrow> None
           | Some n \<Rightarrow>
               (let r = drop (i + 2) s
                in if take 2 (drop i s) \<noteq> crlf then None
                   else if n = 0 then (if take 2 r = crlf then Some ([], drop 2 r) else None)
                   else if take 2 (drop n r) \<noteq> crlf then None
                   else map_option (apfst ((@) (take n r))) (dechunk fuel (drop (n + 2) r)))))"

subsection \<open>The bytes of a response\<close>

text \<open>All that was accepted so far: sent and still buffered.\<close>

definition bw_all :: "bufw \<Rightarrow> string" where
  "bw_all b = sent (bw_conn b) @ bw_buf b"

lemma conn_write_None: "conn_write p w = (None, w') \<Longrightarrow> sent w' = sent w @ p"
  by (auto simp: conn_write_def split: if_splits)

lemma bufio_direct_all: "bw_err (bufio_direct p b) = None \<Longrightarrow> bw_buf b = [] \<Longrightarrow> bw_all (bufio_direct p b) = bw_all b @ p"
  by (auto simp: bufio_direct_def bw_all_def conn_write_None split: prod.splits)

lemma bufio_flush_err: "bw_err (bufio_flush b) = None \<Longrightarrow> bw_err b = None"
  by (auto simp: bufio_flush_def split: if_splits)

lemma bufio_flush_all:
  "bw_err (bufio_flush b) = None \<Longrightarrow> bw_all (bufio_flush b) = bw_all b \<and> bw_buf (bufio_flush b) = []"
  by (auto simp: bufio_flush_def bw_all_def conn_write_None split: prod.splits option.splits if_splits)

lemma bw_all_buf: "bw_all (b\<lparr>bw_buf := bw_buf b @ x\<rparr>) = bw_all b @ x"
  by (simp add: bw_all_def)

lemma bufio_write_all:
  assumes "bw_err (bufio_write p b) = None"
  shows "bw_err b = None \<and> bw_all (bufio_write p b) = bw_all b @ p"
proof -
  let ?free = "buf_size - length (bw_buf b)"
  let ?b1 = "bufio_flush (b\<lparr>bw_buf := bw_buf b @ take ?free p\<rparr>)" and ?q = "drop ?free p"
  from assms have e: "bw_err b = None" by (cases "bw_err b") (simp_all add: bufio_write_def)
  consider (fits) "length p \<le> ?free" | (direct) "\<not> length p \<le> ?free" "bw_buf b = []"
    | (split) "\<not> length p \<le> ?free" "bw_buf b \<noteq> []" by blast
  then have "bw_all (bufio_write p b) = bw_all b @ p"
  proof cases
    case fits
    with e show ?thesis by (simp add: bufio_write_def bw_all_def)
  next
    case direct
    with e assms bufio_direct_all show ?thesis by (simp add: bufio_write_def)
  next
    case split
    then have w: "bufio_write p b = (if bw_err ?b1 \<noteq> None then ?b1
        else if length ?q \<le> buf_size then ?b1\<lparr>bw_buf := bw_buf ?b1 @ ?q\<rparr> else bufio_direct ?q ?b1)"
      using e by (simp add: bufio_write_def Let_def)
    with assms have e1: "bw_err ?b1 = None" by (auto split: if_splits)
    from bufio_flush_all [OF e1] have b1: "bw_all ?b1 = bw_all b @ take ?free p" "bw_buf ?b1 = []"
      by (simp_all add: bw_all_buf)
    have "bw_all (bufio_write p b) = bw_all ?b1 @ ?q"
      using w e1 assms bufio_direct_all [of ?q ?b1] b1(2) by (auto simp: bw_all_def split: if_splits)
    then show ?thesis by (simp add: b1(1))
  qed
  with e show ?thesis by blast
qed

lemma bufio_flush_sent: "bw_err (bufio_flush b) = None \<Longrightarrow> sent (bw_conn (bufio_flush b)) = bw_all b"
  using bufio_flush_all [of b] by (metis append_Nil2 bw_all_def)

text \<open>An error stays, so a response that ends without one was written without one throughout.\<close>

lemma bufio_sticky: "bw_err b = Some e \<Longrightarrow> bufio_write p b = b \<and> bufio_flush b = b"
  by (simp add: bufio_write_def bufio_flush_def)

subsection \<open>Chunks\<close>

lemma digit_char_hex: "d < 16 \<Longrightarrow> digit_char d \<noteq> CHR 0x0D"
proof -
  assume "d < 16"
  then have "hex_val (digit_char d) = Some d" by (rule hex_val_digit)
  moreover have "hex_val (CHR 0x0D) = None" by (simp add: hex_val_def is_digit_def code_def)
  ultimately show ?thesis by auto
qed

lemma parse_hex_fold:
  "list_all (\<lambda>d. d < 16) ds \<Longrightarrow>
   fold (\<lambda>c acc. case (acc, hex_val c) of (Some n, Some d) \<Rightarrow> Some (16 * n + d) | _ \<Rightarrow> None) (map digit_char ds) (Some a)
   = Some (fold (\<lambda>d n. 16 * n + d) ds a)"
  by (induction ds arbitrary: a) (auto simp: hex_val_digit)

lemma digits_base_value: "fold (\<lambda>d n. 16 * n + d) (digits_base 16 n) 0 = n"
proof (induction n rule: less_induct)
  case (less n)
  show ?case
  proof (cases "n < 16")
    case False
    then have "fold (\<lambda>d n. 16 * n + d) (digits_base 16 (n div 16)) 0 = n div 16" by (intro less) simp
    with False show ?thesis by (subst digits_base.simps) simp
  qed (simp add: digits_base.simps [of 16 n])
qed

lemma parse_format_hex: "parse_hex (format_hex n) = Some n"
proof -
  have "list_all (\<lambda>d. d < 16) (digits_base 16 n)" using digits_base_less [of 16] by (auto simp: list_all_iff)
  from parse_hex_fold [OF this, of 0] show ?thesis
    unfolding parse_hex_def format_hex_def by (simp only: map_is_Nil_conv digits_base_ne if_False digits_base_value)
qed

lemma format_hex_no_cr: "CHR 0x0D \<notin> set (format_hex n)"
  using digits_base_less [of 16] digit_char_hex by (fastforce simp: format_hex_def)

lemma dechunk_chunk:
  assumes "p \<noteq> []"
  shows "dechunk (Suc fuel) (chunk p @ s) = map_option (apfst ((@) p)) (dechunk fuel s)"
proof -
  let ?h = "format_hex (length p)"
  have s: "chunk p @ s = ?h @ CHR 0x0D # CHR 0x0A # p @ crlf @ s" using assms by (simp add: chunk_def crlf_def)
  have "index_byte (chunk p @ s) (CHR 0x0D) = Some (length ?h)"
    unfolding s by (rule index_byte_first) (rule format_hex_no_cr)
  moreover have "take (length ?h) (chunk p @ s) = ?h" "drop (length ?h) (chunk p @ s) = crlf @ p @ crlf @ s"
    "drop (length ?h + 2) (chunk p @ s) = p @ crlf @ s"
    unfolding s by (simp_all add: crlf_def)
  ultimately show ?thesis
    using assms by (simp add: parse_format_hex Let_def crlf_def del: drop_append take_append) (simp add: crlf_def)
qed

lemma dechunk_last: "dechunk (Suc fuel) (''0'' @ crlf @ crlf @ rest) = Some ([], rest)"
  by (simp add: crlf_def parse_hex_def hex_val_def is_digit_def code_def)

text \<open>The writer's chunks decode to what was written, however it was cut into writes.\<close>

lemma dechunk_chunks:
  "length (filter (\<lambda>p. p \<noteq> []) ps) < fuel \<Longrightarrow>
   dechunk fuel (concat (map chunk ps) @ ''0'' @ crlf @ crlf @ rest) = Some (concat ps, rest)"
proof (induction ps arbitrary: fuel)
  case Nil
  then obtain k where "fuel = Suc k" by (cases fuel) auto
  then show ?case using dechunk_last [of k rest] by simp
next
  case (Cons p ps)
  show ?case
  proof (cases "p = []")
    case True
    with Cons show ?thesis by (simp add: chunk_def)
  next
    case False
    then obtain k where k: "fuel = Suc k" "length (filter (\<lambda>p. p \<noteq> []) ps) < k" using Cons.prems by (cases fuel) auto
    have "dechunk (Suc k) (chunk p @ concat (map chunk ps) @ ''0'' @ crlf @ crlf @ rest)
        = map_option (apfst ((@) p)) (dechunk k (concat (map chunk ps) @ ''0'' @ crlf @ crlf @ rest))"
      by (rule dechunk_chunk [OF False])
    then show ?thesis using Cons.IH [OF k(2)] k(1) by simp
  qed
qed

subsection \<open>The calls after the header\<close>

fun writes :: "rw_op list \<Rightarrow> string list" where
  "writes [] = []"
| "writes (WriteBody p # ops) = p # writes ops"
| "writes (_ # ops) = writes ops"

definition body_bytes :: "stream_rw \<Rightarrow> string list \<Rightarrow> string" where
  "body_bytes s ps = (if rw_no_body s then [] else if rw_chunked s then concat (map chunk ps) else concat ps)"

definition headed :: "stream_rw \<Rightarrow> bool" where
  "headed s \<longleftrightarrow> rw_wrote_header s \<and> \<not> rw_hijacked s"

definition frame_of :: "stream_rw \<Rightarrow> bool \<times> bool" where
  "frame_of s = (rw_no_body s, rw_chunked s)"

definition clean :: "stream_rw \<Rightarrow> bool" where
  "clean s \<longleftrightarrow> bw_err (rw_bw s) = None"

lemma frame_body: "frame_of s = frame_of t \<Longrightarrow> body_bytes s = body_bytes t"
  by (simp add: frame_of_def body_bytes_def fun_eq_iff)

lemma rw_write_headed:
  assumes "headed s" "clean (snd (rw_write p s))"
  shows "clean s \<and> headed (snd (rw_write p s)) \<and> frame_of (snd (rw_write p s)) = frame_of s \<and>
    bw_all (rw_bw (snd (rw_write p s))) = bw_all (rw_bw s) @ body_bytes s [p]"
proof (cases "rw_no_body s")
  case True
  with assms show ?thesis by (simp add: rw_write_def headed_def body_bytes_def)
next
  case False
  let ?b = "bufio_write (if rw_chunked s then chunk p else p) (rw_bw s)"
  have w: "snd (rw_write p s) = on_bw (\<lambda>_. if bw_err ?b = None then bufio_flush ?b else ?b) s"
    using assms(1) False by (auto simp: rw_write_def headed_def on_bw_def Let_def split: option.splits)
  with assms(2) have e: "bw_err ?b = None" "bw_err (bufio_flush ?b) = None"
    by (auto simp: clean_def on_bw_def split: if_splits dest: bufio_flush_err)
  from bufio_write_all [OF e(1)] bufio_flush_all [OF e(2)] w e assms(1) False show ?thesis
    by (simp add: on_bw_def clean_def headed_def frame_of_def body_bytes_def)
qed

lemma rw_flush_headed:
  assumes "headed s" "clean (rw_flush s)"
  shows "clean s \<and> headed (rw_flush s) \<and> frame_of (rw_flush s) = frame_of s \<and> bw_all (rw_bw (rw_flush s)) = bw_all (rw_bw s)"
  using assms bufio_flush_err [of "rw_bw s"] bufio_flush_all [of "rw_bw s"]
  by (simp add: rw_flush_def headed_def on_bw_def clean_def frame_of_def)

lemma body_bytes_Nil [simp]: "body_bytes s [] = []"
  by (simp add: body_bytes_def)

lemma body_bytes_Cons: "body_bytes s (p # ps) = body_bytes s [p] @ body_bytes s ps"
  by (simp add: body_bytes_def)

lemma body_bytes_step:
  "body_bytes s (writes (op # ops)) = body_bytes s (writes [op]) @ body_bytes s (writes ops)"
  by (cases op) (simp_all add: body_bytes_Cons [of s _ "writes ops"])

lemma calls_after_header:
  assumes "headed s" "HijackConn \<notin> set ops" "clean (fold rw_apply ops s)"
  shows "clean s \<and> headed (fold rw_apply ops s) \<and> frame_of (fold rw_apply ops s) = frame_of s \<and>
    bw_all (rw_bw (fold rw_apply ops s)) = bw_all (rw_bw s) @ body_bytes s (writes ops)"
  using assms
proof (induction ops arbitrary: s)
  case Nil
  then show ?case by (simp add: body_bytes_def)
next
  case (Cons op ops)
  let ?t = "rw_apply op s"
  have "clean s \<and> headed ?t \<and> frame_of ?t = frame_of s \<and> bw_all (rw_bw ?t) = bw_all (rw_bw s) @ body_bytes s (writes [op])"
    if "clean ?t"
    using that Cons.prems(1,2) rw_write_headed [of s] rw_flush_headed [of s]
    by (cases op) (auto simp: headed_def write_status_def set_rw_header_def clean_def frame_of_def body_bytes_def)
  moreover have "headed ?t"
    using Cons.prems(1,2)
    by (cases op) (auto simp: headed_def write_status_def set_rw_header_def rw_write_def rw_flush_def on_bw_def Let_def split: option.splits)
  moreover have "clean ?t \<and> headed (fold rw_apply ops ?t) \<and> frame_of (fold rw_apply ops ?t) = frame_of ?t \<and>
      bw_all (rw_bw (fold rw_apply ops ?t)) = bw_all (rw_bw ?t) @ body_bytes ?t (writes ops)"
    using Cons.IH [of ?t] calculation(2) Cons.prems(2,3) by simp
  moreover note body_bytes_step [of s op ops]
  ultimately show ?case using frame_body [of ?t s] by simp
qed

lemma finish_headed:
  assumes "headed s" "clean (rw_finish s)"
  shows "clean s \<and> sent (bw_conn (rw_bw (rw_finish s))) =
    bw_all (rw_bw s) @ (if rw_chunked s then ''0'' @ crlf @ crlf else [])"
proof -
  let ?b = "if rw_chunked s then bufio_write (''0'' @ crlf @ crlf) (rw_bw s) else rw_bw s"
  have f: "rw_finish s = on_bw (\<lambda>_. bufio_flush ?b) s"
    using assms(1) by (simp add: rw_finish_def headed_def on_bw_def)
  with assms(2) have e: "bw_err (bufio_flush ?b) = None" by (simp add: clean_def on_bw_def)
  then have "bw_err ?b = None" by (rule bufio_flush_err)
  with bufio_write_all [of "''0'' @ crlf @ crlf" "rw_bw s"]
  have "bw_err (rw_bw s) = None" "bw_all ?b = bw_all (rw_bw s) @ (if rw_chunked s then ''0'' @ crlf @ crlf else [])"
    by (simp_all split: if_splits)
  moreover have "sent (bw_conn (bufio_flush ?b)) = bw_all ?b"
    by (rule bufio_flush_sent [OF e])
  ultimately show ?thesis by (simp add: f on_bw_def clean_def)
qed

lemma write_status_error: "bw_err (rw_bw s) = Some e \<Longrightarrow> rw_bw (write_status st s) = rw_bw s"
  using bufio_sticky [of "rw_bw s" e] by (simp add: write_status_def Let_def on_bw_def set_rw_header_def)

lemma finish_error: "bw_err (rw_bw s) = Some e \<Longrightarrow> rw_bw (rw_finish s) = rw_bw s"
  using bufio_sticky [of "rw_bw s" e] write_status_error [of s e 200]
  by (simp add: rw_finish_def Let_def on_bw_def)

subsection \<open>Whole responses\<close>

text \<open>A handler that sets headers, writes a status and then its body.\<close>

definition plain_handler :: "(string \<times> string) list \<Rightarrow> nat \<Rightarrow> rw_op list \<Rightarrow> rw_op list" where
  "plain_handler hs st ops = map (\<lambda>(k, v). SetHeader k v) hs @ WriteHeader st # ops"

definition set_headers :: "(string \<times> string) list \<Rightarrow> header" where
  "set_headers hs = fold (\<lambda>(k, v). header_set k v) hs []"

lemma fold_set_headers:
  "fold rw_apply (map (\<lambda>(k, v). SetHeader k v) hs) s = s\<lparr>rw_header := fold (\<lambda>(k, v). header_set k v) hs (rw_header s)\<rparr>"
  by (induction hs arbitrary: s) (auto simp: set_rw_header_def)

definition respond :: "rw_op list \<Rightarrow> writer \<Rightarrow> stream_rw" where
  "respond ops w = rw_finish (fold rw_apply ops (new_stream_rw w))"

definition has_framing :: "header \<Rightarrow> bool" where
  "has_framing h \<longleftrightarrow> header_get h ''Content-Length'' \<noteq> [] \<or> header_get h ''Transfer-Encoding'' \<noteq> []"

definition bodyless :: "nat \<Rightarrow> bool" where
  "bodyless st \<longleftrightarrow> st = 101 \<or> st = 204 \<or> st = 304"

definition sent_header :: "nat \<Rightarrow> header \<Rightarrow> header" where
  "sent_header st h =
     header_set ''Connection'' ''close''
       (if \<not> bodyless st \<and> \<not> has_framing h then header_set ''Transfer-Encoding'' ''chunked'' h else h)"

definition head_string :: "(string \<times> string) list \<Rightarrow> nat \<Rightarrow> string" where
  "head_string hs st = status_line st @ write_header (sent_header st (set_headers hs)) @ crlf"

definition body_string :: "(string \<times> string) list \<Rightarrow> nat \<Rightarrow> rw_op list \<Rightarrow> string" where
  "body_string hs st ops =
     (if bodyless st then []
      else if has_framing (set_headers hs) then concat (writes ops)
      else concat (map chunk (writes ops)) @ ''0'' @ crlf @ crlf)"

lemma response_bytes:
  assumes "HijackConn \<notin> set ops" "sent w = []" "clean (respond (plain_handler hs st ops) w)"
  shows "sent (bw_conn (rw_bw (respond (plain_handler hs st ops) w))) = head_string hs st @ body_string hs st ops"
proof -
  let ?h = "set_headers hs"
  let ?s0 = "(new_stream_rw w)\<lparr>rw_header := ?h\<rparr>"
  let ?s = "write_status st ?s0"
  let ?t = "fold rw_apply ops ?s"
  have r: "respond (plain_handler hs st ops) w = rw_finish ?t"
    by (simp add: respond_def plain_handler_def fold_set_headers set_headers_def new_stream_rw_def)
  have hd: "headed ?s" by (simp add: headed_def write_status_def new_stream_rw_def Let_def on_bw_def set_rw_header_def)
  have bw: "rw_bw ?s = bufio_write (status_line st @ write_header (sent_header st ?h) @ crlf) (new_bufw w)"
    and fr: "frame_of ?s = (bodyless st, \<not> bodyless st \<and> \<not> has_framing ?h)"
    by (simp_all add: write_status_def new_stream_rw_def Let_def on_bw_def set_rw_header_def sent_header_def bodyless_def
        has_framing_def frame_of_def)
  have ht: "headed ?t" if "clean ?t" using calls_after_header [OF hd assms(1) that] by blast
  have ct: "clean ?t"
  proof (rule ccontr)
    assume no: "\<not> clean ?t"
    then obtain e where e: "bw_err (rw_bw ?t) = Some e" by (auto simp: clean_def)
    have "\<not> clean (rw_finish ?t)" using finish_error [OF e] by (simp add: clean_def e)
    with assms(3) r show False by simp
  qed
  note after = calls_after_header [OF hd assms(1) ct]
  have fin: "sent (bw_conn (rw_bw (rw_finish ?t))) = bw_all (rw_bw ?t) @ (if rw_chunked ?t then ''0'' @ crlf @ crlf else [])"
    using finish_headed [OF ht [OF ct]] assms(3) r by simp
  have start: "bw_all (rw_bw ?s) = status_line st @ write_header (sent_header st ?h) @ crlf"
    using after bufio_write_all [of _ "new_bufw w"] assms(2) unfolding clean_def bw by (simp add: bw_all_def new_bufw_def)
  from after fr have "rw_chunked ?t = (\<not> bodyless st \<and> \<not> has_framing ?h)" by (simp add: frame_of_def)
  moreover have "body_bytes ?s (writes ops) = (if bodyless st then []
      else if has_framing ?h then concat (writes ops) else concat (map chunk (writes ops)))"
    using fr by (simp add: body_bytes_def frame_of_def)
  ultimately show ?thesis using after fin start r by (simp add: head_string_def body_string_def)
qed

subsection \<open>A connection that takes it all\<close>

definition roomy :: "bufw \<Rightarrow> nat \<Rightarrow> bool" where
  "roomy b n \<longleftrightarrow> bw_err b = None \<and> length (bw_buf b) + n \<le> room (bw_conn b)"

lemma roomy_flush: "roomy b n \<Longrightarrow> roomy (bufio_flush b) n"
  by (auto simp: roomy_def bufio_flush_def conn_write_def)

lemma roomy_write: "roomy b (length p + n) \<Longrightarrow> roomy (bufio_write p b) n"
proof -
  assume r: "roomy b (length p + n)"
  let ?free = "buf_size - length (bw_buf b)"
  let ?b0 = "b\<lparr>bw_buf := bw_buf b @ take ?free p\<rparr>"
  have direct: "roomy (bufio_direct q c) n" if "roomy c (length q + n)" "bw_buf c = []" for q c
    using that by (auto simp: roomy_def bufio_direct_def conn_write_def)
  show ?thesis
  proof (cases "length p \<le> ?free \<or> bw_buf b = []")
    case True
    with r direct [of b p] show ?thesis by (auto simp: bufio_write_def Let_def roomy_def)
  next
    case False
    have "roomy ?b0 (length (drop ?free p) + n)" using r by (auto simp: roomy_def)
    then have f: "roomy (bufio_flush ?b0) (length (drop ?free p) + n)" by (rule roomy_flush)
    moreover have "bw_buf (bufio_flush ?b0) = []" using f bufio_flush_all [of ?b0] by (simp add: roomy_def)
    ultimately show ?thesis
      using False r direct [of "bufio_flush ?b0" "drop ?free p"] by (auto simp: bufio_write_def Let_def roomy_def)
  qed
qed

lemma roomy_call:
  assumes "headed s" "op \<noteq> HijackConn" "roomy (rw_bw s) (length (body_bytes s (writes [op])) + n)"
  shows "roomy (rw_bw (rw_apply op s)) n"
proof (cases op)
  case (WriteBody p)
  show ?thesis
  proof (cases "rw_no_body s")
    case True
    with assms WriteBody show ?thesis by (simp add: rw_write_def headed_def body_bytes_def)
  next
    case False
    let ?q = "if rw_chunked s then chunk p else p"
    have "roomy (bufio_write ?q (rw_bw s)) n"
      by (rule roomy_write) (use assms(3) WriteBody False in \<open>simp add: body_bytes_def split: if_splits\<close>)
    with assms(1) WriteBody False roomy_flush show ?thesis
      by (auto simp: rw_write_def headed_def on_bw_def Let_def roomy_def split: option.splits)
  qed
qed (use assms roomy_flush in \<open>auto simp: headed_def write_status_def set_rw_header_def rw_flush_def on_bw_def\<close>)

lemma headed_call:
  "headed s \<Longrightarrow> op \<noteq> HijackConn \<Longrightarrow> headed (rw_apply op s) \<and> frame_of (rw_apply op s) = frame_of s"
  by (cases op) (auto simp: headed_def frame_of_def write_status_def set_rw_header_def rw_write_def rw_flush_def on_bw_def Let_def
      split: option.splits)

lemma roomy_calls:
  "headed s \<Longrightarrow> HijackConn \<notin> set ops \<Longrightarrow> roomy (rw_bw s) (length (body_bytes s (writes ops)) + n) \<Longrightarrow>
   roomy (rw_bw (fold rw_apply ops s)) n"
proof (induction ops arbitrary: s)
  case Nil
  then show ?case by (simp add: roomy_def)
next
  case (Cons op ops)
  let ?t = "rw_apply op s"
  have t: "headed ?t" "body_bytes ?t = body_bytes s"
    using headed_call [of s op] Cons.prems(1,2) frame_body [of ?t s] by auto
  have "length (body_bytes s (writes (op # ops))) = length (body_bytes s (writes [op])) + length (body_bytes s (writes ops))"
    by (simp only: body_bytes_step [of s op ops] length_append)
  then have "roomy (rw_bw ?t) (length (body_bytes s (writes ops)) + n)"
    using Cons.prems by (intro roomy_call) (auto simp: add.assoc)
  with Cons.IH [of ?t] t Cons.prems(2) show ?case by simp
qed

lemma respond_clean:
  assumes "HijackConn \<notin> set ops" "length (head_string hs st @ body_string hs st ops) \<le> room w"
  shows "clean (respond (plain_handler hs st ops) w)"
proof -
  let ?h = "set_headers hs"
  let ?s0 = "(new_stream_rw w)\<lparr>rw_header := ?h\<rparr>"
  let ?s = "write_status st ?s0"
  let ?t = "fold rw_apply ops ?s"
  let ?tl = "if rw_chunked ?s then ''0'' @ crlf @ crlf else []"
  have r: "respond (plain_handler hs st ops) w = rw_finish ?t"
    by (simp add: respond_def plain_handler_def fold_set_headers set_headers_def new_stream_rw_def)
  have hd: "headed ?s" by (simp add: headed_def write_status_def new_stream_rw_def Let_def on_bw_def set_rw_header_def)
  have bw: "rw_bw ?s = bufio_write (head_string hs st) (new_bufw w)"
    and fr: "frame_of ?s = (bodyless st, \<not> bodyless st \<and> \<not> has_framing ?h)"
    by (simp_all add: write_status_def new_stream_rw_def Let_def on_bw_def set_rw_header_def sent_header_def bodyless_def
        has_framing_def frame_of_def head_string_def)
  have "body_string hs st ops = body_bytes ?s (writes ops) @ ?tl"
    using fr by (auto simp: body_string_def body_bytes_def frame_of_def)
  then have "roomy (rw_bw ?s) (length (body_bytes ?s (writes ops)) + length ?tl)"
    unfolding bw using assms(2) by (intro roomy_write) (simp add: roomy_def new_bufw_def)
  then have t: "roomy (rw_bw ?t) (length ?tl)" by (rule roomy_calls [OF hd assms(1)])
  moreover have "headed ?t \<and> frame_of ?t = frame_of ?s"
    using calls_after_header [OF hd assms(1)] t by (simp add: clean_def roomy_def)
  ultimately have "clean (rw_finish ?t)"
    using roomy_flush [of "rw_bw ?t" 0] roomy_flush [of "bufio_write (''0'' @ crlf @ crlf) (rw_bw ?t)" 0]
      roomy_write [of "rw_bw ?t" "''0'' @ crlf @ crlf" 0]
    by (auto simp: rw_finish_def headed_def frame_of_def on_bw_def clean_def roomy_def Let_def)
  with r show ?thesis by simp
qed

subsection \<open>Properties\<close>

text \<open>
  A streamed response decodes to what the handler wrote. When a handler sets no framing of its own and the
  connection takes it all, the bytes on the stream are the status line, the header with chunked transfer
  encoding and \<open>Connection: close\<close>, and a body that a chunked reader decodes to exactly the
  concatenation of the handler's writes, empty ones included, with nothing left over.
\<close>

lemma chunked_response_decodes:
  assumes "HijackConn \<notin> set ops" "sent w = []" "length (head_string hs st @ body_string hs st ops) \<le> room w"
    and "\<not> bodyless st" "\<not> has_framing (set_headers hs)"
  shows "\<exists>body. sent (bw_conn (rw_bw (respond (plain_handler hs st ops) w))) =
      head_string hs st @ body \<and>
    dechunk (Suc (length (writes ops))) body = Some (concat (writes ops), []) \<and>
    header_get (sent_header st (set_headers hs)) ''Transfer-Encoding'' = ''chunked''"
proof -
  have "length (filter (\<lambda>p. p \<noteq> []) (writes ops)) < Suc (length (writes ops))"
    by (simp add: less_Suc_eq_le)
  from dechunk_chunks [OF this, of "[]"] response_bytes [OF assms(1,2) respond_clean [OF assms(1,3)]] assms(4,5) show ?thesis
    by (simp add: sent_header_def body_string_def)
qed

text \<open>
  A handler's own framing is taken at its word: with a \<open>Content-Length\<close> the writes go out as they are; but they
  do so as well when the handler has set \<open>Transfer-Encoding: chunked\<close>, and then the response announces chunks
  that are not there.
\<close>

theorem own_framing_raw:
  assumes "HijackConn \<notin> set ops" "sent w = []" "length (head_string hs st @ body_string hs st ops) \<le> room w"
    and "\<not> bodyless st" "has_framing (set_headers hs)"
  shows "sent (bw_conn (rw_bw (respond (plain_handler hs st ops) w))) =
      head_string hs st @ concat (writes ops) \<and>
    header_get (sent_header st (set_headers hs)) ''Transfer-Encoding'' = header_get (set_headers hs) ''Transfer-Encoding''"
  using response_bytes [OF assms(1,2) respond_clean [OF assms(1,3)]] assms(4,5) by (simp add: sent_header_def body_string_def)

text \<open>
  No body where there must be none: after a status 101, 204 or 304 nothing follows the header, whatever the handler
  writes, and its writes report that they wrote nothing.
\<close>

theorem bodyless_response:
  assumes "HijackConn \<notin> set ops" "sent w = []" "length (head_string hs st @ body_string hs st ops) \<le> room w" "bodyless st"
  shows "sent (bw_conn (rw_bw (respond (plain_handler hs st ops) w))) =
      head_string hs st \<and>
    fst (rw_write p (write_status st (new_stream_rw w))) = Wrote 0"
  using response_bytes [OF assms(1,2) respond_clean [OF assms(1,3)]] assms(4)
  by (auto simp: body_string_def rw_write_def write_status_def new_stream_rw_def set_rw_header_def on_bw_def Let_def bodyless_def)

subsection \<open>Concrete handlers\<close>

definition demo_conn :: writer where
  "demo_conn = \<lparr>sent = [], room = 150, failure = ConnReset\<rparr>"

lemma demo_sizes:
  "length (head_string [] 200 @ body_string [] 200 [WriteBody ''ab'', WriteBody ''c'']) \<le> 150"
  "length (head_string [(''Transfer-Encoding'', ''chunked'')] 200 @
     body_string [(''Transfer-Encoding'', ''chunked'')] 200 [WriteBody ''ab'']) \<le> 150"
  "length (head_string [] 204 @ body_string [] 204 [WriteBody ''ab'']) \<le> 150"
  by code_simp+

lemma chunked_response_decodes_example:
  "\<exists>body. sent (bw_conn (rw_bw (respond (plain_handler [] 200 [WriteBody ''ab'', WriteBody ''c'']) demo_conn))) =
      head_string [] 200 @ body \<and> dechunk 3 body = Some (''abc'', [])"
  using chunked_response_decodes [of "[WriteBody ''ab'', WriteBody ''c'']" demo_conn "[]" 200] demo_sizes(1)
  by (auto simp: demo_conn_def bodyless_def set_headers_def has_framing_def header_get_def numeral_eq_Suc
      simp del: dechunk.simps)

theorem own_framing_raw_witness:
  "sent (bw_conn (rw_bw (respond (plain_handler [(''Transfer-Encoding'', ''chunked'')] 200 [WriteBody ''ab'']) demo_conn))) =
      head_string [(''Transfer-Encoding'', ''chunked'')] 200 @ ''ab'' \<and> dechunk n ''ab'' = None"
proof -
  have h: "has_framing (set_headers [(''Transfer-Encoding'', ''chunked'')])"
    by (simp add: set_headers_def has_framing_def)
  have "dechunk n ''ab'' = None" by (cases n) simp_all
  with own_framing_raw [OF _ _ _ _ h, of "[WriteBody ''ab'']" demo_conn 200] demo_sizes(2) show ?thesis
    by (simp add: demo_conn_def bodyless_def)
qed

theorem bodyless_response_witness:
  "sent (bw_conn (rw_bw (respond (plain_handler [] 204 [WriteBody ''ab'']) demo_conn))) = head_string [] 204"
  using bodyless_response [of "[WriteBody ''ab'']" demo_conn "[]" 204] demo_sizes(3)
  by (simp add: demo_conn_def bodyless_def)

end
