(* ===== verification/Framing.thy ===== *)
theory Framing
  imports MimeHeader Responder
begin

text \<open>
  The framing of a message body, as \<open>net/http\<close> reads it for requests and responses alike: the version, the
  transfer encoding, the content length, trailers, and the data of a chunked body; and the round trip of the
  chunks that \<open>client/handler.go\<close> writes.
\<close>

subsection \<open>Versions\<close>

text \<open>Whether the version is at least 1.1, and the status.\<close>

definition parse_version :: "string \<Rightarrow> bool option" where
  "parse_version p =
     (if p = ''HTTP/0.0'' then Some True
      else if length p = 8 \<and> has_prefix p ''HTTP/'' \<and> is_digit (p ! 5) \<and> p ! 6 = CHR ''.'' \<and> is_digit (p ! 7)
      then Some (code (p ! 5) > 49 \<or> p ! 5 = CHR ''1'' \<and> code (p ! 7) \<ge> 49)
      else None)"

subsection \<open>Framing\<close>

definition header_del :: "string \<Rightarrow> header \<Rightarrow> header" where
  "header_del k h = AList.delete k h"

definition fix_pragma :: "header \<Rightarrow> header" where
  "fix_pragma h =
     (if header_get h ''Pragma'' = ''no-cache'' \<and> map_of h ''Cache-Control'' = None
      then header_set ''Cache-Control'' ''no-cache'' h else h)"

text \<open>The transfer encoding: none, or chunked; the field is removed. \<open>v11\<close> tells a version of at least 1.1.\<close>

definition transfer_encoding :: "bool \<Rightarrow> header \<Rightarrow> (bool \<times> header) option" where
  "transfer_encoding v11 h =
     (case map_of h ''Transfer-Encoding'' of
        None \<Rightarrow> Some (False, h)
      | Some raw \<Rightarrow>
          (let h1 = header_del ''Transfer-Encoding'' h
           in if \<not> v11 then Some (False, h1)
              else (case raw of [v] \<Rightarrow> if equal_fold v ''chunked'' then Some (True, h1) else None | _ \<Rightarrow> None)))"

definition content_length :: "header \<Rightarrow> (nat option \<times> header) option" where
  "content_length h =
     (case map_of h ''Content-Length'' of
        None \<Rightarrow> Some (None, h)
      | Some [] \<Rightarrow> Some (None, h)
      | Some (v # vs) \<Rightarrow>
          if \<exists>u \<in> set vs. trim_blank u \<noteq> trim_blank v then None
          else (let n = trim_blank v
                in if n = [] \<or> \<not> list_all is_digit n then None
                   else (case parse_digits n 0 of
                           Some k \<Rightarrow> if k < 2 ^ 63 then Some (Some k, header_set ''Content-Length'' n h) else None
                         | None \<Rightarrow> None)))"

text \<open>A list of trailer names must not name a field of the framing; it is removed.\<close>

definition fix_trailer :: "header \<Rightarrow> header option" where
  "fix_trailer h =
     (case map_of h ''Trailer'' of
        None \<Rightarrow> Some h
      | Some vv \<Rightarrow>
          if \<exists>v \<in> set vv. \<exists>k \<in> set (split_byte v CHR '','').
               canonical_key (trim_blank k) \<in> {Some ''Transfer-Encoding'', Some ''Trailer'', Some ''Content-Length''}
          then None else Some (header_del ''Trailer'' h))"

text \<open>The size of a chunk: blanks after it and an extension are dropped; more than 16 digits are an error.\<close>

definition chunk_size :: "string \<Rightarrow> nat option" where
  "chunk_size l =
     (let h = takeWhile (\<lambda>c. c \<noteq> CHR '';'') (rev (dropWhile is_blank (rev l)))
      in if CHR 0x0A \<in> set l \<or> length h > 16 then None else parse_hex h)"

text \<open>What a chunked body delivers before its end or its first error.\<close>

fun chunk_data :: "nat \<Rightarrow> string \<Rightarrow> string" where
  "chunk_data 0 s = []"
| "chunk_data (Suc fuel) s =
     (case index_byte s (CHR 0x0D) of
        None \<Rightarrow> []
      | Some i \<Rightarrow>
          if take 2 (drop i s) \<noteq> crlf then []
          else (case chunk_size (take i s) of
                  None \<Rightarrow> []
                | Some n \<Rightarrow>
                    (let r = drop (i + 2) s
                     in if n = 0 then []
                        else take n r @ (if take 2 (drop n r) \<noteq> crlf then [] else chunk_data fuel (drop (n + 2) r)))))"

subsection \<open>Chunks read back\<close>

lemma length_digits_base: "n < 16 ^ Suc k \<Longrightarrow> length (digits_base 16 n) \<le> Suc k"
proof (induction k arbitrary: n)
  case 0
  then show ?case by (simp add: digits_base.simps [of 16 n])
next
  case (Suc k)
  have "n div 16 < 16 ^ Suc k" using Suc.prems by (simp add: less_mult_imp_div_less)
  from Suc.IH [OF this] show ?case by (subst digits_base.simps) simp
qed

lemma chunk_size_format:
  assumes "n < 16 ^ 16"
  shows "chunk_size (format_hex n) = Some n"
proof -
  have hex: "hex_val c \<noteq> None" if "c \<in> set (format_hex n)" for c
    using that digits_base_less [of 16 _ n] hex_val_digit by (fastforce simp: format_hex_def)
  have "hex_val CHR '';'' = None" "hex_val (CHR 0x0A) = None" "\<forall>c. is_blank c \<longrightarrow> hex_val c = None"
    by (auto simp: hex_val_def is_digit_def is_blank_def code_def)
  with hex have plain: "CHR 0x0A \<notin> set (format_hex n)" "\<forall>c \<in> set (format_hex n). c \<noteq> CHR '';''"
    "\<forall>c \<in> set (format_hex n). \<not> is_blank c" by metis+
  have "dropWhile is_blank (rev (format_hex n)) = rev (format_hex n)"
    using plain(3) by (cases "rev (format_hex n)") (auto dest: arg_cong [where f = set])
  moreover have "length (format_hex n) \<le> 16" using length_digits_base [of n 15] assms by (simp add: format_hex_def)
  ultimately show ?thesis
    using plain by (simp add: chunk_size_def takeWhile_eq_all_conv [THEN iffD2] parse_format_hex)
qed

lemma chunk_data_chunk:
  assumes "p \<noteq> []" "length p < 16 ^ 16"
  shows "chunk_data (Suc fuel) (chunk p @ s) = p @ chunk_data fuel s"
proof -
  let ?h = "format_hex (length p)"
  have s: "chunk p @ s = ?h @ CHR 0x0D # CHR 0x0A # p @ crlf @ s" using assms by (simp add: chunk_def crlf_def)
  have "index_byte (chunk p @ s) (CHR 0x0D) = Some (length ?h)"
    unfolding s by (rule index_byte_first) (rule format_hex_no_cr)
  moreover have "take (length ?h) (chunk p @ s) = ?h" "drop (length ?h) (chunk p @ s) = crlf @ p @ crlf @ s"
    "drop (length ?h + 2) (chunk p @ s) = p @ crlf @ s"
    unfolding s by (simp_all add: crlf_def)
  ultimately show ?thesis
    using assms chunk_size_format [OF assms(2)]
    by (simp add: Let_def crlf_def del: drop_append take_append) (simp add: crlf_def)
qed

lemma chunk_data_last: "chunk_data fuel (''0'' @ crlf @ crlf) = []"
  by (cases fuel)
    (simp_all add: crlf_def chunk_size_def is_blank_def parse_hex_def hex_val_def is_digit_def code_def)

lemma chunk_data_chunks:
  "\<forall>p \<in> set ps. length p < 16 ^ 16 \<Longrightarrow> length (filter (\<lambda>p. p \<noteq> []) ps) < fuel \<Longrightarrow>
   chunk_data fuel (concat (map chunk ps) @ ''0'' @ crlf @ crlf) = concat ps"
proof (induction ps arbitrary: fuel)
  case Nil
  then show ?case using chunk_data_last by simp
next
  case (Cons p ps)
  show ?case
  proof (cases "p = []")
    case True
    with Cons show ?thesis by (simp add: chunk_def)
  next
    case False
    then obtain k where k: "fuel = Suc k" "length (filter (\<lambda>p. p \<noteq> []) ps) < k" using Cons.prems by (cases fuel) auto
    have "chunk_data (Suc k) (chunk p @ concat (map chunk ps) @ ''0'' @ crlf @ crlf)
        = p @ chunk_data k (concat (map chunk ps) @ ''0'' @ crlf @ crlf)"
      by (rule chunk_data_chunk) (use False Cons.prems in auto)
    then show ?thesis using Cons.IH [OF _ k(2)] Cons.prems(1) k(1) by simp
  qed
qed

lemma chunks_long: "length (filter (\<lambda>p. p \<noteq> []) ps) \<le> length (concat (map chunk ps))"
proof (induction ps)
  case (Cons p ps)
  have "\<exists>c cs. chunk p = c # cs" if "p \<noteq> []"
    using that by (simp add: chunk_def crlf_def append_Cons_eq_iff neq_Nil_conv [symmetric])
  with Cons show ?case by (cases "p = []") auto
qed simp

end
