(* ===== verification/Forward.thy ===== *)
theory Forward
  imports Stats Http
begin

text \<open>
  Forwarding through a session's stream (\<open>server/proxy.go\<close>): the byte counter around the stream,
  the proxying of a plain request, and the two-way pump of an upgraded connection with its four
  goroutines and the channel they share.
\<close>

subsection \<open>The counter\<close>

record counter =
  ct_read :: "64 word"
  ct_written :: "64 word"

definition new_counter :: counter where
  "new_counter = \<lparr>ct_read = 0, ct_written = 0\<rparr>"

text \<open>\<open>Read\<close> and \<open>Write\<close> count what the connection moved, an error or not.\<close>

definition counter_read :: "nat \<Rightarrow> counter \<Rightarrow> counter" where
  "counter_read n c = (if n > 0 then c\<lparr>ct_read := ct_read c + word_of_nat n\<rparr> else c)"

definition counter_write :: "nat \<Rightarrow> counter \<Rightarrow> counter" where
  "counter_write n c = (if n > 0 then c\<lparr>ct_written := ct_written c + word_of_nat n\<rparr> else c)"

definition reset_counters :: "counter \<Rightarrow> counter" where
  "reset_counters c = c\<lparr>ct_read := 0, ct_written := 0\<rparr>"

subsection \<open>A plain request\<close>

text \<open>A response as it is read from the stream: reads of the body, each with whether it came with an error.\<close>

record response =
  rs_status :: nat
  rs_header :: header
  rs_reads :: "(string \<times> bool) list"

definition bad_gateway :: "header \<Rightarrow> answer" where
  "bad_gateway h = http_error ''bad gateway'' 502 h"

text \<open>
  The copy loop: \<open>fails\<close> is the number of writes to the public side that succeed before one fails
  (\<open>None\<close>: none fails).
\<close>

fun copy_body :: "bool \<Rightarrow> nat option \<Rightarrow> (string \<times> bool) list \<Rightarrow> answer \<Rightarrow> answer" where
  "copy_body flusher fails [] a = a"
| "copy_body flusher fails ((chunk, err) # reads) a =
     (if chunk \<noteq> [] \<and> fails = Some 0 then a
      else (let a1 = (if chunk \<noteq> []
                      then a\<lparr>an_body := an_body a @ chunk, an_flushes := an_flushes a + (if flusher then 1 else 0)\<rparr>
                      else a);
                fails1 = (if chunk \<noteq> [] then map_option (\<lambda>k. k - 1) fails else fails)
            in if err then a1 else copy_body flusher fails1 reads a1))"

text \<open>
  What the response writer of \<open>net/http\<close> makes of a status: one below 100 is a panic, which ends the public
  connection without an answer; an informational one is sent on as such, and the answer that follows it is an
  implicit 200.
\<close>

definition aborted :: answer where
  "aborted = \<lparr>an_status = 0, an_header = [], an_body = [], an_flushes = 0\<rparr>"

definition final_status :: "nat \<Rightarrow> nat" where
  "final_status st = (if st div 100 = 1 \<and> st \<noteq> 101 then 200 else st)"

definition copy_header :: "header \<Rightarrow> header \<Rightarrow> header" where
  "copy_header src dst = fold (\<lambda>(k, vv). AList.update k vv) src dst"

text \<open>
  \<open>opened\<close> is the result of \<open>OpenStream\<close>, \<open>resp\<close> of \<open>ReadResponse\<close>, \<open>cw\<close> the counter when the
  request has been written and the body read, \<open>dst\<close> the header of the response writer.
\<close>

definition forward_http ::
  "nat \<Rightarrow> nat \<Rightarrow> nat \<Rightarrow> bool \<Rightarrow> string + response \<Rightarrow> counter \<Rightarrow> bool \<Rightarrow> nat option \<Rightarrow> header \<Rightarrow> stats \<Rightarrow>
   answer \<times> stats" where
  "forward_http start now1 now2 opened resp cw flusher fails dst s =
     (if \<not> opened then (bad_gateway dst, s)
      else (let s1 = http_stream_start s
            in case resp of
                 Inl _ \<Rightarrow> (bad_gateway dst, http_stream_end s1)
               | Inr r \<Rightarrow>
                   if rs_status r < 100 then (aborted, http_stream_end s1)
                   else
                   (let a0 = \<lparr>an_status = final_status (rs_status r), an_header = copy_header (rs_header r) dst,
                              an_body = [], an_flushes = 0\<rparr>;
                        a1 = copy_body flusher fails (rs_reads r) a0;
                        s2 = http_completed now1 now2 (int now1 - int start) (ct_written cw) (ct_read cw) s1
                    in (a1, http_stream_end s2))))"

subsection \<open>An upgrade\<close>

datatype upgrade_start =
    NoHijacker \<comment> \<open>500\<close>
  | OpenFailed \<comment> \<open>502\<close>
  | RequestNotSent \<comment> \<open>502\<close>
  | HijackFailed
  | Pumping counter

text \<open>\<open>sent\<close> is the number of request bytes that went out, and whether all did.\<close>

definition forward_upgrade_start ::
  "bool \<Rightarrow> bool \<Rightarrow> nat \<times> bool \<Rightarrow> bool \<Rightarrow> stats \<Rightarrow> upgrade_start \<times> stats" where
  "forward_upgrade_start hijacker opened sent hijacked s =
     (if \<not> hijacker then (NoHijacker, s)
      else if \<not> opened then (OpenFailed, s)
      else if \<not> snd sent then (RequestNotSent, s)
      else if \<not> hijacked then (HijackFailed, s)
      else (Pumping (counter_write (fst sent) new_counter), ws_start s))"

text \<open>
  The pump. The main goroutine receives from \<open>done\<close> twice, then reports and closes; the ticker
  goroutine selects on its timer and on \<open>done\<close>; each direction copies until it ends and then
  sends on \<open>done\<close>. The timer may fire at any moment while the ticker listens. \<open>moved\<close> is what went over the stream since the counter was made, kept for comparison.
\<close>

datatype main_pc = WaitFirst | WaitSecond | Report | ResetMain | EndWs | CloseDone | Returned

datatype tick_pc = Ticking | ResetTick | TickStopped

record pump =
  pu_main :: main_pc
  pu_tick :: tick_pc
  pu_up :: bool \<comment> \<open>still copying from the public side\<close>
  pu_down :: bool \<comment> \<open>still copying to the public side\<close>
  pu_done :: nat \<comment> \<open>tokens in the channel\<close>
  pu_closed :: bool
  pu_counter :: counter
  pu_moved :: counter
  pu_in :: "64 word" \<comment> \<open>bytes passed to \<open>AddWSBytes\<close>, in and out\<close>
  pu_out :: "64 word"
  pu_ended :: bool \<comment> \<open>\<open>WSEnd\<close> has run\<close>

definition start_pump :: "counter \<Rightarrow> pump" where
  "start_pump c =
     \<lparr>pu_main = WaitFirst, pu_tick = Ticking, pu_up = True, pu_down = True, pu_done = 0, pu_closed = False,
      pu_counter = c, pu_moved = c, pu_in = 0, pu_out = 0, pu_ended = False\<rparr>"

definition add_ws :: "pump \<Rightarrow> pump" where
  "add_ws p = p\<lparr>pu_in := pu_in p + ct_written (pu_counter p), pu_out := pu_out p + ct_read (pu_counter p)\<rparr>"

inductive pump_step :: "pump \<Rightarrow> pump \<Rightarrow> bool" where
  up_bytes: "pu_up p \<Longrightarrow>
    pump_step p (p\<lparr>pu_counter := counter_write n (pu_counter p), pu_moved := counter_write n (pu_moved p)\<rparr>)"
| down_bytes: "pu_down p \<Longrightarrow>
    pump_step p (p\<lparr>pu_counter := counter_read n (pu_counter p), pu_moved := counter_read n (pu_moved p)\<rparr>)"
| up_end: "pu_up p \<Longrightarrow> pu_done p < 2 \<Longrightarrow> pump_step p (p\<lparr>pu_up := False, pu_done := pu_done p + 1\<rparr>)"
| down_end: "pu_down p \<Longrightarrow> pu_done p < 2 \<Longrightarrow> pump_step p (p\<lparr>pu_down := False, pu_done := pu_done p + 1\<rparr>)"
| main_first: "pu_main p = WaitFirst \<Longrightarrow> 0 < pu_done p \<Longrightarrow>
    pump_step p (p\<lparr>pu_main := WaitSecond, pu_done := pu_done p - 1\<rparr>)"
| main_second: "pu_main p = WaitSecond \<Longrightarrow> 0 < pu_done p \<Longrightarrow>
    pump_step p (p\<lparr>pu_main := Report, pu_done := pu_done p - 1\<rparr>)"
| main_report: "pu_main p = Report \<Longrightarrow> pump_step p ((add_ws p)\<lparr>pu_main := ResetMain\<rparr>)"
| main_reset: "pu_main p = ResetMain \<Longrightarrow>
    pump_step p (p\<lparr>pu_main := EndWs, pu_counter := reset_counters (pu_counter p)\<rparr>)"
| main_end: "pu_main p = EndWs \<Longrightarrow> pump_step p (p\<lparr>pu_main := CloseDone, pu_ended := True\<rparr>)"
| main_close: "pu_main p = CloseDone \<Longrightarrow> pump_step p (p\<lparr>pu_main := Returned, pu_closed := True\<rparr>)"
| tick_add: "pu_tick p = Ticking \<Longrightarrow> pump_step p ((add_ws p)\<lparr>pu_tick := ResetTick\<rparr>)"
| tick_reset: "pu_tick p = ResetTick \<Longrightarrow>
    pump_step p (p\<lparr>pu_tick := Ticking, pu_counter := reset_counters (pu_counter p)\<rparr>)"
| tick_token: "pu_tick p = Ticking \<Longrightarrow> 0 < pu_done p \<Longrightarrow>
    pump_step p (p\<lparr>pu_tick := TickStopped, pu_done := pu_done p - 1\<rparr>)"
| tick_closed: "pu_tick p = Ticking \<Longrightarrow> pu_closed p \<Longrightarrow> pu_done p = 0 \<Longrightarrow>
    pump_step p (p\<lparr>pu_tick := TickStopped\<rparr>)"

definition init_pump :: "pump \<Rightarrow> bool" where
  "init_pump p \<longleftrightarrow> (\<exists>c. p = start_pump c)"

inductive_cases pump_stepE: "pump_step p p'"

subsection \<open>Tokens\<close>

fun received :: "main_pc \<Rightarrow> nat" where
  "received WaitFirst = 0"
| "received WaitSecond = 1"
| "received _ = 2"

definition stolen :: "pump \<Rightarrow> nat" where
  "stolen p = (if pu_tick p = TickStopped \<and> \<not> pu_closed p then 1 else 0)"

text \<open>Every token sent is in the channel, at the main goroutine, or lost to the ticker.\<close>

definition pump_inv :: "pump \<Rightarrow> bool" where
  "pump_inv p \<longleftrightarrow>
     pu_done p + received (pu_main p) + stolen p = (if pu_up p then 0 else 1) + (if pu_down p then 0 else 1) \<and>
     (pu_closed p \<longleftrightarrow> pu_main p = Returned) \<and>
     (pu_ended p \<longleftrightarrow> pu_main p \<in> {CloseDone, Returned})"

lemma pump_inv_step: "pump_step p p' \<Longrightarrow> pump_inv p \<Longrightarrow> pump_inv p'"
  by (erule pump_stepE) (auto simp: pump_inv_def stolen_def add_ws_def split: if_splits)

interpretation pumping: invariant_system init_pump pump_step pump_inv
proof unfold_locales
  show "pump_inv p" if "init_pump p" for p
    using that by (auto simp: init_pump_def start_pump_def pump_inv_def stolen_def)
qed (rule pump_inv_step)

lemma received_two: "received m = 2 \<longleftrightarrow> m \<noteq> WaitFirst \<and> m \<noteq> WaitSecond"
  by (cases m) simp_all

lemma pump_leak_run:
  "\<exists>p. reaches init_pump pump_step p \<and> (\<forall>p'. \<not> pump_step p p') \<and> \<not> pu_up p \<and> \<not> pu_down p \<and> \<not> pu_ended p"
proof -
  let ?p0 = "start_pump new_counter"
  let ?p1 = "?p0\<lparr>pu_up := False, pu_done := 1\<rparr>"
  let ?p2 = "?p1\<lparr>pu_tick := TickStopped, pu_done := 0\<rparr>"
  let ?p3 = "?p2\<lparr>pu_down := False, pu_done := 1\<rparr>"
  let ?p4 = "?p3\<lparr>pu_main := WaitSecond, pu_done := 0\<rparr>"
  have "pump_step ?p0 ?p1" using up_end [of ?p0] by (simp add: start_pump_def)
  moreover have "pump_step ?p1 ?p2" using tick_token [of ?p1] by (simp add: start_pump_def)
  moreover have "pump_step ?p2 ?p3" using down_end [of ?p2] by (simp add: start_pump_def)
  moreover have "pump_step ?p3 ?p4" using main_first [of ?p3] by (simp add: start_pump_def)
  moreover have "init_pump ?p0" by (auto simp: init_pump_def)
  ultimately have "reaches init_pump pump_step ?p4" by (meson reaches.intros)
  moreover have "\<not> pump_step ?p4 p'" for p'
    by (rule notI, erule pump_stepE) (simp_all add: start_pump_def)
  ultimately show ?thesis by (intro exI [of _ ?p4]) (simp add: start_pump_def)
qed

subsection \<open>Properties\<close>

text \<open>
  C18. The pump ends cleanly when it ends: \<open>WSEnd\<close> and the closing of the channel happen only
  after both directions have stopped copying, so neither sends on a closed channel, and no step
  takes more tokens than were sent.
\<close>

theorem pump_ends_cleanly:
  assumes "reaches init_pump pump_step p"
  shows "(pu_ended p \<or> pu_closed p \<longrightarrow> \<not> pu_up p \<and> \<not> pu_down p \<and> pu_done p = 0) \<and>
    pu_done p + received (pu_main p) \<le> 2"
proof -
  have inv: "pump_inv p" by (rule pumping.inv_reaches [OF assms])
  then have "pu_done p + received (pu_main p) \<le> 2" by (auto simp: pump_inv_def split: if_splits)
  moreover have "\<not> pu_up p \<and> \<not> pu_down p \<and> pu_done p = 0" if "pu_ended p \<or> pu_closed p"
  proof -
    have "received (pu_main p) = 2" using that inv by (auto simp: pump_inv_def received_two)
    with inv show ?thesis by (auto simp: pump_inv_def split: if_splits)
  qed
  ultimately show ?thesis by blast
qed

text \<open>
  C37. Where the pump can stop: at its return, or, both directions over, with the main goroutine
  waiting forever for a token that the ticker goroutine took; it stops nowhere else.
\<close>

theorem pump_stuck_states:
  assumes "reaches init_pump pump_step p" "\<forall>p'. \<not> pump_step p p'"
  shows "pu_main p = Returned \<or>
    pu_main p = WaitSecond \<and> pu_tick p = TickStopped \<and> \<not> pu_up p \<and> \<not> pu_down p \<and> \<not> pu_ended p"
proof -
  have inv: "pump_inv p" by (rule pumping.inv_reaches [OF assms(1)])
  have up: "\<not> pu_up p" and down: "\<not> pu_down p"
    using assms(2) up_bytes [of p] down_bytes [of p] by blast+
  have tick: "pu_tick p = TickStopped"
    using assms(2) tick_add [of p] tick_reset [of p] by (cases "pu_tick p") blast+
  show ?thesis
  proof (cases "pu_main p")
    case WaitFirst
    with inv up down tick have "0 < pu_done p" by (auto simp: pump_inv_def stolen_def split: if_splits)
    with WaitFirst assms(2) main_first [of p] show ?thesis by blast
  next
    case WaitSecond
    with inv up down tick show ?thesis by (simp add: pump_inv_def)
  qed (use assms(2) main_report [of p] main_reset [of p] main_end [of p] main_close [of p] in \<open>blast+\<close>)
qed

text \<open>
  The pump can leak: the ticker may take the token meant for the main goroutine, and then nothing
  moves any more: both directions are over, \<open>WSEnd\<close> has not run and never will, so the service
  keeps counting an active web socket.
\<close>

lemma pump_can_leak:
  "\<exists>p. reaches init_pump pump_step p \<and> (\<forall>p'. \<not> pump_step p p') \<and> \<not> pu_up p \<and> \<not> pu_down p \<and> \<not> pu_ended p"
  by (rule pump_leak_run)

text \<open>How a run ends when the ticker stays out of it.\<close>

lemma pump_finish:
  assumes "reaches init_pump pump_step q" "pu_up q" "pu_down q" "pu_done q = 0" "pu_main q = WaitFirst"
  shows "\<exists>p. reaches init_pump pump_step p \<and> pu_main p = Returned \<and> pu_moved p = pu_moved q \<and>
    pu_in p = pu_in q + ct_written (pu_counter q)"
proof -
  let ?a = "q\<lparr>pu_up := False, pu_done := 1\<rparr>"
  let ?b = "?a\<lparr>pu_down := False, pu_done := 2\<rparr>"
  let ?c = "?b\<lparr>pu_main := WaitSecond, pu_done := 1\<rparr>"
  let ?d = "?c\<lparr>pu_main := Report, pu_done := 0\<rparr>"
  let ?e = "(add_ws ?d)\<lparr>pu_main := ResetMain\<rparr>"
  let ?f = "?e\<lparr>pu_main := EndWs, pu_counter := reset_counters (pu_counter ?e)\<rparr>"
  let ?g = "?f\<lparr>pu_main := CloseDone, pu_ended := True\<rparr>"
  let ?h = "?g\<lparr>pu_main := Returned, pu_closed := True\<rparr>"
  have "pump_step q ?a" using up_end [of q] assms by simp
  with assms(1) have "reaches init_pump pump_step ?a" by (rule reaches_step)
  moreover have "pump_step ?a ?b" using down_end [of ?a] assms by (simp add: numeral_2_eq_2)
  ultimately have "reaches init_pump pump_step ?b" by (rule reaches_step)
  moreover have "pump_step ?b ?c" using main_first [of ?b] assms by simp
  ultimately have "reaches init_pump pump_step ?c" by (rule reaches_step)
  moreover have "pump_step ?c ?d" using main_second [of ?c] assms by simp
  ultimately have "reaches init_pump pump_step ?d" by (rule reaches_step)
  moreover have "pump_step ?d ?e" by (rule main_report) simp
  ultimately have "reaches init_pump pump_step ?e" by (rule reaches_step)
  moreover have "pump_step ?e ?f" by (rule main_reset) simp
  ultimately have "reaches init_pump pump_step ?f" by (rule reaches_step)
  moreover have "pump_step ?f ?g" by (rule main_end) simp
  ultimately have "reaches init_pump pump_step ?g" by (rule reaches_step)
  moreover have "pump_step ?g ?h" by (rule main_close) simp
  ultimately have "reaches init_pump pump_step ?h" by (rule reaches_step)
  then show ?thesis by (intro exI [of _ ?h]) (simp add: add_ws_def)
qed

text \<open>
  The byte totals of a web socket can fall short: bytes that go over the stream between a report of the
  counters and their reset are never reported.
\<close>

theorem pump_loses_bytes:
  "\<exists>p. reaches init_pump pump_step p \<and> pu_main p = Returned \<and> ct_written (pu_moved p) = 5 \<and> pu_in p = 0"
proof -
  let ?a = "start_pump new_counter"
  let ?b = "(add_ws ?a)\<lparr>pu_tick := ResetTick\<rparr>"
  let ?c = "?b\<lparr>pu_counter := counter_write 5 (pu_counter ?b), pu_moved := counter_write 5 (pu_moved ?b)\<rparr>"
  let ?d = "?c\<lparr>pu_tick := Ticking, pu_counter := reset_counters (pu_counter ?c)\<rparr>"
  have "reaches init_pump pump_step ?a" by (rule reaches_start) (auto simp: init_pump_def)
  moreover have "pump_step ?a ?b" by (rule tick_add) (simp add: start_pump_def)
  ultimately have "reaches init_pump pump_step ?b" by (rule reaches_step)
  moreover have "pump_step ?b ?c" by (rule up_bytes) (simp add: start_pump_def add_ws_def)
  ultimately have "reaches init_pump pump_step ?c" by (rule reaches_step)
  moreover have "pump_step ?c ?d" by (rule tick_reset) simp
  ultimately have "reaches init_pump pump_step ?d" by (rule reaches_step)
  then obtain p where "reaches init_pump pump_step p" "pu_main p = Returned" "pu_moved p = pu_moved ?d"
      "pu_in p = pu_in ?d + ct_written (pu_counter ?d)"
    using pump_finish [of ?d] by (auto simp: start_pump_def add_ws_def)
  then show ?thesis
    by (intro exI [of _ p]) (simp add: start_pump_def add_ws_def counter_write_def reset_counters_def new_counter_def)
qed

subsection \<open>What recording a request changes\<close>

definition totals :: "stats \<Rightarrow> 64 word \<times> 64 word \<times> 64 word \<times> 64 word \<times> 64 word" where
  "totals s = (http_active s, ws_active s, http_requests s, http_bytes_in s, http_bytes_out s)"

lemma totals_zero_buckets: "totals (zero_buckets b k s) = totals s"
  by (induction k arbitrary: s) (simp_all add: Let_def totals_def)

lemma totals_bump: "totals (bump_bucket now q b s) = totals s"
proof -
  have "totals (advance_buckets t s) = totals s" for t
    using totals_zero_buckets by (auto simp: advance_buckets_def totals_def)
  then show ?thesis by (simp add: bump_bucket_def Let_def totals_def)
qed

lemma totals_add_http:
  "totals (add_http_bytes now i out s) =
     (http_active s, ws_active s, http_requests s, http_bytes_in s + i, http_bytes_out s + out)"
  using totals_bump by (auto simp: add_http_bytes_def Let_def totals_def word_gt_0)

lemma totals_http_completed:
  "totals (http_completed now1 now2 lat i out s) =
     (http_active s, ws_active s, http_requests s + 1, http_bytes_in s + i, http_bytes_out s + out)"
proof -
  have "totals (push_latency u t) = totals t" for u t by (simp add: push_latency_def Let_def totals_def)
  then show ?thesis by (simp add: http_completed_def Let_def totals_bump totals_add_http)
qed

lemma copy_body_all:
  "copy_body flusher None (map (\<lambda>c. (c, False)) cs @ [(final, True)]) a =
   a\<lparr>an_body := an_body a @ concat cs @ final,
     an_flushes := an_flushes a + (if flusher then length (filter (\<lambda>c. c \<noteq> []) (cs @ [final])) else 0)\<rparr>"
  by (induction cs arbitrary: a) (auto simp: Let_def)

text \<open>
  C28. A plain request leaves the gauges as they were, whichever way it ends, and counts as one request, with the
  bytes of the stream, exactly when a response with a valid status was received; without a response the answer
  is 502, and a response with a status below 100 breaks the public connection.
\<close>

theorem forward_http_accounting:
  "let (a, s') = forward_http start now1 now2 opened resp cw flusher fails dst s
   in http_active s' = http_active s \<and> ws_active s' = ws_active s \<and>
      (if opened \<and> (\<exists>r. resp = Inr r \<and> 100 \<le> rs_status r)
       then http_requests s' = http_requests s + 1 \<and> http_bytes_in s' = http_bytes_in s + ct_written cw \<and>
            http_bytes_out s' = http_bytes_out s + ct_read cw
       else (a = (if opened \<and> (\<exists>r. resp = Inr r) then aborted else bad_gateway dst)) \<and>
            http_requests s' = http_requests s \<and> http_bytes_in s' = http_bytes_in s \<and>
            http_bytes_out s' = http_bytes_out s)"
proof (cases "opened \<and> (\<exists>r. resp = Inr r \<and> 100 \<le> rs_status r)")
  case True
  then obtain r where r: "opened" "resp = Inr r" "\<not> rs_status r < 100" "100 \<le> rs_status r" by auto
  from totals_http_completed [of now1 now2 "int now1 - int start" "ct_written cw" "ct_read cw" "http_stream_start s"]
  show ?thesis
    by (simp add: forward_http_def r Let_def totals_def http_stream_start_def http_stream_end_def)
next
  case False
  then show ?thesis
    by (cases resp)
      (auto simp: forward_http_def Let_def http_stream_start_def http_stream_end_def)
qed

text \<open>
  A response is relayed whole: if every write to the public side succeeds, the public answer has all its bytes
  in order, each piece flushed as it comes, and every header of the response, replacing one already set.
\<close>

lemma copy_header_map:
  assumes "distinct (map fst h)"
  shows "map_of (copy_header h dst) = map_of dst ++ map_of h"
proof -
  have "map_of (fold (\<lambda>(k, vv). AList.update k vv) h d) = map_of d ++ map_of (rev h)" for h d :: header
    by (induction h arbitrary: d) (auto simp: update_conv' map_of_append map_add_assoc)
  then show ?thesis
    using assms map_of_inject_set [of "rev h" h] by (simp add: copy_header_def flip: rev_map)
qed

lemma response_relayed:
  assumes "rs_reads r = map (\<lambda>c. (c, False)) cs @ [(final, True)]" "distinct (map fst (rs_header r))" "100 \<le> rs_status r"
  shows "let a = fst (forward_http start now1 now2 True (Inr r) cw flusher None dst s)
    in an_status a = final_status (rs_status r) \<and> an_body a = concat cs @ final \<and>
       an_flushes a = (if flusher then length (filter (\<lambda>c. c \<noteq> []) (cs @ [final])) else 0) \<and>
       map_of (an_header a) = map_of dst ++ map_of (rs_header r)"
  using assms by (simp add: forward_http_def Let_def copy_body_all copy_header_map)

subsection \<open>Concrete pumps\<close>

lemma demo_pump_run:
  "\<exists>p. reaches init_pump pump_step p \<and> pu_main p = Returned"
  using pump_finish [OF reaches_start, of "start_pump new_counter"] by (auto simp: init_pump_def start_pump_def)

theorem pump_ends_cleanly_witness:
  "\<exists>p. reaches init_pump pump_step p \<and> pu_main p = Returned \<and> \<not> pu_up p \<and> \<not> pu_down p"
proof -
  obtain p where p: "reaches init_pump pump_step p" "pu_main p = Returned" using demo_pump_run by blast
  then have "pu_closed p" using pumping.inv_reaches [OF p(1)] by (simp add: pump_inv_def)
  with p pump_ends_cleanly [OF p(1)] show ?thesis by blast
qed

theorem pump_stuck_states_witness:
  "\<exists>p. reaches init_pump pump_step p \<and> pu_main p = WaitSecond \<and> pu_tick p = TickStopped"
proof -
  obtain p where p: "reaches init_pump pump_step p" "\<forall>p'. \<not> pump_step p p'" "\<not> pu_ended p"
    using pump_leak_run by blast
  then have "pu_main p \<noteq> Returned" using pumping.inv_reaches [OF p(1)] by (auto simp: pump_inv_def)
  with pump_stuck_states [OF p(1,2)] p(1) show ?thesis by blast
qed

end
