(* ===== verification/ReadResponse.thy ===== *)
theory ReadResponse
  imports Framing Forward
begin

text \<open>
  The response of a client as the router reads it: what \<open>forwardHTTP\<close> of \<open>server/proxy.go\<close> uses of
  \<open>http.ReadResponse\<close> (status line, header, framing of the body), and the round trip of what
  \<open>client/handler.go\<close> writes: the public side receives the status, the header and the body of the handler.
\<close>

subsection \<open>The status line\<close>

definition parse_status :: "string \<Rightarrow> (bool \<times> nat) option" where
  "parse_status line =
     (case cut_byte line CHR '' '' of
        None \<Rightarrow> None
      | Some (proto, rest) \<Rightarrow>
          (let status = dropWhile (\<lambda>c. c = CHR '' '') rest;
               sc = (case cut_byte status CHR '' '' of Some (a, _) \<Rightarrow> a | None \<Rightarrow> status)
           in if length sc \<noteq> 3 then None
              else (case atoi sc of
                      None \<Rightarrow> None
                    | Some n \<Rightarrow> if n < 0 then None else map_option (\<lambda>v. (v, nat n)) (parse_version proto))))"

subsection \<open>The response\<close>

record parsed =
  pr_status :: nat
  pr_header :: header
  pr_body :: string

text \<open>
  \<open>ReadResponse\<close> on the whole stream \<open>s\<close>, as the answer to a request with the method \<open>meth\<close>; \<open>None\<close> is an
  error. The body is what reading it delivers: its chunks, as much as its length says, or the rest of the
  stream.
\<close>

definition no_body :: "string \<Rightarrow> nat \<Rightarrow> bool" where
  "no_body meth st \<longleftrightarrow> meth = ''HEAD'' \<or> st div 100 = 1 \<or> st = 204 \<or> st = 304"

definition read_transfer :: "string \<Rightarrow> bool \<Rightarrow> nat \<Rightarrow> header \<Rightarrow> string \<Rightarrow> parsed option" where
  "read_transfer meth v11 st h rest =
     (case transfer_encoding v11 h of
        None \<Rightarrow> None
      | Some (chunked, h1) \<Rightarrow>
          (case content_length h1 of
             None \<Rightarrow> None
           | Some (len, h2) \<Rightarrow>
               map_option (\<lambda>h3. \<lparr>pr_status = st, pr_header = h3,
                   pr_body = (if no_body meth st then []
                              else if chunked then chunk_data (Suc (length rest)) rest
                              else (case len of Some n \<Rightarrow> take n rest | None \<Rightarrow> rest))\<rparr>)
                 (if chunked then fix_trailer (if no_body meth st then h2 else header_del ''Content-Length'' h2)
                  else Some h2)))"

definition read_response :: "string \<Rightarrow> string \<Rightarrow> parsed option" where
  "read_response meth s =
     (case read_line s of
        None \<Rightarrow> None
      | Some (line, r) \<Rightarrow>
          (case parse_status line of
             None \<Rightarrow> None
           | Some (v11, st) \<Rightarrow>
               (case read_mime_header r of
                  None \<Rightarrow> None
                | Some (h, rest) \<Rightarrow> read_transfer meth v11 st (fix_pragma h) rest)))"

subsection \<open>The status line\<close>

lemma length_format_nat: "100 \<le> n \<Longrightarrow> n < 1000 \<Longrightarrow> length (format_nat n) = 3"
proof -
  assume n: "100 \<le> n" "n < 1000"
  then have "n div 100 < 10" "10 \<le> n div 10" by linarith+
  with n show ?thesis
    by (simp add: format_nat_def digits_base.simps [of 10 n] digits_base.simps [of 10 "n div 10"]
        digits_base.simps [of 10 "n div 100"] div_mult2_eq [symmetric])
qed

lemma status_text_no_break: "CHR 0x0A \<notin> set (status_text st)"
proof -
  have "list_all (\<lambda>(_, t). CHR 0x0A \<notin> set t) status_texts" by code_simp
  then have "CHR 0x0A \<notin> set t" if "map_of status_texts st = Some t" for t
    using map_of_SomeD [OF that] by (auto simp: list_all_iff)
  then show ?thesis by (simp add: status_text_def split: option.splits)
qed

lemma format_nat_plain: "c \<in> set (format_nat n) \<Longrightarrow> c \<noteq> CHR '' '' \<and> c \<noteq> CHR 0x0A"
  by (drule format_nat_digits) (auto simp: is_digit_def code_def)

lemma read_status_line:
  assumes "100 \<le> st" "st < 1000"
  shows "\<exists>l. read_line (status_line st @ r) = Some (l, r) \<and> parse_status l = Some (True, st)"
proof -
  let ?t = "format_nat st @ '' '' @ status_text st"
  let ?l = "''HTTP/1.1'' @ '' '' @ ?t"
  have "CHR 0x0A \<notin> set ?l" using status_text_no_break format_nat_plain by fastforce
  from read_line_crlf [OF this, of r] have l: "read_line (status_line st @ r) = Some (?l, r)" by (simp add: status_line_def)
  have "CHR '' '' \<notin> set ''HTTP/1.1''" by code_simp
  from index_byte_first [OF this, of ?t] have c1: "cut_byte ?l CHR '' '' = Some (''HTTP/1.1'', ?t)"
    by (simp add: cut_byte_def)
  have "CHR '' '' \<notin> set (format_nat st)" using format_nat_plain by blast
  from index_byte_first [OF this, of "status_text st"] have c2: "cut_byte ?t CHR '' '' = Some (format_nat st, status_text st)"
    by (simp add: cut_byte_def)
  obtain a t where a: "format_nat st = a # t" by (meson format_nat_ne neq_Nil_conv)
  then have "dropWhile (\<lambda>c. c = CHR '' '') ?t = ?t" using format_nat_plain [of a st] by simp
  moreover have "atoi (format_nat st) = Some (int st)" by (rule atoi_format_nat) (use assms in simp)
  moreover have "parse_version ''HTTP/1.1'' = Some True" by code_simp
  ultimately have "parse_status ?l = Some (True, st)"
    using c1 c2 length_format_nat [OF assms] by (simp add: parse_status_def Let_def)
  with l show ?thesis by blast
qed

subsection \<open>From the handler to the public side\<close>

definition plain_headers :: "(string \<times> string) list \<Rightarrow> bool" where
  "plain_headers hs \<longleftrightarrow>
     (\<forall>(k, v) \<in> set hs. good_name k \<and> good_value v \<and>
        k \<notin> {''Content-Length'', ''Transfer-Encoding'', ''Connection'', ''Trailer'', ''Pragma''})"

text \<open>What the public side gets to see of a header that the handler has set.\<close>

definition relayed_header :: "(string \<times> string) list \<Rightarrow> string \<Rightarrow> string list option" where
  "relayed_header hs k =
     (if k = ''Connection'' then Some [''close'']
      else map_option (map clean_value) (map_of (set_headers hs) k))"

lemma header_set_good:
  assumes "good_header h" "good_name k" "good_value v"
  shows "good_header (header_set k v h)"
proof -
  have "good_name j \<and> vs \<noteq> [] \<and> list_all good_value vs" if "(j, vs) \<in> set (header_set k v h)" for j vs
  proof -
    have "map_of (header_set k v h) j = Some vs"
      using that assms(1) by (intro map_of_is_SomeI) (simp_all add: header_set_def distinct_update good_header_def)
    then have "(if j = k then Some [v] else map_of h j) = Some vs" by (simp add: header_set_def update_conv')
    with assms show ?thesis by (cases "j = k") (auto simp: good_header_def dest!: map_of_SomeD)
  qed
  with assms(1) show ?thesis by (auto simp: good_header_def header_set_def distinct_update)
qed

lemma set_headers_good:
  "\<forall>(k, v) \<in> set hs. good_name k \<and> good_value v \<Longrightarrow> good_header h \<Longrightarrow> good_header (fold (\<lambda>(k, v). header_set k v) hs h)"
  by (induction hs arbitrary: h) (auto intro: header_set_good)

lemma set_headers_absent:
  "k \<notin> fst ` set hs \<Longrightarrow> map_of (fold (\<lambda>(k, v). header_set k v) hs h) k = map_of h k"
  by (induction hs arbitrary: h) (auto simp: header_set_def update_conv')

lemma special_names: "good_name ''Connection''" "good_name ''Transfer-Encoding''" "good_value ''close''" "good_value ''chunked''"
  by code_simp+

lemma sent_header_good:
  assumes "plain_headers hs"
  shows "good_header (sent_header st (set_headers hs))"
proof -
  have "good_header (set_headers hs)"
    unfolding set_headers_def using assms by (intro set_headers_good) (auto simp: plain_headers_def good_header_def)
  with special_names show ?thesis by (simp add: sent_header_def header_set_good)
qed

lemma plain_headers_absent:
  assumes "plain_headers hs" "k \<in> {''Content-Length'', ''Transfer-Encoding'', ''Connection'', ''Trailer'', ''Pragma''}"
  shows "map_of (set_headers hs) k = None"
proof -
  have "k \<notin> fst ` set hs" using assms by (auto simp: plain_headers_def)
  then show ?thesis using set_headers_absent [of k hs "[]"] by (simp add: set_headers_def)
qed

lemma sent_header_map:
  assumes "plain_headers hs" "\<not> bodyless st"
  shows "map_of (sent_header st (set_headers hs)) k =
    (if k = ''Connection'' then Some [''close''] else if k = ''Transfer-Encoding'' then Some [''chunked'']
     else map_of (set_headers hs) k)"
  using assms plain_headers_absent [OF assms(1)]
  by (simp add: sent_header_def has_framing_def header_get_def header_set_def update_conv')

lemma header_get_absent: "map_of h k = None \<Longrightarrow> header_get h k = []"
  by (simp add: header_get_def)

text \<open>What \<open>ReadResponse\<close> makes of a head the handler side has written, and of whatever follows it.\<close>

lemma read_written_head:
  assumes hs: "plain_headers hs" and st: "100 \<le> st" "st < 1000" "\<not> bodyless st"
  obtains p where "read_response meth (head_string hs st @ body) = Some p" "pr_status p = st"
    "distinct (map fst (pr_header p))" "map_of (pr_header p) = relayed_header hs"
    "pr_body p = (if no_body meth st then [] else chunk_data (Suc (length body)) body)"
proof -
  let ?h = "sent_header st (set_headers hs)"
  obtain l where l: "read_line (status_line st @ write_header ?h @ crlf @ body) = Some (l, write_header ?h @ crlf @ body)"
    "parse_status l = Some (True, st)"
    using read_status_line [OF st(1,2)] by blast
  obtain h' where h': "read_mime_header (write_header ?h @ crlf @ body) = Some (h', body)" "distinct (map fst h')"
    "map_of h' = (\<lambda>k. map_option (map clean_value) (map_of ?h k))"
    using read_written_header [OF sent_header_good [OF hs]] .
  have cl: "clean_value ''close'' = ''close''" "clean_value ''chunked'' = ''chunked''" by code_simp+
  have m: "map_of h' k = (if k = ''Transfer-Encoding'' then Some [''chunked''] else relayed_header hs k)" for k
    using cl by (simp add: h'(3) sent_header_map [OF hs st(3)] relayed_header_def)
  have absent: "map_of h' ''Pragma'' = None" "map_of h' ''Content-Length'' = None" "map_of h' ''Trailer'' = None"
    using plain_headers_absent [OF hs] by (simp_all add: m relayed_header_def)
  let ?h1 = "header_del ''Transfer-Encoding'' h'"
  have m1: "map_of ?h1 = relayed_header hs"
    using plain_headers_absent [OF hs, of "''Transfer-Encoding''"]
    by (auto simp: header_del_def delete_conv' m relayed_header_def)
  have te: "transfer_encoding True h' = Some (True, ?h1)" by (simp add: transfer_encoding_def m)
  have cl: "content_length ?h1 = Some (None, ?h1)" and tr: "fix_trailer ?h1 = Some ?h1"
    using absent by (simp_all add: content_length_def fix_trailer_def header_del_def delete_conv')
  have "header_del ''Content-Length'' ?h1 = ?h1"
    using absent(2) by (simp add: header_del_def delete_conv' AList.delete_id map_of_eq_None_iff [symmetric])
  then have "read_transfer meth True st (fix_pragma h') body = Some \<lparr>pr_status = st, pr_header = ?h1,
      pr_body = (if no_body meth st then [] else chunk_data (Suc (length body)) body)\<rparr>"
    using te cl tr by (simp add: read_transfer_def fix_pragma_def header_get_absent [OF absent(1)])
  moreover have "distinct (map fst ?h1)" using h'(2) by (simp add: header_del_def distinct_delete)
  ultimately show ?thesis using that l h'(1) m1 by (simp add: read_response_def head_string_def)
qed

text \<open>How the body of a response may come in: any pieces, the last of which reports the end.\<close>

definition delivers :: "string \<Rightarrow> (string \<times> bool) list \<Rightarrow> bool" where
  "delivers body reads \<longleftrightarrow> (\<exists>cs final. reads = map (\<lambda>c. (c, False)) cs @ [(final, True)] \<and> concat cs @ final = body)"

definition as_response :: "parsed \<Rightarrow> (string \<times> bool) list \<Rightarrow> response" where
  "as_response p reads = \<lparr>rs_status = pr_status p, rs_header = pr_header p, rs_reads = reads\<rparr>"

lemma relay_parsed:
  assumes "delivers (pr_body p) reads" "distinct (map fst (pr_header p))" "100 \<le> pr_status p"
  shows "let a = fst (forward_http start now1 now2 True (Inr (as_response p reads)) cw flusher None [] s)
    in an_status a = final_status (pr_status p) \<and> an_body a = pr_body p \<and> map_of (an_header a) = map_of (pr_header p)"
proof -
  obtain cs final where r: "rs_reads (as_response p reads) = map (\<lambda>c. (c, False)) cs @ [(final, True)]" "concat cs @ final = pr_body p"
    using assms(1) by (auto simp: delivers_def as_response_def)
  from response_relayed [OF r(1)] r(2) assms(2,3) show ?thesis by (simp add: Let_def as_response_def)
qed

lemma served_bytes:
  assumes "HijackConn \<notin> set ops" "sent w = []" "length (head_string hs st @ body_string hs st ops) \<le> room w"
  shows "sent (snd (handler_serve (\<lambda>_. (plain_handler hs st ops, False)) (Some rq) w)) = head_string hs st @ body_string hs st ops"
  using response_bytes [OF assms(1,2) respond_clean [OF assms(1,3)]]
  by (simp add: handler_serve_def respond_def Let_def)

lemma no_framing: "plain_headers hs \<Longrightarrow> \<not> has_framing (set_headers hs)"
  using plain_headers_absent by (simp add: has_framing_def header_get_absent)

subsection \<open>Properties\<close>

text \<open>
  A response goes from the handler to the public side unharmed. Let a handler set headers other than those of
  the framing, write a status from 200 on that has a body, and then its body in any pieces; let the stream take
  the response. Then the router can read it, and however the body comes in, the public answer has that status,
  the concatenation of the writes as its body, and the headers that were set, cleaned of line breaks, together
  with the \<open>Connection: close\<close> that was meant for the stream and now closes the public connection as well.
\<close>

lemma response_end_to_end:
  assumes "HijackConn \<notin> set ops" "sent w = []" "length (head_string hs st @ body_string hs st ops) \<le> room w"
    and "200 \<le> st" "st < 1000" "st \<noteq> 204" "st \<noteq> 304" "meth \<noteq> ''HEAD''"
    and "plain_headers hs" "\<forall>p \<in> set (writes ops). length p < 2 ^ 63"
  shows "\<exists>p. read_response meth (sent (snd (handler_serve (\<lambda>_. (plain_handler hs st ops, False)) (Some rq) w))) = Some p \<and>
    (\<forall>reads. delivers (pr_body p) reads \<longrightarrow>
      (let a = fst (forward_http start now1 now2 True (Inr (as_response p reads)) cw flusher None [] s)
       in an_status a = st \<and> an_body a = concat (writes ops) \<and> map_of (an_header a) = relayed_header hs))"
proof -
  let ?chunks = "concat (map chunk (writes ops)) @ ''0'' @ crlf @ crlf"
  have b: "\<not> bodyless st" "\<not> no_body meth st" "100 \<le> st" "final_status st = st"
    using assms(4-8) by (auto simp: bodyless_def no_body_def final_status_def)
  have body: "body_string hs st ops = ?chunks" using b(1) no_framing [OF assms(9)] by (simp add: body_string_def)
  obtain p where p: "read_response meth (head_string hs st @ ?chunks) = Some p" "pr_status p = st"
    "distinct (map fst (pr_header p))" "map_of (pr_header p) = relayed_header hs"
    "pr_body p = chunk_data (Suc (length ?chunks)) ?chunks"
    using read_written_head [OF assms(9) b(3) assms(5) b(1)] b(2) by metis
  have "length (filter (\<lambda>p. p \<noteq> []) (writes ops)) < Suc (length ?chunks)"
    using chunks_long [of "writes ops"] by simp
  then have "pr_body p = concat (writes ops)"
    unfolding p(5) using assms(10) by (intro chunk_data_chunks) fastforce+
  with relay_parsed [of p] p b(3,4) served_bytes [OF assms(1-3)] show ?thesis by (auto simp: body Let_def)
qed

text \<open>
  C29. An early status is the last one: a handler that sends an informational response, such as 103, before its
  real one loses the real one. Whatever it does afterwards, the public side gets an empty answer with status 200.
\<close>

theorem early_status_is_final:
  assumes "HijackConn \<notin> set ops" "sent w = []" "length (head_string hs st @ body_string hs st ops) \<le> room w"
    and "st div 100 = 1" "st \<noteq> 101" "plain_headers hs"
  shows "\<exists>p. read_response meth (sent (snd (handler_serve (\<lambda>_. (plain_handler hs st ops, False)) (Some rq) w))) = Some p \<and>
    (\<forall>reads. delivers (pr_body p) reads \<longrightarrow>
      (let a = fst (forward_http start now1 now2 True (Inr (as_response p reads)) cw flusher None [] s)
       in an_status a = 200 \<and> an_body a = []))"
proof -
  have st: "100 \<le> st" "st < 1000" using assms(4) by auto
  have b: "\<not> bodyless st" "no_body meth st" "final_status st = 200"
    using assms(4,5) st by (auto simp: bodyless_def no_body_def final_status_def)
  obtain p where p: "read_response meth (head_string hs st @ body_string hs st ops) = Some p" "pr_status p = st"
    "distinct (map fst (pr_header p))" "pr_body p = []"
    using read_written_head [OF assms(6) st b(1)] b(2) by metis
  with relay_parsed [of p] st b(3) served_bytes [OF assms(1-3)] show ?thesis by (auto simp: Let_def)
qed

text \<open>A handler that panics takes the client down, and what it had not flushed is lost.\<close>

lemma panic_kills_client:
  "handler_serve (\<lambda>_. ([WriteHeader 200], True)) (Some rq) w = (True, w)"
proof -
  have "length (status_line 200 @ write_header (header_set ''Connection'' ''close'' (header_set ''Transfer-Encoding'' ''chunked'' [])) @ crlf) \<le> buf_size"
    by code_simp
  then show ?thesis
    by (simp add: handler_serve_def write_status_def new_stream_rw_def set_rw_header_def on_bw_def Let_def header_get_def
        bufio_write_def new_bufw_def)
qed

subsection \<open>Concrete responses\<close>

definition demo_ask :: request where
  "demo_ask = \<lparr>rq_method = ''GET'', rq_uri = ''/'', rq_path = ''/'', rq_host = ''foo.router.com'',
     rq_header = [], rq_close = False, rq_basic = None\<rparr>"

definition wide_conn :: writer where
  "wide_conn = \<lparr>sent = [], room = 200, failure = ConnReset\<rparr>"

lemma demo_response_fits:
  "length (head_string [(''X-Id'', ''7'')] 404 @ body_string [(''X-Id'', ''7'')] 404 [WriteBody ''no'', FlushNow, WriteBody ''pe'']) \<le> 200"
  "length (head_string [] 103 @ body_string [] 103 [WriteHeader 404, WriteBody ''no'']) \<le> 200"
  "plain_headers [(''X-Id'', ''7'')]" "plain_headers []"
  by code_simp+

lemma demo_response_arrives:
  "\<exists>p. read_response ''GET'' (sent (snd (handler_serve
       (\<lambda>_. (plain_handler [(''X-Id'', ''7'')] 404 [WriteBody ''no'', FlushNow, WriteBody ''pe''], False)) (Some demo_ask) wide_conn))) = Some p \<and>
     (let a = fst (forward_http 0 1 1 True (Inr (as_response p [(pr_body p, True)])) new_counter True None [] (new_stats ''foo''))
      in an_status a = 404 \<and> an_body a = ''nope'' \<and> map_of (an_header a) ''Connection'' = Some [''close''])"
proof -
  have "delivers b [(b, True)]" for b unfolding delivers_def by (intro exI [of _ "[]"] exI [of _ b]) simp
  then show ?thesis
    using response_end_to_end [of "[WriteBody ''no'', FlushNow, WriteBody ''pe'']" wide_conn "[(''X-Id'', ''7'')]" 404 "''GET''"
        demo_ask 0 1 1 new_counter True "new_stats ''foo''"] demo_response_fits(1,3)
    by (auto simp: wide_conn_def relayed_header_def Let_def)
qed

theorem early_status_is_final_witness:
  "\<exists>p. read_response ''GET'' (sent (snd (handler_serve
       (\<lambda>_. (plain_handler [] 103 [WriteHeader 404, WriteBody ''no''], False)) (Some demo_ask) wide_conn))) = Some p \<and>
     an_status (fst (forward_http 0 1 1 True (Inr (as_response p [(pr_body p, True)])) new_counter True None [] (new_stats ''foo''))) = 200"
proof -
  have "delivers b [(b, True)]" for b unfolding delivers_def by (intro exI [of _ "[]"] exI [of _ b]) simp
  then show ?thesis
    using early_status_is_final [of "[WriteHeader 404, WriteBody ''no'']" wide_conn "[]" 103 "''GET''"
        demo_ask 0 1 1 new_counter True "new_stats ''foo''"] demo_response_fits(2,4)
    by (auto simp: wide_conn_def Let_def)
qed

end
