(* ===== verification/RequestWire.thy ===== *)
theory RequestWire
  imports Framing Url
begin

text \<open>
  A request on its way through a stream: what \<open>forwardHTTP\<close> and \<open>forwardUpgrade\<close> of \<open>server/proxy.go\<close> send with
  \<open>Request.Write\<close>, and what \<open>Serve\<close> of \<open>client/handler.go\<close> and \<open>client/proxy.go\<close> read with
  \<open>http.ReadRequest\<close>. Two parts of the library are parameters: the encoding of a host outside ASCII, and the
  parsing of a request URI that does not start with a slash.
\<close>

subsection \<open>Writing\<close>

text \<open>The body of an incoming request: none, one of known length, or one that arrives in pieces.\<close>

datatype req_body = NoBody | Sized string | Streamed "string list"

definition host_byte :: "char \<Rightarrow> bool" where
  "host_byte c \<longleftrightarrow> is_letter c \<or> is_digit c \<or> c \<in> set ''!$%&()*+,-.:;=[]_~'' \<or> code c = 39"

definition remove_zone :: "string \<Rightarrow> string" where
  "remove_zone h =
     (if \<not> has_prefix h ''['' then h
      else (case last_index_byte h CHR '']'' of
              None \<Rightarrow> h
            | Some i \<Rightarrow>
                (case last_index_byte (take i h) CHR ''%'' of None \<Rightarrow> h | Some j \<Rightarrow> take j h @ drop i h)))"

definition wire_host :: "(string \<Rightarrow> string option) \<Rightarrow> string \<Rightarrow> string option" where
  "wire_host punycode h =
     (case (if list_all (\<lambda>c. code c < 128) h then Some h else punycode h) of
        None \<Rightarrow> None
      | Some a \<Rightarrow> Some (if list_all host_byte a then remove_zone a else []))"

definition ctl_byte :: "char \<Rightarrow> bool" where
  "ctl_byte c \<longleftrightarrow> code c < 32 \<or> code c = 127"

definition wire_uri :: "string \<Rightarrow> request \<Rightarrow> string" where
  "wire_uri host r = (if rq_method r = ''CONNECT'' \<and> rq_path r = [] then host else rq_uri r)"

text \<open>
  A token in a list of tokens, in any case, with a blank or a comma on both sides.
\<close>

definition token_boundary :: "char \<Rightarrow> bool" where
  "token_boundary c \<longleftrightarrow> c = CHR '' '' \<or> c = CHR '','' \<or> code c = 9"

definition has_token :: "string \<Rightarrow> string \<Rightarrow> bool" where
  "has_token v token \<longleftrightarrow>
     token \<noteq> [] \<and>
     list_ex (\<lambda>i. equal_fold (take (length token) (drop i v)) token \<and> i + length token \<le> length v \<and>
               (i = 0 \<or> token_boundary (v ! (i - 1))) \<and>
               (i + length token = length v \<or> token_boundary (v ! (i + length token))))
       [0..<Suc (length v)]"

text \<open>A visitor without a \<open>User-Agent\<close> gets the one of the Go library; an empty one is not sent.\<close>

definition agent_fields :: "header \<Rightarrow> (string \<times> string) list" where
  "agent_fields h =
     (let agent = (if map_of h ''User-Agent'' \<noteq> None then header_get h ''User-Agent'' else ''Go-http-client/1.1'')
      in if agent = [] then [] else [(''User-Agent'', agent)])"

definition close_fields :: "request \<Rightarrow> (string \<times> string) list" where
  "close_fields r =
     (if rq_close r \<and> \<not> has_token (header_get (rq_header r) ''Connection'') ''close'' then [(''Connection'', ''close'')] else [])"

definition length_fields :: "string \<Rightarrow> req_body \<Rightarrow> (string \<times> string) list" where
  "length_fields meth body =
     (case body of
        NoBody \<Rightarrow> if meth \<in> {''POST'', ''PUT'', ''PATCH''} then [(''Content-Length'', ''0'')] else []
      | Sized b \<Rightarrow> [(''Content-Length'', format_nat (length b))]
      | Streamed _ \<Rightarrow> [(''Transfer-Encoding'', ''chunked'')])"

definition own_fields :: "string list" where
  "own_fields = [''Host'', ''User-Agent'', ''Content-Length'', ''Transfer-Encoding'', ''Trailer'']"

definition passed_header :: "header \<Rightarrow> header" where
  "passed_header h = filter (\<lambda>f. fst f \<notin> set own_fields) h"

definition wire_body :: "req_body \<Rightarrow> string" where
  "wire_body body =
     (case body of NoBody \<Rightarrow> [] | Sized b \<Rightarrow> b | Streamed ps \<Rightarrow> concat (map chunk ps) @ ''0'' @ crlf @ crlf)"

definition write_request :: "(string \<Rightarrow> string option) \<Rightarrow> request \<Rightarrow> req_body \<Rightarrow> string option" where
  "write_request punycode r body =
     (case wire_host punycode (rq_host r) of
        None \<Rightarrow> None
      | Some host \<Rightarrow>
          (let uri = wire_uri host r;
               meth = (if rq_method r = [] then ''GET'' else rq_method r)
           in if list_ex ctl_byte uri then None
              else Some (meth @ '' '' @ uri @ '' HTTP/1.1'' @ crlf @
                     field_lines ((''Host'', host) # agent_fields (rq_header r) @ close_fields r @ length_fields meth body) @
                     write_header (passed_header (rq_header r)) @ crlf @ wire_body body)))"

subsection \<open>Reading\<close>

text \<open>The host in a request URI: none if it starts with a slash, and then its escapes are checked.\<close>

definition uri_host :: "(string \<Rightarrow> string option) \<Rightarrow> string \<Rightarrow> string option" where
  "uri_host other u =
     (if list_ex ctl_byte u then None
      else if u = ''*'' then Some []
      else if has_prefix u ''/'' then (if escapes_ok (fst (cut CHR ''?'' u)) then Some [] else None)
      else other u)"

record parsed_request =
  qp_method :: string
  qp_uri :: string
  qp_host :: string
  qp_header :: header
  qp_close :: bool
  qp_chunked :: bool
  qp_body :: string

definition should_close :: "bool \<Rightarrow> header \<Rightarrow> bool" where
  "should_close v11 h \<longleftrightarrow>
     (let vs = (case map_of h ''Connection'' of None \<Rightarrow> [] | Some vs \<Rightarrow> vs);
          has = (\<lambda>t. list_ex (\<lambda>v. list_ex (\<lambda>p. equal_fold (trim_blank p) t) (split_byte v CHR '','')) vs)
      in has ''close'' \<or> \<not> v11 \<and> \<not> has ''keep-alive'')"

definition read_request_body :: "bool \<Rightarrow> header \<Rightarrow> string \<Rightarrow> (header \<times> string) option" where
  "read_request_body v11 h rest =
     (case transfer_encoding v11 h of
        None \<Rightarrow> None
      | Some (chunked, h1) \<Rightarrow>
          (case content_length h1 of
             None \<Rightarrow> None
           | Some (len, h2) \<Rightarrow>
               if chunked
               then map_option (\<lambda>h3. (h3, chunk_data (Suc (length rest)) rest)) (fix_trailer (header_del ''Content-Length'' h2))
               else Some (h2, case len of Some n \<Rightarrow> take n rest | None \<Rightarrow> [])))"

definition is_chunked :: "bool \<Rightarrow> header \<Rightarrow> bool" where
  "is_chunked v11 h = (case transfer_encoding v11 h of Some (chunked, _) \<Rightarrow> chunked | None \<Rightarrow> False)"

text \<open>The request, and the bytes behind its head, which a handler that hijacks the connection gets.\<close>

definition read_request :: "(string \<Rightarrow> string option) \<Rightarrow> string \<Rightarrow> (parsed_request \<times> string) option" where
  "read_request other s =
     (case read_line s of
        None \<Rightarrow> None
      | Some (line, r) \<Rightarrow>
          (case cut_byte line CHR '' '' of
             None \<Rightarrow> None
           | Some (meth, line1) \<Rightarrow>
               (case cut_byte line1 CHR '' '' of
                  None \<Rightarrow> None
                | Some (uri, proto) \<Rightarrow>
                    (case (parse_version proto,
                           uri_host other (if meth = ''CONNECT'' \<and> \<not> has_prefix uri ''/'' then ''http://'' @ uri else uri)) of
                       (Some v11, Some uhost) \<Rightarrow>
                         if meth = [] \<or> \<not> list_all token_byte meth then None
                         else (case read_mime_header r of
                                 None \<Rightarrow> None
                               | Some (h, rest) \<Rightarrow>
                                   (case map_of h ''Host'' of
                                      Some (_ # _ # _) \<Rightarrow> None
                                    | _ \<Rightarrow>
                                      map_option
                                        (\<lambda>(h3, body).
                                           (\<lparr>qp_method = meth, qp_uri = uri,
                                             qp_host = (if uhost = [] then header_get h ''Host'' else uhost),
                                             qp_header = header_del ''Host'' h3, qp_close = should_close v11 (fix_pragma h),
                                             qp_chunked = is_chunked v11 (fix_pragma h),
                                             qp_body = body\<rparr>, rest))
                                        (read_request_body v11 (fix_pragma h) rest)))
                     | _ \<Rightarrow> None))))"

subsection \<open>The head of a request read back\<close>

text \<open>All fields a request is written with, in one header.\<close>

definition wire_fields :: "string \<Rightarrow> request \<Rightarrow> req_body \<Rightarrow> header" where
  "wire_fields host r body =
     map (\<lambda>(k, v). (k, [v])) ((''Host'', host) # agent_fields (rq_header r) @ length_fields (rq_method r) body)
     @ sort_key fst (passed_header (rq_header r))"

text \<open>What \<open>net/http\<close> hands to a handler for a request of HTTP/1.1 with a path; this is what the router forwards.\<close>

definition handed_over :: "request \<Rightarrow> bool" where
  "handed_over r \<longleftrightarrow>
     good_header (rq_header r) \<and> (\<forall>(k, vs) \<in> set (rq_header r). \<forall>v \<in> set vs. clean_value v = v) \<and>
     fix_pragma (rq_header r) = rq_header r \<and> map_of (rq_header r) ''Host'' = None \<and>
     rq_method r \<noteq> [] \<and> list_all token_byte (rq_method r) \<and>
     has_prefix (rq_uri r) ''/'' \<and> CHR '' '' \<notin> set (rq_uri r) \<and> \<not> list_ex ctl_byte (rq_uri r) \<and>
     escapes_ok (fst (cut CHR ''?'' (rq_uri r))) \<and> rq_path r \<noteq> [] \<and>
     list_all host_byte (rq_host r) \<and> \<not> has_prefix (rq_host r) ''['' \<and> rq_host r \<noteq> [] \<and>
     (rq_close r \<longrightarrow> has_token (header_get (rq_header r) ''Connection'') ''close'')"

definition body_ok :: "req_body \<Rightarrow> bool" where
  "body_ok body \<longleftrightarrow>
     (case body of NoBody \<Rightarrow> True | Sized b \<Rightarrow> length b < 2 ^ 63 | Streamed ps \<Rightarrow> \<forall>p \<in> set ps. length p < 2 ^ 63)"

definition body_data :: "req_body \<Rightarrow> string" where
  "body_data body = (case body of NoBody \<Rightarrow> [] | Sized b \<Rightarrow> b | Streamed ps \<Rightarrow> concat ps)"

lemma field_lines_append: "field_lines (fs @ gs) = field_lines fs @ field_lines gs"
  by (simp add: field_lines_def)

lemma fields_append: "header_fields (g @ h) = header_fields g @ header_fields h"
  by (simp add: header_fields_def)

lemma fields_single: "header_fields (map (\<lambda>(k, v). (k, [v])) fs) = fs"
  by (induction fs) (auto simp: header_fields_def)

lemma good_value_digits: "list_all is_digit s \<Longrightarrow> good_value s"
  by (auto simp: good_value_def list_all_iff value_byte_def is_digit_def)

lemma host_byte_plain: "host_byte c \<Longrightarrow> value_byte c \<and> \<not> is_blank c \<and> code c \<noteq> 10 \<and> code c \<noteq> 13 \<and> code c < 128"
  by (auto simp: host_byte_def is_letter_def is_upper_def is_lower_def is_digit_def value_byte_def is_blank_def code_def)

lemma good_value_host: "list_all host_byte h \<Longrightarrow> good_value h"
  using host_byte_plain by (auto simp: good_value_def list_all_iff)

lemma clean_value_id:
  assumes "\<forall>c \<in> set s. \<not> is_blank c \<and> code c \<noteq> 10 \<and> code c \<noteq> 13"
  shows "clean_value s = s"
proof -
  have "map (\<lambda>c. if code c = 10 \<or> code c = 13 then CHR '' '' else c) s = s" using assms by (simp add: map_idI)
  moreover have "trim_blank s = s" using assms by (intro trim_blank_id) (cases "s = []"; simp)
  ultimately show ?thesis by (simp add: clean_value_def)
qed

lemma clean_value_digits: "list_all is_digit s \<Longrightarrow> clean_value s = s"
  by (rule clean_value_id) (auto simp: list_all_iff is_digit_def is_blank_def)

lemma format_nat_all_digits: "list_all is_digit (format_nat n)"
  using format_nat_digits by (simp add: list_all_iff)

lemma wire_names: "good_name ''Host''" "good_name ''User-Agent''" "good_name ''Content-Length''" "good_name ''Transfer-Encoding''"
  "good_value ''Go-http-client/1.1''" "good_value ''chunked''" "good_value ''0''"
  "clean_value ''Go-http-client/1.1'' = ''Go-http-client/1.1''" "clean_value ''chunked'' = ''chunked''" "clean_value ''0'' = ''0''"
  by code_simp+

lemma length_fields_good:
  "(k, v) \<in> set (length_fields meth body) \<Longrightarrow> k \<in> set own_fields \<and> good_name k \<and> good_value v \<and> clean_value v = v"
  using wire_names good_value_digits [OF format_nat_all_digits] clean_value_digits [OF format_nat_all_digits]
  by (auto simp: length_fields_def own_fields_def split: req_body.splits if_splits)

lemma agent_fields_good:
  assumes "good_header h" "(k, v) \<in> set (agent_fields h)" "\<forall>(k, vs) \<in> set h. \<forall>v \<in> set vs. clean_value v = v"
  shows "k = ''User-Agent'' \<and> good_value v \<and> clean_value v = v"
proof (cases "map_of h ''User-Agent''")
  case None
  with assms(2) wire_names show ?thesis by (auto simp: agent_fields_def)
next
  case (Some vs)
  then have "(''User-Agent'', vs) \<in> set h" by (rule map_of_SomeD)
  with assms(1,3) have "vs \<noteq> []" "list_all good_value vs" "\<forall>v \<in> set vs. clean_value v = v" by (auto simp: good_header_def)
  moreover from this(1) obtain u us where "vs = u # us" by (cases vs) auto
  ultimately show ?thesis using Some assms(2) by (auto simp: agent_fields_def header_get_def Let_def split: if_splits)
qed

lemma passed_header_map: "map_of (passed_header h) k = (if k \<in> set own_fields then None else map_of h k)"
  by (induction h) (auto simp: passed_header_def)

lemma distinct_passed_header:
  assumes "good_header h"
  shows "distinct (map fst (passed_header h))" and "distinct (map fst (sort_key fst (passed_header h)))"
proof -
  show p: "distinct (map fst (passed_header h))"
    unfolding passed_header_def by (rule distinct_map_filter) (use assms in \<open>simp add: good_header_def\<close>)
  then show "distinct (map fst (sort_key fst (passed_header h)))" by (simp add: distinct_map)
qed

lemma distinct_agent_length:
  "distinct (map fst (agent_fields h @ length_fields meth body)) \<and> ''Host'' \<notin> fst ` set (agent_fields h @ length_fields meth body)"
  by (auto simp: agent_fields_def length_fields_def Let_def split: req_body.splits)

lemma wire_fields_good:
  assumes "handed_over r"
  shows "good_header (wire_fields (rq_host r) r body)"
proof -
  let ?own = "(''Host'', rq_host r) # agent_fields (rq_header r) @ length_fields (rq_method r) body"
  have h: "good_header (rq_header r)" and cl: "\<forall>(k, vs) \<in> set (rq_header r). \<forall>v \<in> set vs. clean_value v = v"
    and hb: "list_all host_byte (rq_host r)"
    using assms by (simp_all add: handed_over_def)
  have own: "k \<in> set own_fields \<and> good_name k \<and> good_value v" if kv: "(k, v) \<in> set ?own" for k v
  proof -
    consider "(k, v) = (''Host'', rq_host r)" | "(k, v) \<in> set (agent_fields (rq_header r))"
      | "(k, v) \<in> set (length_fields (rq_method r) body)"
      using kv by auto
    then show ?thesis
    proof cases
      case 1
      with wire_names(1) good_value_host [OF hb] show ?thesis by (simp add: own_fields_def)
    next
      case 2
      from agent_fields_good [OF h this cl] wire_names(2) show ?thesis by (simp add: own_fields_def)
    next
      case 3
      from length_fields_good [OF this] show ?thesis by blast
    qed
  qed
  have rest: "k \<notin> set own_fields \<and> good_name k \<and> vs \<noteq> [] \<and> list_all good_value vs"
    if "(k, vs) \<in> set (sort_key fst (passed_header (rq_header r)))" for k vs
    using that h by (auto simp: passed_header_def good_header_def)
  define ol where "ol = map (\<lambda>(k, v). (k, [v])) ?own"
  define rl where "rl = sort_key fst (passed_header (rq_header r))"
  have split: "wire_fields (rq_host r) r body = ol @ rl" unfolding wire_fields_def ol_def rl_def ..
  have ol: "k \<in> set own_fields \<and> good_name k \<and> vs \<noteq> [] \<and> list_all good_value vs" if kv: "(k, vs) \<in> set ol" for k vs
  proof -
    obtain v where "(k, v) \<in> set ?own" "vs = [v]" using kv unfolding ol_def by force
    with own show ?thesis by simp
  qed
  have rl: "k \<notin> set own_fields \<and> good_name k \<and> vs \<noteq> [] \<and> list_all good_value vs" if "(k, vs) \<in> set rl" for k vs
    using rest [OF that [unfolded rl_def]] .
  have "distinct (map fst rl)" unfolding rl_def by (rule distinct_passed_header(2) [OF h])
  moreover have "distinct (map fst ?own)" using distinct_agent_length [of "rq_header r" "rq_method r" body]
    unfolding list.map fst_conv distinct.simps set_map by blast
  then have "distinct (map fst ol)" unfolding ol_def by (simp add: comp_def case_prod_beta)
  moreover have "fst ` set ol \<inter> fst ` set rl = {}" using ol rl by force
  ultimately have "distinct (map fst (wire_fields (rq_host r) r body))" unfolding split by simp
  moreover have "good_name k \<and> vs \<noteq> [] \<and> list_all good_value vs" if "(k, vs) \<in> set (wire_fields (rq_host r) r body)" for k vs
    using that ol [of k vs] rl [of k vs] unfolding split by auto
  ultimately show ?thesis by (auto simp: good_header_def)
qed

subsection \<open>What the client gets to see\<close>

text \<open>The value of a field at the client: those of the transport are its own, the others are passed on.\<close>

definition arriving_field :: "request \<Rightarrow> req_body \<Rightarrow> string \<Rightarrow> string list option" where
  "arriving_field r body k =
     (if k = ''Content-Length'' then map_option (\<lambda>v. [v]) (map_of (length_fields (rq_method r) body) k)
      else if k = ''User-Agent'' then map_option (\<lambda>v. [v]) (map_of (agent_fields (rq_header r)) k)
      else if k \<in> set own_fields then None
      else map_of (rq_header r) k)"

lemma map_of_singles: "map_of (map (\<lambda>(k, v). (k, [v])) fs) k = map_option (\<lambda>v. [v]) (map_of fs k)"
  by (induction fs) auto

lemma agent_fields_other: "k \<noteq> ''User-Agent'' \<Longrightarrow> map_of (agent_fields h) k = None"
  by (simp add: agent_fields_def Let_def)

lemma length_fields_other:
  "k \<noteq> ''Content-Length'' \<Longrightarrow> k \<noteq> ''Transfer-Encoding'' \<Longrightarrow> map_of (length_fields meth body) k = None"
  by (simp add: length_fields_def split: req_body.splits)

lemma wire_fields_map:
  assumes "handed_over r"
  shows "map_of (wire_fields (rq_host r) r body) k =
    (if k = ''Host'' then Some [rq_host r]
     else if k = ''Transfer-Encoding'' then map_option (\<lambda>v. [v]) (map_of (length_fields (rq_method r) body) k)
     else arriving_field r body k)"
proof -
  have "distinct (map fst (passed_header (rq_header r)))"
    using assms by (intro distinct_passed_header(1)) (simp add: handed_over_def)
  then have rest: "map_of (sort_key fst (passed_header (rq_header r))) k = (if k \<in> set own_fields then None else map_of (rq_header r) k)"
    by (simp add: sort_key_map_of passed_header_map)
  have own: "map_of (map (\<lambda>(k, v). (k, [v])) (agent_fields (rq_header r) @ length_fields (rq_method r) body)) k =
      map_option (\<lambda>v. [v]) (case map_of (agent_fields (rq_header r)) k of None \<Rightarrow> map_of (length_fields (rq_method r) body) k | x \<Rightarrow> x)"
    unfolding map_of_singles by (auto simp: map_add_def split: option.splits)
  let ?own = "map_of (map (\<lambda>(k, v). (k, [v])) (agent_fields (rq_header r) @ length_fields (rq_method r) body)) k"
  have w: "map_of (wire_fields (rq_host r) r body) k =
      (case (if k = ''Host'' then Some [rq_host r] else ?own) of
         Some vs \<Rightarrow> Some vs
       | None \<Rightarrow> if k \<in> set own_fields then None else map_of (rq_header r) k)"
    unfolding rest [symmetric] wire_fields_def by (simp add: map_add_def split: option.splits)
  show ?thesis
  proof (cases "k \<in> set own_fields")
    case True
    then consider "k = ''Host''" | "k = ''User-Agent''" | "k = ''Content-Length''" | "k = ''Transfer-Encoding''" | "k = ''Trailer''"
      unfolding own_fields_def list.set insert_iff empty_iff by blast
    then show ?thesis
    proof cases
      case 1
      with w show ?thesis by simp
    next
      case 2
      have "map_of (length_fields (rq_method r) body) k = None" by (rule length_fields_other) (simp_all add: 2)
      with 2 w own show ?thesis by (simp add: own_fields_def arriving_field_def split: option.splits)
    next
      case 3
      have "map_of (agent_fields (rq_header r)) k = None" by (rule agent_fields_other) (simp add: 3)
      with 3 w own show ?thesis by (simp add: own_fields_def arriving_field_def split: option.splits)
    next
      case 4
      have "map_of (agent_fields (rq_header r)) k = None" by (rule agent_fields_other) (simp add: 4)
      with 4 w own show ?thesis by (simp add: own_fields_def split: option.splits)
    next
      case 5
      have "map_of (agent_fields (rq_header r)) k = None" by (rule agent_fields_other) (simp add: 5)
      moreover have "map_of (length_fields (rq_method r) body) k = None" by (rule length_fields_other) (simp_all add: 5)
      ultimately show ?thesis using 5 w own by (simp add: arriving_field_def own_fields_def map_add_def)
    qed
  next
    case False
    then have k: "k \<noteq> ''Host''" "k \<noteq> ''User-Agent''" "k \<noteq> ''Content-Length''" "k \<noteq> ''Transfer-Encoding''"
      by (auto simp: own_fields_def)
    have "map_of (agent_fields (rq_header r)) k = None" by (rule agent_fields_other [OF k(2)])
    moreover have "map_of (length_fields (rq_method r) body) k = None" by (rule length_fields_other [OF k(3,4)])
    ultimately show ?thesis using False k w own by (simp add: arriving_field_def map_add_def)
  qed
qed

lemma clean_delivered:
  assumes "handed_over r"
  shows "map_option (map clean_value) (map_of (wire_fields (rq_host r) r body) k) = map_of (wire_fields (rq_host r) r body) k"
proof -
  have h: "good_header (rq_header r)" "\<forall>(k, vs) \<in> set (rq_header r). \<forall>v \<in> set vs. clean_value v = v"
    and host: "list_all host_byte (rq_host r)"
    using assms by (simp_all add: handed_over_def)
  let ?c = "map_option (map clean_value)" and ?s = "map_option (\<lambda>v. [v])"
  have "clean_value (rq_host r) = rq_host r"
    using host host_byte_plain by (intro clean_value_id) (auto simp: list_all_iff)
  moreover have "?c (?s (map_of (length_fields (rq_method r) body) k)) = ?s (map_of (length_fields (rq_method r) body) k)"
    using length_fields_good map_of_SomeD by (cases "map_of (length_fields (rq_method r) body) k") fastforce+
  moreover have "?c (?s (map_of (agent_fields (rq_header r)) k)) = ?s (map_of (agent_fields (rq_header r)) k)"
    using agent_fields_good [OF h(1) _ h(2)] map_of_SomeD by (cases "map_of (agent_fields (rq_header r)) k") fastforce+
  moreover have "?c (map_of (rq_header r) k) = map_of (rq_header r) k"
  proof (cases "map_of (rq_header r) k")
    case (Some vs)
    have "map clean_value vs = vs" using h(2) map_of_SomeD [OF Some] by (intro map_idI) blast
    with Some show ?thesis by simp
  qed simp
  ultimately show ?thesis
    unfolding wire_fields_map [OF assms] arriving_field_def
    by (simp only: option.map list.map if_distrib [of "map_option (map clean_value)"] split: if_split)
qed

lemma fix_pragma_id_cong:
  assumes "fix_pragma h = h" "map_of g ''Pragma'' = map_of h ''Pragma''" "map_of g ''Cache-Control'' = map_of h ''Cache-Control''"
  shows "fix_pragma g = g"
proof -
  have "\<not> (header_get h ''Pragma'' = ''no-cache'' \<and> map_of h ''Cache-Control'' = None)"
  proof
    assume p: "header_get h ''Pragma'' = ''no-cache'' \<and> map_of h ''Cache-Control'' = None"
    then have "map_of (fix_pragma h) ''Cache-Control'' = Some [''no-cache'']" by (simp add: fix_pragma_def header_set_def update_conv')
    with p assms(1) show False by simp
  qed
  with assms(2,3) show ?thesis by (auto simp: fix_pragma_def header_get_def)
qed

lemma content_length_field:
  assumes "map_of h ''Content-Length'' = Some [format_nat n]" "n < 2 ^ 63"
  shows "\<exists>h'. content_length h = Some (Some n, h') \<and> map_of h' = map_of h"
proof -
  have "trim_blank (format_nat n) = format_nat n"
  proof (rule trim_blank_id)
    have "\<not> is_blank c" if "c \<in> set (format_nat n)" for c
      using format_nat_digits [OF that] by (auto simp: is_digit_def is_blank_def)
    then show "format_nat n = [] \<or> \<not> is_blank (hd (format_nat n)) \<and> \<not> is_blank (last (format_nat n))" by simp
  qed
  with assms format_nat_all_digits [of n] show ?thesis
    by (auto simp: content_length_def Let_def parse_format_nat header_set_def update_conv' fun_eq_iff)
qed

lemma header_del_map: "map_of (header_del k h) = (map_of h)(k := None)"
  by (simp add: header_del_def delete_conv')

text \<open>Reading the framing that was written, for each kind of body.\<close>

lemma read_written_body:
  assumes "map_of h = (\<lambda>k. if k = ''Transfer-Encoding'' \<or> k = ''Content-Length'' then map_option (\<lambda>v. [v]) (map_of (length_fields meth body) k) else f k)"
    and "f ''Trailer'' = None" "body_ok body"
  shows "\<exists>h'. read_request_body True h (wire_body body) = Some (h', body_data body) \<and> map_of h' = (map_of h)(''Transfer-Encoding'' := None)"
proof -
  have zero: "format_nat 0 = ''0''" by code_simp
  show ?thesis
  proof (cases body)
    case NoBody
    have te: "transfer_encoding True h = Some (False, h)" using NoBody assms(1) by (simp add: transfer_encoding_def length_fields_def)
    have same: "map_of h = (map_of h)(''Transfer-Encoding'' := None)" using NoBody assms(1) by (simp add: length_fields_def fun_eq_iff)
    show ?thesis
    proof (cases "meth \<in> {''POST'', ''PUT'', ''PATCH''}")
      case True
      then have "map_of h ''Content-Length'' = Some [format_nat 0]" using NoBody assms(1) zero by (simp add: length_fields_def)
      from content_length_field [OF this] obtain h' where "content_length h = Some (Some 0, h')" "map_of h' = map_of h" by auto
      with te same NoBody show ?thesis by (simp add: read_request_body_def body_data_def)
    next
      case False
      then have "content_length h = Some (None, h)" using NoBody assms(1) by (simp add: content_length_def length_fields_def)
      with te same NoBody show ?thesis by (simp add: read_request_body_def body_data_def)
    qed
  next
    case (Sized b)
    have te: "transfer_encoding True h = Some (False, h)" using Sized assms(1) by (simp add: transfer_encoding_def length_fields_def)
    have same: "map_of h = (map_of h)(''Transfer-Encoding'' := None)" using Sized assms(1) by (simp add: length_fields_def fun_eq_iff)
    have "map_of h ''Content-Length'' = Some [format_nat (length b)]" using Sized assms(1) by (simp add: length_fields_def)
    moreover have "length b < 2 ^ 63" using assms(3) Sized by (simp add: body_ok_def)
    ultimately obtain h' where "content_length h = Some (Some (length b), h')" "map_of h' = map_of h"
      using content_length_field by blast
    with te same Sized show ?thesis by (simp add: read_request_body_def body_data_def wire_body_def)
  next
    case (Streamed ps)
    let ?h1 = "header_del ''Transfer-Encoding'' h"
    have te: "transfer_encoding True h = Some (True, ?h1)"
      using Streamed assms(1) by (simp add: transfer_encoding_def length_fields_def)
    have cl: "content_length ?h1 = Some (None, ?h1)"
      using Streamed assms(1) by (simp add: content_length_def length_fields_def header_del_map)
    have del: "map_of (header_del ''Content-Length'' ?h1) = (map_of h)(''Transfer-Encoding'' := None)"
      using Streamed assms(1) by (simp add: header_del_map length_fields_def fun_eq_iff)
    have "fix_trailer (header_del ''Content-Length'' ?h1) = Some (header_del ''Content-Length'' ?h1)"
      using assms(1,2) by (simp add: fix_trailer_def header_del_map)
    moreover have "chunk_data (Suc (length (wire_body body))) (wire_body body) = concat ps"
      unfolding Streamed wire_body_def req_body.case
    proof (rule chunk_data_chunks)
      show "\<forall>p \<in> set ps. length p < 16 ^ 16" using assms(3) Streamed by (fastforce simp: body_ok_def)
      show "length (filter (\<lambda>p. p \<noteq> []) ps) < Suc (length (concat (map chunk ps) @ ''0'' @ crlf @ crlf))"
        using chunks_long [of ps] by simp
    qed
    ultimately show ?thesis
      using te cl del Streamed by (simp add: read_request_body_def body_data_def)
  qed
qed

subsection \<open>The request line\<close>

lemma write_delivered:
  assumes "handed_over r"
  shows "write_request punycode r body = Some ((rq_method r @ '' '' @ rq_uri r @ '' HTTP/1.1'') @ crlf @
    field_lines (header_fields (wire_fields (rq_host r) r body)) @ crlf @ wire_body body)"
proof -
  have h: "good_header (rq_header r)" "list_all host_byte (rq_host r)" "\<not> has_prefix (rq_host r) ''[''" "rq_path r \<noteq> []"
    "rq_method r \<noteq> []" "\<not> list_ex ctl_byte (rq_uri r)" "rq_close r \<longrightarrow> has_token (header_get (rq_header r) ''Connection'') ''close''"
    using assms by (simp_all add: handed_over_def)
  have host: "wire_host punycode (rq_host r) = Some (rq_host r)"
    using h(2,3) host_byte_plain by (auto simp: wire_host_def remove_zone_def list_all_iff)
  have "good_header (passed_header (rq_header r))"
    using h(1) distinct_passed_header(1) [OF h(1)] by (auto simp: good_header_def passed_header_def)
  then have "write_header (passed_header (rq_header r)) = field_lines (header_fields (sort_key fst (passed_header (rq_header r))))"
    unfolding write_header_def by (intro write_fields good_header_sort)
  moreover have "close_fields r = []" using h(7) by (auto simp: close_fields_def)
  moreover have "header_fields (wire_fields (rq_host r) r body) =
      ((''Host'', rq_host r) # agent_fields (rq_header r) @ length_fields (rq_method r) body)
        @ header_fields (sort_key fst (passed_header (rq_header r)))"
    unfolding wire_fields_def fields_append fields_single by simp
  ultimately show ?thesis
    using h(4-6) host by (simp add: write_request_def wire_uri_def field_lines_append Let_def del: append_Cons)
qed

lemma read_request_line:
  assumes "handed_over r"
  shows "read_line ((rq_method r @ '' '' @ rq_uri r @ '' HTTP/1.1'') @ crlf @ s) = Some (rq_method r @ '' '' @ rq_uri r @ '' HTTP/1.1'', s)"
    and "cut_byte (rq_method r @ '' '' @ rq_uri r @ '' HTTP/1.1'') CHR '' '' = Some (rq_method r, rq_uri r @ '' HTTP/1.1'')"
    and "cut_byte (rq_uri r @ '' HTTP/1.1'') CHR '' '' = Some (rq_uri r, ''HTTP/1.1'')"
proof -
  have m: "list_all token_byte (rq_method r)" and u: "CHR '' '' \<notin> set (rq_uri r)" "\<not> list_ex ctl_byte (rq_uri r)"
    using assms by (simp_all add: handed_over_def)
  have "CHR 0x0A \<notin> set (rq_uri r)" using u(2) by (auto simp: list_ex_iff ctl_byte_def code_def)
  moreover have mm: "CHR 0x0A \<notin> set (rq_method r)" "CHR '' '' \<notin> set (rq_method r)" using m token_byte_plain by (auto simp: list_all_iff)
  ultimately show "read_line ((rq_method r @ '' '' @ rq_uri r @ '' HTTP/1.1'') @ crlf @ s)
      = Some (rq_method r @ '' '' @ rq_uri r @ '' HTTP/1.1'', s)"
    by (intro read_line_crlf) simp
  show "cut_byte (rq_method r @ '' '' @ rq_uri r @ '' HTTP/1.1'') CHR '' '' = Some (rq_method r, rq_uri r @ '' HTTP/1.1'')"
    using index_byte_first [OF mm(2), of "rq_uri r @ '' HTTP/1.1''"] by (simp add: cut_byte_def)
  show "cut_byte (rq_uri r @ '' HTTP/1.1'') CHR '' '' = Some (rq_uri r, ''HTTP/1.1'')"
    using index_byte_first [OF u(1), of "''HTTP/1.1''"] by (simp add: cut_byte_def)
qed

text \<open>What a readable request comes to, part by part.\<close>

lemma read_request_parts:
  assumes "read_line s = Some (line, r)" "cut_byte line CHR '' '' = Some (meth, line1)" "cut_byte line1 CHR '' '' = Some (uri, proto)"
    and "parse_version proto = Some v11" "has_prefix uri ''/''" "uri_host other uri = Some []" "meth \<noteq> []" "list_all token_byte meth"
    and "read_mime_header r = Some (h, rest)" "map_of h ''Host'' = Some [host]" "fix_pragma h = h"
    and "read_request_body v11 h rest = Some (h3, body)"
  shows "read_request other s = Some (\<lparr>qp_method = meth, qp_uri = uri, qp_host = host, qp_header = header_del ''Host'' h3,
    qp_close = should_close v11 h, qp_chunked = is_chunked v11 h, qp_body = body\<rparr>, rest)"
  using assms by (simp add: read_request_def header_get_def)

subsection \<open>A request read back\<close>

lemma header_set_distinct: "distinct (map fst h) \<Longrightarrow> distinct (map fst (header_set k v h))"
  by (simp add: header_set_def distinct_update)

lemma header_del_distinct: "distinct (map fst h) \<Longrightarrow> distinct (map fst (header_del k h))"
  by (simp add: header_del_def distinct_delete)

lemma read_body_distinct:
  assumes "read_request_body v11 h rest = Some (h3, b)" "distinct (map fst h)"
  shows "distinct (map fst h3)"
proof -
  obtain chunked h1 len h2 where te: "transfer_encoding v11 h = Some (chunked, h1)" and cl: "content_length h1 = Some (len, h2)"
    using assms(1) by (auto simp: read_request_body_def split: option.splits)
  have "distinct (map fst h1)"
    using te assms(2) by (auto simp: transfer_encoding_def header_del_distinct Let_def split: option.splits if_splits list.splits)
  then have d2: "distinct (map fst h2)"
    using cl by (auto simp: content_length_def Let_def header_set_distinct split: option.splits if_splits list.splits)
  show ?thesis
    using assms(1) te cl d2
    by (auto simp: read_request_body_def fix_trailer_def header_del_distinct split: if_splits option.splits)
qed

text \<open>A header all of whose fields come from a good one is good.\<close>

lemma good_header_sub:
  assumes "good_header g" "distinct (map fst h)" "map_of h \<subseteq>\<^sub>m map_of g"
  shows "good_header h"
proof -
  have "(k, vs) \<in> set g" if "(k, vs) \<in> set h" for k vs
  proof -
    have "map_of h k = Some vs" using that assms(2) by simp
    with assms(3) have "map_of g k = Some vs" by (metis domI map_le_def)
    then show ?thesis by (rule map_of_SomeD)
  qed
  with assms(1,2) show ?thesis by (fastforce simp: good_header_def)
qed

lemma should_close_cong: "map_of g ''Connection'' = map_of h ''Connection'' \<Longrightarrow> should_close v g = should_close v h"
  by (simp add: should_close_def)

text \<open>
  What the client reads of a request that was written: everything of the request, in a header that can be written
  again.
\<close>

lemma request_read_back:
  assumes "handed_over r" "body_ok body"
  obtains s q where "write_request punycode r body = Some s" "read_request other s = Some (q, wire_body body)"
    "qp_method q = rq_method r" "qp_uri q = rq_uri r" "qp_host q = rq_host r" "qp_body q = body_data body"
    "map_of (qp_header q) = arriving_field r body" "good_header (qp_header q)" "qp_close q = should_close True (rq_header r)"
    "qp_chunked q = (\<exists>ps. body = Streamed ps)"
proof -
  let ?g = "wire_fields (rq_host r) r body"
  let ?line = "rq_method r @ '' '' @ rq_uri r @ '' HTTP/1.1''"
  let ?rest = "field_lines (header_fields ?g) @ crlf @ wire_body body"
  note g = wire_fields_map [OF assms(1), of body]
  have d: "fix_pragma (rq_header r) = rq_header r" "rq_host r \<noteq> []" "has_prefix (rq_uri r) ''/''"
    "\<not> list_ex ctl_byte (rq_uri r)" "escapes_ok (fst (cut CHR ''?'' (rq_uri r)))"
    "rq_method r \<noteq> []" "list_all token_byte (rq_method r)"
    using assms(1) by (simp_all add: handed_over_def)
  obtain h' where h': "read_mime_header ?rest = Some (h', wire_body body)" "distinct (map fst h')"
    "map_of h' = (\<lambda>k. map_option (map clean_value) (map_of ?g k))"
    using read_good_fields [OF wire_fields_good [OF assms(1)]] .
  then have m: "map_of h' = map_of ?g" using clean_delivered [OF assms(1)] by auto
  have pragma: "fix_pragma h' = h'"
    by (rule fix_pragma_id_cong [OF d(1)]) (simp_all add: m g arriving_field_def own_fields_def)
  obtain h3 where h3: "read_request_body True h' (wire_body body) = Some (h3, body_data body)"
    "map_of h3 = (map_of h')(''Transfer-Encoding'' := None)"
  proof -
    have "map_of h' = (\<lambda>k. if k = ''Transfer-Encoding'' \<or> k = ''Content-Length''
        then map_option (\<lambda>v. [v]) (map_of (length_fields (rq_method r) body) k) else map_of ?g k)"
      by (auto simp: m g arriving_field_def)
    moreover have "map_of ?g ''Trailer'' = None" by (simp add: g arriving_field_def own_fields_def)
    ultimately show ?thesis using read_written_body assms(2) that by blast
  qed
  have host: "map_of h' ''Host'' = Some [rq_host r]" by (simp add: m g arriving_field_def)
  have version: "parse_version ''HTTP/1.1'' = Some True" by code_simp
  have uri: "uri_host other (rq_uri r) = Some []" using d(3-5) by (auto simp: uri_host_def)
  note read = read_request_parts [OF read_request_line [OF assms(1)] version d(3) uri d(6,7) h'(1) host pragma h3(1)]
  have seen: "map_of (header_del ''Host'' h3) = arriving_field r body"
    using h3(2) by (auto simp: header_del_map m g arriving_field_def own_fields_def fun_eq_iff)
  have "map_of (header_del ''Host'' h3) \<subseteq>\<^sub>m map_of ?g"
    using h3(2) by (auto simp: header_del_map m map_le_def)
  moreover have "distinct (map fst (header_del ''Host'' h3))"
    by (rule header_del_distinct [OF read_body_distinct [OF h3(1) h'(2)]])
  ultimately have good: "good_header (header_del ''Host'' h3)" using good_header_sub [OF wire_fields_good [OF assms(1)]] by blast
  have close: "should_close True h' = should_close True (rq_header r)"
    by (rule should_close_cong) (simp add: m g arriving_field_def own_fields_def)
  have "map_of h' ''Transfer-Encoding'' = map_option (\<lambda>v. [v]) (map_of (length_fields (rq_method r) body) ''Transfer-Encoding'')"
    by (simp add: m g)
  then have chunked: "is_chunked True h' = (\<exists>ps. body = Streamed ps)"
    by (cases body) (auto simp: is_chunked_def transfer_encoding_def length_fields_def equal_fold_def)
  show ?thesis
    by (rule that [OF write_delivered [OF assms(1), of punycode body] read]) (simp_all add: seen good close chunked)
qed

text \<open>
  A request goes from the visitor to the client unharmed. Whatever request of HTTP/1.1 with a path
  \<open>net/http\<close> hands to the router, the client that reads the stream gets the same method, request URI and host,
  the same body however it was framed, and every field of the header with its values, but for those that belong
  to the transport: the length is that of the body, and a visitor without a \<open>User-Agent\<close> appears as the Go
  library. In particular it sees an upgrade exactly when the router did.
\<close>

lemma request_end_to_end:
  assumes "handed_over r" "body_ok body"
  shows "\<exists>s q. write_request punycode r body = Some s \<and> read_request other s = Some (q, wire_body body) \<and>
    qp_method q = rq_method r \<and> qp_uri q = rq_uri r \<and> qp_host q = rq_host r \<and> qp_body q = body_data body \<and>
    map_of (qp_header q) = arriving_field r body \<and>
    is_upgrade (r\<lparr>rq_header := qp_header q\<rparr>) = is_upgrade r"
proof -
  obtain s q where q: "write_request punycode r body = Some s" "read_request other s = Some (q, wire_body body)"
    "qp_method q = rq_method r" "qp_uri q = rq_uri r" "qp_host q = rq_host r" "qp_body q = body_data body"
    "map_of (qp_header q) = arriving_field r body"
    by (rule request_read_back [OF assms])
  moreover have "is_upgrade (r\<lparr>rq_header := qp_header q\<rparr>) = is_upgrade r"
    using q(7) by (simp add: is_upgrade_def header_get_def arriving_field_def own_fields_def)
  ultimately show ?thesis by blast
qed

subsection \<open>A concrete request\<close>

definition demo_post :: request where
  "demo_post =
     \<lparr>rq_method = ''POST'', rq_uri = ''/a?b=c'', rq_path = ''/a'', rq_host = ''foo.router.com:8080'',
      rq_header = [(''Accept'', [''text/html'', ''*/*'']), (''Content-Length'', [''2''])], rq_close = False, rq_basic = None\<rparr>"

lemma demo_post_delivered: "handed_over demo_post"
  by code_simp

lemma demo_post_arrives:
  "\<exists>s q. write_request (\<lambda>_. None) demo_post (Sized ''hi'') = Some s \<and> read_request (\<lambda>_. None) s = Some (q, ''hi'') \<and>
     qp_uri q = ''/a?b=c'' \<and> qp_body q = ''hi'' \<and> map_of (qp_header q) ''User-Agent'' = Some [''Go-http-client/1.1'']"
proof -
  have "body_ok (Sized ''hi'')" by (simp add: body_ok_def)
  from request_end_to_end [OF demo_post_delivered this, of "\<lambda>_. None" "\<lambda>_. None"] show ?thesis
    by (auto simp: demo_post_def wire_body_def body_data_def arriving_field_def agent_fields_def Let_def)
qed

end
