(* ===== verification/Visit.thy ===== *)
theory Visit
  imports ReadResponse RequestWire
begin

text \<open>
  One request from the visitor to the handler of a client and back: \<open>forwardHTTP\<close> of \<open>server/proxy.go\<close> writes it to
  a stream, \<open>Serve\<close> of \<open>client/handler.go\<close> reads it, runs the handler and writes the response, and \<open>forwardHTTP\<close>
  relays that. Everything is the bytes on the stream; the counters are theirs.
\<close>

subsection \<open>The client's end of a stream\<close>

text \<open>The request that \<open>ReadRequest\<close> hands to the handler; \<open>basic\<close> is \<open>BasicAuth\<close> on a header.\<close>

definition client_request ::
  "(string \<Rightarrow> string) \<Rightarrow> (header \<Rightarrow> (string \<times> string) option) \<Rightarrow> parsed_request \<Rightarrow> request" where
  "client_request other basic q =
     \<lparr>rq_method = qp_method q, rq_uri = qp_uri q, rq_path = uri_path other (qp_uri q), rq_host = qp_host q,
      rq_header = qp_header q, rq_close = qp_close q, rq_basic = basic (qp_header q)\<rparr>"

text \<open>What the handler does may depend on the request and its body.\<close>

definition serve_stream ::
  "(string \<Rightarrow> string option) \<Rightarrow> (string \<Rightarrow> string) \<Rightarrow> (header \<Rightarrow> (string \<times> string) option) \<Rightarrow>
   (request \<Rightarrow> string \<Rightarrow> rw_op list \<times> bool) \<Rightarrow> string \<Rightarrow> writer \<Rightarrow> bool \<times> writer" where
  "serve_stream other_host other_path basic handler s w =
     (case read_request other_host s of
        None \<Rightarrow> handler_serve (\<lambda>r. handler r []) None w
      | Some (q, _) \<Rightarrow> handler_serve (\<lambda>r. handler r (qp_body q)) (Some (client_request other_path basic q)) w)"

subsection \<open>The whole way\<close>

text \<open>
  \<open>serve\<close> is the other end of the stream, from the bytes it gets to the bytes it sends; \<open>reads\<close> is how the body of
  the response comes in. \<open>None\<close>: the request cannot be written.
\<close>

definition visit ::
  "(string \<Rightarrow> string option) \<Rightarrow> (string \<Rightarrow> string) \<Rightarrow> (string \<Rightarrow> (string \<times> bool) list) \<Rightarrow> nat \<Rightarrow> nat \<Rightarrow> nat \<Rightarrow> bool \<Rightarrow>
   request \<Rightarrow> req_body \<Rightarrow> stats \<Rightarrow> (answer \<times> stats) option" where
  "visit punycode serve reads start now1 now2 flusher r body st =
     map_option
       (\<lambda>s. let reply = serve s;
                cw = counter_read (length reply) (counter_write (length s) new_counter);
                resp = (case read_response (rq_method r) reply of
                          None \<Rightarrow> Inl ''malformed response''
                        | Some p \<Rightarrow> Inr (as_response p (reads (pr_body p))))
            in forward_http start now1 now2 True resp cw flusher None [] st)
       (write_request punycode r body)"

text \<open>The request as the handler sees it.\<close>

definition seen_as :: "request \<Rightarrow> req_body \<Rightarrow> request \<Rightarrow> bool" where
  "seen_as r body q \<longleftrightarrow>
     rq_method q = rq_method r \<and> rq_uri q = rq_uri r \<and> rq_path q = rq_path r \<and> rq_host q = rq_host r \<and>
     map_of (rq_header q) = arriving_field r body \<and> is_upgrade q = is_upgrade r"

lemma client_request_seen:
  assumes "rq_path r = uri_path other (rq_uri r)"
    and "qp_method q = rq_method r" "qp_uri q = rq_uri r" "qp_host q = rq_host r" "map_of (qp_header q) = arriving_field r body"
  shows "seen_as r body (client_request other basic q)"
  using assms
  by (simp add: seen_as_def client_request_def is_upgrade_def header_get_def arriving_field_def own_fields_def)

text \<open>A handler that answers in one piece of program: headers, a final status with a body, and the body.\<close>

definition answers_with ::
  "rw_op list \<times> bool \<Rightarrow> (string \<times> string) list \<Rightarrow> nat \<Rightarrow> rw_op list \<Rightarrow> nat \<Rightarrow> bool" where
  "answers_with result hs st ops space \<longleftrightarrow>
     result = (plain_handler hs st ops, False) \<and> HijackConn \<notin> set ops \<and> plain_headers hs \<and>
     200 \<le> st \<and> st < 1000 \<and> st \<noteq> 204 \<and> st \<noteq> 304 \<and> (\<forall>p \<in> set (writes ops). length p < 2 ^ 63) \<and>
     length (head_string hs st @ body_string hs st ops) \<le> space"

lemma served_stream:
  assumes "read_request other_host s = Some (q, rest)" "handler (client_request other_path basic q) (qp_body q) = (ops, False)"
  shows "serve_stream other_host other_path basic handler s w =
    handler_serve (\<lambda>_. (ops, False)) (Some (client_request other_path basic q)) w"
  using assms by (simp add: serve_stream_def handler_serve_def)

lemma stream_counter [simp]:
  "ct_written (counter_read n (counter_write m new_counter)) = word_of_nat m"
  "ct_read (counter_read n (counter_write m new_counter)) = word_of_nat n"
  by (simp_all add: counter_read_def counter_write_def new_counter_def)

text \<open>A response that is relayed at all counts as one request.\<close>

lemma forward_http_stats:
  assumes "an_status (fst (forward_http start now1 now2 True (Inr p) cw flusher fails dst st)) \<noteq> 0"
  shows "snd (forward_http start now1 now2 True (Inr p) cw flusher fails dst st) =
    http_stream_end (http_completed now1 now2 (int now1 - int start) (ct_written cw) (ct_read cw) (http_stream_start st))"
  using assms by (simp add: forward_http_def aborted_def Let_def split: if_splits)

subsection \<open>Property\<close>

text \<open>
  C3. A visit, from the visitor to the handler and back. For every request that \<open>net/http\<close> hands to the router
  there is one request that the handler sees: the same method, URI, path, host and body, with every header field
  but those of the transport, and an upgrade exactly when the visitor asked for one. Whatever the handler
  answers to it, a final status with headers and a body written in any pieces, the visitor gets that status,
  that body and those headers (and \<open>Connection: close\<close>), and the request is counted once with the bytes that
  crossed the stream.
\<close>

theorem visit_end_to_end:
  assumes "handed_over r" "body_ok body" "rq_path r = uri_path other_path (rq_uri r)" "rq_method r \<noteq> ''HEAD''"
    and "\<forall>b. delivers b (reads b)" "sent w = []"
  shows "\<exists>q s. seen_as r body q \<and> write_request punycode r body = Some s \<and>
    (\<forall>hs c ops. answers_with (handler q (body_data body)) hs c ops (room w) \<longrightarrow>
      (\<exists>a. visit punycode (\<lambda>s. sent (snd (serve_stream other_host other_path basic handler s w))) reads start now1 now2 flusher r body st
           = Some (a, http_stream_end (http_completed now1 now2 (int now1 - int start) (word_of_nat (length s))
               (word_of_nat (length (head_string hs c @ body_string hs c ops))) (http_stream_start st))) \<and>
         an_status a = c \<and> an_body a = concat (writes ops) \<and> map_of (an_header a) = relayed_header hs))"
proof -
  obtain s q where q: "write_request punycode r body = Some s" "read_request other_host s = Some (q, wire_body body)"
    "qp_method q = rq_method r" "qp_uri q = rq_uri r" "qp_host q = rq_host r" "qp_body q = body_data body"
    "map_of (qp_header q) = arriving_field r body"
    by (rule request_read_back [OF assms(1,2)])
  let ?q = "client_request other_path basic q"
  have seen: "seen_as r body ?q" by (rule client_request_seen [OF assms(3) q(3-5,7)])
  have "\<exists>a. visit punycode (\<lambda>s. sent (snd (serve_stream other_host other_path basic handler s w))) reads start now1 now2 flusher r body st
         = Some (a, http_stream_end (http_completed now1 now2 (int now1 - int start) (word_of_nat (length s))
             (word_of_nat (length (head_string hs c @ body_string hs c ops))) (http_stream_start st))) \<and>
       an_status a = c \<and> an_body a = concat (writes ops) \<and> map_of (an_header a) = relayed_header hs"
    if a: "answers_with (handler ?q (body_data body)) hs c ops (room w)" for hs c ops
  proof -
    have f: "HijackConn \<notin> set ops" "length (head_string hs c @ body_string hs c ops) \<le> room w" "200 \<le> c" "c < 1000"
      "c \<noteq> 204" "c \<noteq> 304" "plain_headers hs" "\<forall>p \<in> set (writes ops). length p < 2 ^ 63"
      and h: "handler ?q (body_data body) = (plain_handler hs c ops, False)"
      using a by (simp_all add: answers_with_def)
    have serve: "serve_stream other_host other_path basic handler s w = handler_serve (\<lambda>_. (plain_handler hs c ops, False)) (Some ?q) w"
      by (rule served_stream [OF q(2)]) (simp add: h q(6))
    note bytes = served_bytes [OF f(1) assms(6) f(2), of ?q]
    let ?cw = "counter_read (length (head_string hs c @ body_string hs c ops)) (counter_write (length s) new_counter)"
    obtain p where p: "read_response (rq_method r) (head_string hs c @ body_string hs c ops) = Some p"
      and relay: "\<forall>rs. delivers (pr_body p) rs \<longrightarrow>
        (let a = fst (forward_http start now1 now2 True (Inr (as_response p rs)) ?cw flusher None [] st)
         in an_status a = c \<and> an_body a = concat (writes ops) \<and> map_of (an_header a) = relayed_header hs)"
      using response_end_to_end [OF f(1) assms(6) f(2-6) assms(4) f(7,8), of ?q start now1 now2 ?cw flusher st]
      unfolding bytes by blast
    define res where "res = forward_http start now1 now2 True (Inr (as_response p (reads (pr_body p)))) ?cw flusher None [] st"
    have a: "an_status (fst res) = c" "an_body (fst res) = concat (writes ops)" "map_of (an_header (fst res)) = relayed_header hs"
      using relay assms(5) by (simp_all add: res_def Let_def)
    have "snd res = http_stream_end (http_completed now1 now2 (int now1 - int start) (word_of_nat (length s))
        (word_of_nat (length (head_string hs c @ body_string hs c ops))) (http_stream_start st))"
      using forward_http_stats a(1) f(3) unfolding res_def by fastforce
    moreover have "visit punycode (\<lambda>s. sent (snd (serve_stream other_host other_path basic handler s w))) reads start now1 now2 flusher r body st = Some res"
      by (simp only: visit_def q(1) option.map serve bytes p option.case Let_def res_def)
    ultimately show ?thesis using a by (metis prod.collapse)
  qed
  with seen q(1) show ?thesis by blast
qed

subsection \<open>A concrete visit\<close>

definition refusing :: "request \<Rightarrow> string \<Rightarrow> rw_op list \<times> bool" where
  "refusing q body = (plain_handler [(''X-Id'', ''7'')] 404 [WriteBody ''no'', FlushNow, WriteBody ''pe''], False)"

lemma refusing_answers:
  "answers_with (refusing q body) [(''X-Id'', ''7'')] 404 [WriteBody ''no'', FlushNow, WriteBody ''pe''] 200"
  using demo_response_fits(1,3) unfolding answers_with_def refusing_def by (intro conjI refl) simp_all

theorem visit_end_to_end_witness:
  "\<exists>a st. visit (\<lambda>_. None) (\<lambda>s. sent (snd (serve_stream (\<lambda>_. None) id (\<lambda>_. None) refusing s wide_conn))) (\<lambda>b. [(b, True)])
      0 1 1 True demo_post (Sized ''hi'') (new_stats ''foo'') = Some (a, st) \<and> an_status a = 404 \<and> an_body a = ''nope''"
proof -
  have ok: "body_ok (Sized ''hi'')" "rq_path demo_post = uri_path id (rq_uri demo_post)" "rq_method demo_post \<noteq> ''HEAD''"
    by (simp add: body_ok_def) code_simp+
  have "delivers b [(b, True)]" for b unfolding delivers_def by (intro exI [of _ "[]"] exI [of _ b]) simp
  then have reads: "\<forall>b. delivers b [(b, True)]" by blast
  have w: "sent wide_conn = []" "room wide_conn = 200" by (simp_all add: wide_conn_def)
  from visit_end_to_end [OF demo_post_delivered ok reads w(1), where punycode = "\<lambda>_. None" and other_host = "\<lambda>_. None" and handler = refusing
      and basic = "\<lambda>_. None" and start = 0 and ?now1.0 = 1 and ?now2.0 = 1 and flusher = True and st = "new_stats ''foo''"]
    refusing_answers show ?thesis unfolding w(2) by fastforce
qed

end
