(* ===== verification/ProxyWire.thy ===== *)
theory ProxyWire
  imports ProxyClient Visit
begin

text \<open>
  A visit that a proxy client serves (\<open>client/proxy.go\<close>): the request is read from the stream, rewritten, written
  to the target and read there, and the bytes the target answers with go back over the stream to \<open>forwardHTTP\<close>
  of \<open>server/proxy.go\<close>.
\<close>

subsection \<open>The stream of a proxy client\<close>

text \<open>
  The body of a request that was read, as it is written again: chunked if it came so, in the pieces in which it
  is copied.
\<close>

definition carried_body :: "(string \<Rightarrow> string list) \<Rightarrow> parsed_request \<Rightarrow> req_body" where
  "carried_body pieces q =
     (if qp_chunked q then Streamed (pieces (qp_body q)) else if qp_body q = [] then NoBody else Sized (qp_body q))"

text \<open>\<open>Serve\<close> on the bytes \<open>s\<close> of one request; \<open>target\<close> is the local service, from what it gets to what it sends.\<close>

definition proxy_stream ::
  "(string \<Rightarrow> string option) \<Rightarrow> (string \<Rightarrow> string option) \<Rightarrow> (string \<Rightarrow> string) \<Rightarrow> (header \<Rightarrow> (string \<times> string) option) \<Rightarrow>
   (string \<Rightarrow> string list) \<Rightarrow> (string \<Rightarrow> bool \<Rightarrow> string option) \<Rightarrow> (string \<Rightarrow> string) \<Rightarrow> proxy_client \<Rightarrow> string \<Rightarrow>
   writer \<Rightarrow> writer \<Rightarrow> proxy_end \<times> writer \<times> writer" where
  "proxy_stream punycode other_host other_path basic pieces dial target pc s upstream stream =
     (let none = \<lparr>pw_request = Inl (s = []), pw_dial = dial, pw_wire = (\<lambda>_. None), pw_upstream = upstream,
                  pw_buffered = [], pw_stream = [], pw_reply = []\<rparr>
      in case read_request other_host s of
           None \<Rightarrow> proxy_serve pc none stream
         | Some (q, _) \<Rightarrow>
             (let r = client_request other_path basic q;
                  wire = (\<lambda>r. write_request punycode r (carried_body pieces q));
                  reply = (case wire (proxy_request pc r) of None \<Rightarrow> [] | Some bytes \<Rightarrow> target bytes)
              in proxy_serve pc (none\<lparr>pw_request := Inr r, pw_wire := wire, pw_reply := reply\<rparr>) stream))"

subsection \<open>The rewritten request\<close>

text \<open>Host rewriting needs a host that can be sent.\<close>

definition target_host_ok :: "proxy_client \<Rightarrow> bool" where
  "target_host_ok pc \<longleftrightarrow>
     (pc_host_rewrite pc \<longrightarrow> list_all host_byte (url_host (pc_target pc)) \<and> url_host (pc_target pc) \<noteq> [] \<and>
        \<not> has_prefix (url_host (pc_target pc)) ''['')"

lemma proxy_request_simps:
  "rq_method (proxy_request pc r) = rq_method r" "rq_uri (proxy_request pc r) = rq_uri r" "rq_path (proxy_request pc r) = rq_path r"
  "rq_host (proxy_request pc r) = (if pc_host_rewrite pc then url_host (pc_target pc) else rq_host r)"
  "rq_header (proxy_request pc r) = header_set ''Connection'' ''close'' (rq_header r)" "rq_close (proxy_request pc r)"
  by (simp_all add: proxy_request_def Let_def)

lemma header_set_map: "map_of (header_set k v h) = (map_of h)(k \<mapsto> [v])"
  by (simp add: header_set_def update_conv')

lemma arriving_values_clean:
  assumes "handed_over r" "arriving_field r body k = Some vs" "v \<in> set vs"
  shows "clean_value v = v"
proof -
  have h: "good_header (rq_header r)" "\<forall>(k, vs) \<in> set (rq_header r). \<forall>v \<in> set vs. clean_value v = v"
    using assms(1) by (simp_all add: handed_over_def)
  from assms(2,3) consider "(k, v) \<in> set (length_fields (rq_method r) body)" | "(k, v) \<in> set (agent_fields (rq_header r))"
    | "(k, vs) \<in> set (rq_header r)"
    by (auto simp: arriving_field_def dest: map_of_SomeD split: if_splits)
  then show ?thesis
  proof cases
    case 1
    from length_fields_good [OF this] show ?thesis by simp
  next
    case 2
    from agent_fields_good [OF h(1) this h(2)] show ?thesis by simp
  next
    case 3
    with h(2) assms(3) show ?thesis by blast
  qed
qed

lemma proxied_handed_over:
  assumes "handed_over r" "rq_path r = uri_path other (rq_uri r)" "target_host_ok pc"
    and q: "qp_method q = rq_method r" "qp_uri q = rq_uri r" "qp_host q = rq_host r"
    "map_of (qp_header q) = arriving_field r body" "good_header (qp_header q)"
  shows "handed_over (proxy_request pc (client_request other basic q))"
proof -
  let ?r = "proxy_request pc (client_request other basic q)"
  have h: "rq_header ?r = header_set ''Connection'' ''close'' (qp_header q)"
    by (simp add: proxy_request_simps client_request_def)
  have m: "map_of (rq_header ?r) = (arriving_field r body)(''Connection'' \<mapsto> [''close''])"
    unfolding h header_set_map q(4) ..
  have good: "good_header (rq_header ?r)" unfolding h by (rule header_set_good [OF q(5) special_names(1,3)])
  have "clean_value v = v" if kv: "(k, vs) \<in> set (rq_header ?r)" "v \<in> set vs" for k vs v
  proof -
    have k: "map_of (rq_header ?r) k = Some vs" using kv(1) good by (simp add: good_header_def)
    show ?thesis
    proof (cases "k = ''Connection''")
      case True
      moreover have "clean_value ''close'' = ''close''" by code_simp
      ultimately show ?thesis using k kv(2) by (auto simp: m)
    next
      case False
      with k have "arriving_field r body k = Some vs" by (simp add: m)
      from arriving_values_clean [OF assms(1) this kv(2)] show ?thesis .
    qed
  qed
  moreover have "fix_pragma (rq_header ?r) = rq_header ?r"
    by (rule fix_pragma_id_cong [of "rq_header r"]) (use assms(1) in \<open>simp_all add: handed_over_def m arriving_field_def own_fields_def\<close>)
  moreover have "map_of (rq_header ?r) ''Host'' = None" by (simp add: m arriving_field_def own_fields_def)
  moreover have "has_token (header_get (rq_header ?r) ''Connection'') ''close''"
    unfolding h header_get_set by code_simp
  moreover have "rq_path ?r = rq_path r" "rq_method ?r = rq_method r" "rq_uri ?r = rq_uri r"
    using assms(2) q(1,2) by (simp_all add: proxy_request_simps client_request_def)
  moreover have "list_all host_byte (rq_host ?r) \<and> \<not> has_prefix (rq_host ?r) ''['' \<and> rq_host ?r \<noteq> []"
    using assms(1,3) q(3) by (simp add: proxy_request_simps client_request_def target_host_ok_def handed_over_def)
  ultimately show ?thesis using assms(1) good unfolding handed_over_def by auto
qed

lemma carried_body_data:
  assumes "concat (pieces (qp_body q)) = qp_body q"
  shows "body_data (carried_body pieces q) = qp_body q"
  using assms by (simp add: carried_body_def body_data_def)

lemma carried_body_ok:
  assumes "body_ok body" "qp_body q = body_data body" "qp_chunked q = (\<exists>ps. body = Streamed ps)"
    and "\<forall>p \<in> set (pieces (qp_body q)). length p < 2 ^ 63"
  shows "body_ok (carried_body pieces q)"
  using assms by (cases body) (simp_all add: carried_body_def body_ok_def body_data_def)

subsection \<open>What the target sees\<close>

text \<open>The request that reaches the target, in terms of the one the visitor made.\<close>

definition target_sees :: "proxy_client \<Rightarrow> request \<Rightarrow> req_body \<Rightarrow> parsed_request \<Rightarrow> bool" where
  "target_sees pc r body q \<longleftrightarrow>
     qp_method q = rq_method r \<and> qp_uri q = rq_uri r \<and> qp_body q = body_data body \<and>
     qp_host q = (if pc_host_rewrite pc then url_host (pc_target pc) else rq_host r) \<and>
     map_of (qp_header q) ''Connection'' = Some [''close''] \<and>
     (\<forall>k. k \<notin> {''Connection'', ''Content-Length'', ''User-Agent''} \<longrightarrow> map_of (qp_header q) k = arriving_field r body k)"

lemma target_sees_no_upgrade:
  assumes "target_sees pc r body q"
  shows "\<not> is_upgrade (client_request other basic q)"
  by (rule not_upgrade_close) (use assms in \<open>simp add: target_sees_def client_request_def header_get_def\<close>)

lemma proxied_request:
  assumes "handed_over r" "body_ok body" "rq_path r = uri_path other_path (rq_uri r)" "target_host_ok pc"
    and pieces: "\<forall>b. concat (pieces b) = b" "\<forall>b. \<forall>p \<in> set (pieces b). length p < 2 ^ 63"
  obtains s q bytes q' where "write_request punycode r body = Some s" "read_request other_host s = Some (q, wire_body body)"
    "write_request punycode (proxy_request pc (client_request other_path basic q)) (carried_body pieces q) = Some bytes"
    "read_request other_host bytes = Some (q', wire_body (carried_body pieces q))" "target_sees pc r body q'"
proof -
  obtain s q where q: "write_request punycode r body = Some s" "read_request other_host s = Some (q, wire_body body)"
    "qp_method q = rq_method r" "qp_uri q = rq_uri r" "qp_host q = rq_host r" "qp_body q = body_data body"
    "map_of (qp_header q) = arriving_field r body" "good_header (qp_header q)" "qp_chunked q = (\<exists>ps. body = Streamed ps)"
    by (rule request_read_back [OF assms(1,2)])
  let ?r = "proxy_request pc (client_request other_path basic q)" and ?b = "carried_body pieces q"
  have r: "handed_over ?r" by (rule proxied_handed_over [OF assms(1,3,4) q(3-5,7,8)])
  have b: "body_ok ?b" by (rule carried_body_ok [OF assms(2) q(6,9)]) (use pieces(2) in blast)
  obtain bytes q' where q': "write_request punycode ?r ?b = Some bytes" "read_request other_host bytes = Some (q', wire_body ?b)"
    "qp_method q' = rq_method ?r" "qp_uri q' = rq_uri ?r" "qp_host q' = rq_host ?r" "qp_body q' = body_data ?b"
    "map_of (qp_header q') = arriving_field ?r ?b"
    by (rule request_read_back [OF r b])
  have h: "map_of (rq_header ?r) = (arriving_field r body)(''Connection'' \<mapsto> [''close''])"
    by (simp add: proxy_request_simps client_request_def header_set_map q(7))
  have "map_of (qp_header q') k = (if k = ''Connection'' then Some [''close''] else arriving_field r body k)"
    if "k \<noteq> ''Content-Length''" "k \<noteq> ''User-Agent''" for k
    using that unfolding q'(7) arriving_field_def [of ?r] h by (simp add: own_fields_def) (simp add: arriving_field_def own_fields_def)
  moreover have "qp_body q' = body_data body" using q'(6) carried_body_data pieces(1) q(6) by simp
  ultimately have "target_sees pc r body q'"
    using q(3-5) q'(3-5) by (simp add: target_sees_def proxy_request_simps client_request_def)
  with that q(1,2) q'(1,2) show ?thesis by blast
qed

lemma proxy_stream_proxied:
  assumes "read_request other_host s = Some (q, rest)" "dial (dial_addr pc) (use_tls pc) = None"
    and "write_request punycode (proxy_request pc (client_request other_path basic q)) (carried_body pieces q) = Some bytes"
    and "length bytes \<le> room upstream" "length (target bytes) \<le> room stream"
  shows "proxy_stream punycode other_host other_path basic pieces dial target pc s upstream stream =
    (Proxied (proxy_request pc (client_request other_path basic q)), snd (conn_write bytes upstream), snd (conn_write (target bytes) stream))"
  using assms by (simp add: proxy_stream_def proxy_serve_def Let_def conn_write_ok copy_upstream_def)

subsection \<open>Property\<close>

text \<open>
  C4. A visit through a proxy client. For every request that \<open>net/http\<close> hands to the router, the target gets one
  request with the same method, URI and body, under the visitor's host or its own if host rewriting is on, with
  every header field of the visitor but those of the transport, and with \<open>Connection: close\<close>: never an upgrade,
  although the documentation promises web sockets in this mode. Whatever response the target writes, the visitor
  gets the status, the header and the body that \<open>ReadResponse\<close> finds in it.
\<close>

theorem visit_through_proxy:
  assumes "handed_over r" "body_ok body" "rq_path r = uri_path other_path (rq_uri r)" "target_host_ok pc"
    and "\<forall>b. concat (pieces b) = b" "\<forall>b. \<forall>p \<in> set (pieces b). length p < 2 ^ 63"
    and "\<forall>b. delivers b (reads b)" "dial (dial_addr pc) (use_tls pc) = None"
  shows "\<exists>bytes q. read_request other_host bytes = Some q \<and> target_sees pc r body (fst q) \<and>
    \<not> is_upgrade (client_request other_path basic (fst q)) \<and>
    (\<forall>upstream stream p. length bytes \<le> room upstream \<and> sent stream = [] \<and> length (target bytes) \<le> room stream \<and>
        read_response (rq_method r) (target bytes) = Some p \<and> distinct (map fst (pr_header p)) \<and> 100 \<le> pr_status p \<longrightarrow>
        (\<exists>a st'. visit punycode
             (\<lambda>s. sent (snd (snd (proxy_stream punycode other_host other_path basic pieces dial target pc s upstream stream))))
             reads start now1 now2 flusher r body st = Some (a, st') \<and>
           an_status a = final_status (pr_status p) \<and> an_body a = pr_body p \<and> map_of (an_header a) = map_of (pr_header p)))"
proof -
  obtain s q bytes q' where q: "write_request punycode r body = Some s" "read_request other_host s = Some (q, wire_body body)"
    "write_request punycode (proxy_request pc (client_request other_path basic q)) (carried_body pieces q) = Some bytes"
    "read_request other_host bytes = Some (q', wire_body (carried_body pieces q))" "target_sees pc r body q'"
    by (rule proxied_request [OF assms(1-6)])
  let ?serve = "\<lambda>upstream stream s. sent (snd (snd (proxy_stream punycode other_host other_path basic pieces dial target pc s upstream stream)))"
  have "\<exists>a st'. visit punycode (?serve upstream stream) reads start now1 now2 flusher r body st = Some (a, st') \<and>
      an_status a = final_status (pr_status p) \<and> an_body a = pr_body p \<and> map_of (an_header a) = map_of (pr_header p)"
    if fits: "length bytes \<le> room upstream" "length (target bytes) \<le> room stream" and empty: "sent stream = []"
      and p: "read_response (rq_method r) (target bytes) = Some p" "distinct (map fst (pr_header p))" "100 \<le> pr_status p" for upstream stream p
  proof -
    have reply: "?serve upstream stream s = target bytes"
      using proxy_stream_proxied [where target = target and stream = stream and dial = dial and pc = pc and upstream = upstream, OF q(2) assms(8) q(3) fits] fits(2) empty by (simp add: conn_write_ok)
    let ?cw = "counter_read (length (target bytes)) (counter_write (length s) new_counter)"
    define res where "res = forward_http start now1 now2 True (Inr (as_response p (reads (pr_body p)))) ?cw flusher None [] st"
    have "visit punycode (?serve upstream stream) reads start now1 now2 flusher r body st = Some res"
      by (simp only: visit_def q(1) option.map reply p(1) option.case Let_def res_def)
    moreover have "an_status (fst res) = final_status (pr_status p) \<and> an_body (fst res) = pr_body p \<and>
        map_of (an_header (fst res)) = map_of (pr_header p)"
      using relay_parsed [OF spec [OF assms(7)] p(2,3)] by (simp add: res_def Let_def)
    ultimately show ?thesis by (metis prod.collapse)
  qed
  with q(4,5) target_sees_no_upgrade [OF q(5)] show ?thesis by (intro exI [of _ bytes] exI [of _ "(q', wire_body (carried_body pieces q))"]) simp
qed

subsection \<open>A concrete visit\<close>

definition ok_reply :: string where
  "ok_reply = ''HTTP/1.1 200 OK'' @ crlf @ ''X-Id: 7'' @ crlf @ crlf @ ''ok''"

lemma ok_reply_read:
  "read_response ''POST'' ok_reply = Some \<lparr>pr_status = 200, pr_header = [(''X-Id'', [''7''])], pr_body = ''ok''\<rparr>"
  by code_simp

theorem visit_through_proxy_witness:
  "\<exists>upstream stream a st. visit (\<lambda>_. None) (\<lambda>s. sent (snd (snd (proxy_stream (\<lambda>_. None) (\<lambda>_. None) id (\<lambda>_. None)
        (map (\<lambda>c. [c])) (\<lambda>_ _. None) (\<lambda>_. ok_reply) demo_proxy s upstream stream)))) (\<lambda>b. [(b, True)]) 0 1 1 True
        demo_post (Sized ''hi'') (new_stats ''foo'') = Some (a, st) \<and> an_status a = 200 \<and> an_body a = ''ok''"
proof -
  have ok: "body_ok (Sized ''hi'')" "rq_path demo_post = uri_path id (rq_uri demo_post)" "rq_method demo_post = ''POST''"
    by (simp add: body_ok_def) code_simp+
  have host: "target_host_ok demo_proxy" by code_simp
  have "concat (map (\<lambda>c. [c]) b) = b" for b :: string by (induction b) simp_all
  then have pieces: "\<forall>b :: string. concat (map (\<lambda>c. [c]) b) = b" "\<forall>b :: string. \<forall>p \<in> set (map (\<lambda>c. [c]) b). length p < 2 ^ 63"
    by auto
  have "delivers b [(b, True)]" for b unfolding delivers_def by (intro exI [of _ "[]"] exI [of _ b]) simp
  then have reads: "\<forall>b. delivers b [(b, True)]" by blast
  obtain bytes :: string where b: "\<forall>upstream stream p. length bytes \<le> room upstream \<and> sent stream = [] \<and> length ok_reply \<le> room stream \<and>
      read_response (rq_method demo_post) ok_reply = Some p \<and> distinct (map fst (pr_header p)) \<and> 100 \<le> pr_status p \<longrightarrow>
      (\<exists>a st'. visit (\<lambda>_. None) (\<lambda>s. sent (snd (snd (proxy_stream (\<lambda>_. None) (\<lambda>_. None) id (\<lambda>_. None) (map (\<lambda>c. [c]))
           (\<lambda>_ _. None) (\<lambda>_. ok_reply) demo_proxy s upstream stream)))) (\<lambda>b. [(b, True)]) 0 1 1 True demo_post (Sized ''hi'')
           (new_stats ''foo'') = Some (a, st') \<and>
         an_status a = final_status (pr_status p) \<and> an_body a = pr_body p \<and> map_of (an_header a) = map_of (pr_header p))"
    using visit_through_proxy [where dial = "\<lambda>_ _. None" and target = "\<lambda>_. ok_reply"
        and punycode = "\<lambda>_. None" and other_host = "\<lambda>_. None" and basic = "\<lambda>_. None" and start = 0 and ?now1.0 = 1
        and ?now2.0 = 1 and flusher = True and st = "new_stats ''foo''", OF demo_post_delivered ok(1,2) host pieces reads refl]
    by (elim exE conjE) (rule that)
  have "final_status 200 = 200" by (simp add: final_status_def)
  with b [rule_format, of "\<lparr>sent = [], room = length bytes, failure = Timeout\<rparr>" "\<lparr>sent = [], room = length ok_reply, failure = Timeout\<rparr>"]
  show ?thesis using ok(3) ok_reply_read by fastforce
qed

end
