(* ===== verification/Public.thy ===== *)
theory Public
  imports Certs Http
begin

text \<open>
  The public listeners (\<open>server/server.go\<close>): the handler chain of plain HTTP, the redirect to HTTPS, the
  routing of a request by path and host, and the health check. The answer of the registry lookup is an
  argument of the last step, so that the theories that know the registry can supply it.
\<close>

subsection \<open>Routing a request\<close>

datatype public_action =
    ServeHealth
  | ServeAdmin
  | UnknownHost \<comment> \<open>404\<close>
  | ShowIssuing issuing_page nat
  | LookUp string

definition apex_host :: "config \<Rightarrow> string \<Rightarrow> bool" where
  "apex_host c host \<longleftrightarrow>
     equal_fold host (to_lower (base_domain c)) \<or> equal_fold host (''www.'' @ to_lower (base_domain c))"

text \<open>The page for a host whose certificate is being issued; no issuer, no page.\<close>

definition issuing_for :: "nat \<Rightarrow> cert_issuer option \<Rightarrow> string \<Rightarrow> (issuing_page \<times> nat) option" where
  "issuing_for now certs host =
     (case certs of None \<Rightarrow> None | Some ci \<Rightarrow> render_issuing_page now host ci)"

definition public_route :: "nat \<Rightarrow> config \<Rightarrow> cert_issuer option \<Rightarrow> request \<Rightarrow> public_action" where
  "public_route now c certs r =
     (if rq_path r = ''/health'' then ServeHealth
      else (let host = strip_port (rq_host r); base = to_lower (base_domain c)
            in if apex_host c host then ServeAdmin
               else (let service = extract_service host base
                     in if service = [] then UnknownHost
                        else (case issuing_for now certs (service @ ''.'' @ base) of
                                Some (page, status) \<Rightarrow> ShowIssuing page status
                              | None \<Rightarrow> LookUp service))))"

definition lookup_timeout :: "config \<Rightarrow> duration" where
  "lookup_timeout c = reconnect_grace c + second"

datatype dispatch = GatewayError | DoUpgrade nat | DoHttp nat

definition dispatch_lookup :: "lookup_error + nat \<Rightarrow> request \<Rightarrow> dispatch" where
  "dispatch_lookup res r =
     (case res of
        Inl _ \<Rightarrow> GatewayError
      | Inr sid \<Rightarrow> if is_upgrade r then DoUpgrade sid else DoHttp sid)"

datatype public_result = Answered public_action | Dispatched dispatch

definition public_handler ::
  "nat \<Rightarrow> config \<Rightarrow> cert_issuer option \<Rightarrow> (string \<Rightarrow> lookup_error + nat) \<Rightarrow> request \<Rightarrow> public_result" where
  "public_handler now c certs lookup r =
     (case public_route now c certs r of
        LookUp service \<Rightarrow> Dispatched (dispatch_lookup (lookup service) r)
      | a \<Rightarrow> Answered a)"

subsection \<open>Plain HTTP\<close>

datatype redirect_action = PassOn | RedirectIssuing issuing_page nat | MovedTo string

definition https_redirector :: "nat \<Rightarrow> config \<Rightarrow> cert_issuer option \<Rightarrow> request \<Rightarrow> redirect_action" where
  "https_redirector now c certs r =
     (if rq_path r = ''/health'' then PassOn
      else (let tls_port = port_from_addr (public_tls_addr c);
                host = strip_port (rq_host r);
                base = to_lower (base_domain c);
                service = extract_service host base;
                page = (if \<not> apex_host c host \<and> service \<noteq> [] then issuing_for now certs (service @ ''.'' @ base) else None)
            in case page of
                 Some (p, status) \<Rightarrow> RedirectIssuing p status
               | None \<Rightarrow>
                   MovedTo (''https://'' @ host @ (if tls_port \<noteq> [] \<and> tls_port \<noteq> ''443'' then '':'' @ tls_port else [])
                            @ rq_uri r)))"

datatype plain_action = AcmeChallenge | Redirected redirect_action | Public public_action

text \<open>
  The chain of \<open>buildHTTPHandler\<close>. \<open>acme_claims\<close> says which requests \<open>autocert.HTTPHandler\<close> answers
  itself; it passes the others on.
\<close>

definition redirect_active :: "config \<Rightarrow> bool \<Rightarrow> bool" where
  "redirect_active c has_tls \<longleftrightarrow> https_redirect c \<and> public_tls_addr c \<noteq> [] \<and> has_tls"

definition build_http_handler ::
  "config \<Rightarrow> bool \<Rightarrow> (request \<Rightarrow> bool) option \<Rightarrow> nat \<Rightarrow> cert_issuer option \<Rightarrow> request \<Rightarrow> plain_action" where
  "build_http_handler c has_tls autocert now certs r =
     (let inner =
            (if redirect_active c has_tls
             then (case https_redirector now c certs r of
                     PassOn \<Rightarrow> Public (public_route now c certs r)
                   | a \<Rightarrow> Redirected a)
             else Public (public_route now c certs r))
      in case autocert of
           Some acme_claims \<Rightarrow> if acme_claims r then AcmeChallenge else inner
         | None \<Rightarrow> inner)"

definition serve_health :: "(token_file_error \<Rightarrow> string) \<Rightarrow> token_store \<Rightarrow> nat \<times> string" where
  "serve_health err_text tokens =
     (case token_snapshot tokens of
        (_, _, Some e) \<Rightarrow> (500, ''fail: tokens: '' @ err_text e @ [CHR 0x0A])
      | (_, _, None) \<Rightarrow> (200, ''ok'' @ [CHR 0x0A]))"

subsection \<open>Hosts\<close>

lemma equal_fold_length: "equal_fold a b \<Longrightarrow> length a = length b"
  by (metis equal_fold_def length_to_lower)

lemma trim_suffix_dot_cases:
  "trim_suffix h ''.'' = x \<longleftrightarrow> h = x @ ''.'' \<or> (h = x \<and> \<not> has_suffix h ''.'')"
  by (auto simp: trim_suffix_def has_suffix_iff)

text \<open>A port, and nothing else, is lost when it is stripped.\<close>

lemma strip_port_idem [simp]: "strip_port (strip_port h) = strip_port h"
  by (rule strip_port_no_colon) (rule strip_port_colon_free)

lemma strip_port_with_port: "strip_port (strip_port h @ CHR '':'' # p) = strip_port h"
  using strip_port_append [OF strip_port_colon_free, of h p] by simp

lemma public_route_host:
  "strip_port (rq_host r) = strip_port h \<Longrightarrow> public_route now c certs (r\<lparr>rq_host := h\<rparr>) = public_route now c certs r"
  by (simp add: public_route_def)

lemma has_suffix_dot: "has_suffix h ''.'' \<longleftrightarrow> h \<noteq> [] \<and> last h = CHR ''.''"
proof (cases h rule: rev_cases)
  case (snoc a x)
  then show ?thesis by (simp add: has_suffix_iff)
qed (simp add: has_suffix_iff)

lemma last_to_lower: "h \<noteq> [] \<Longrightarrow> last (to_lower h) = ascii_lower (last h)"
  by (simp add: to_lower_def last_map)

text \<open>A host under the base domain has a trailing dot only if the base domain has one.\<close>

lemma no_trailing_dot:
  assumes "to_lower h = x @ to_lower b" "b \<noteq> []" "\<not> has_suffix b ''.''"
  shows "trim_suffix h ''.'' = h"
proof (rule trim_suffix_other)
  have "h \<noteq> []" using assms(1,2) by auto
  then have "ascii_lower (last h) = ascii_lower (last b)"
    using assms(1,2) last_to_lower [of h] last_to_lower [of b] by simp
  with assms(2,3) show "\<not> has_suffix h ''.''" unfolding has_suffix_dot by (metis ascii_lower_dot)
qed

lemma not_apex_below:
  assumes "to_lower h = pre @ svc @ ''.'' @ to_lower (base_domain c)" "svc \<noteq> []" "CHR ''.'' \<notin> set svc"
    and "pre = [] \<and> svc \<noteq> ''www'' \<or> (\<exists>p. pre = p @ ''.'')"
  shows "\<not> apex_host c h"
proof
  assume "apex_host c h"
  then consider "to_lower h = to_lower (base_domain c)" | "to_lower h = to_lower ''www.'' @ to_lower (base_domain c)"
    by (auto simp: apex_host_def equal_fold_def)
  then show False
  proof cases
    case 1
    then have "length (to_lower h) = length (to_lower (base_domain c))" by (rule arg_cong)
    with assms(1,2) show False by simp
  next
    case 2
    have "to_lower ''www.'' = ''www.''" by code_simp
    with 2 assms(1) have eq: "(pre @ svc) @ ''.'' = ''www'' @ ''.''" by simp
    then have "pre @ svc = ''www''" by (metis append_same_eq)
    moreover have "pre \<noteq> []" using assms(4) calculation by auto
    ultimately have "CHR ''.'' \<in> set ''www''"
      using assms(4) by (metis in_set_conv_decomp append.assoc append_Cons append_Nil)
    then show False by simp
  qed
qed

text \<open>
  Every well-formed service name is reachable: a request whose host is the service's label under the base
  domain, with any deeper labels, letter case and port, goes to that service (or shows its issuing
  page), unless the host is \<open>www.<base>\<close> itself, which belongs to the dashboard, or the path is the health check.
\<close>

lemma route_of_service:
  assumes "service_name_ok svc" "rq_path r \<noteq> ''/health''"
    and "to_lower (strip_port (rq_host r)) = pre @ svc @ ''.'' @ to_lower (base_domain c)"
    and "pre = [] \<and> svc \<noteq> ''www'' \<or> (\<exists>p. pre = p @ ''.'')"
    and "\<not> has_suffix (base_domain c) ''.''" "base_domain c \<noteq> []"
  shows "public_route now c certs r =
    (case issuing_for now certs (svc @ ''.'' @ to_lower (base_domain c)) of
       Some (page, status) \<Rightarrow> ShowIssuing page status
     | None \<Rightarrow> LookUp svc)"
proof -
  let ?h = "strip_port (rq_host r)"
  note svc = service_name_ok_ne [OF assms(1)] service_name_ok_no_dot [OF assms(1)]
  have "trim_suffix ?h ''.'' = ?h"
    by (rule no_trailing_dot [of _ "pre @ svc @ ''.''" "base_domain c"]) (use assms in simp_all)
  with assms(3,4) svc(2) have "extract_service ?h (base_domain c) = svc"
    by (intro extract_service_last_label) auto
  moreover have "\<not> apex_host c ?h" by (rule not_apex_below [OF assms(3) svc assms(4)])
  ultimately show ?thesis using assms(2) svc(1) by (simp add: public_route_def Let_def)
qed

subsection \<open>Properties\<close>

text \<open>
  C25. The redirect to HTTPS changes nothing else: the target is \<open>https://\<close>, an authority and the request's own
  URI, and a request for that authority is routed as the original one; requests that would show the
  issuing page, and health checks, are answered without a redirect.
\<close>

theorem redirect_keeps_route:
  shows "case https_redirector now c certs r of
      MovedTo url \<Rightarrow> \<exists>authority. url = ''https://'' @ authority @ rq_uri r \<and>
         public_route now c certs (r\<lparr>rq_host := authority\<rparr>) = public_route now c certs r \<and>
         rq_path r \<noteq> ''/health'' \<and> (\<forall>p st. public_route now c certs r \<noteq> ShowIssuing p st)
    | RedirectIssuing p st \<Rightarrow> public_route now c certs r = ShowIssuing p st
    | PassOn \<Rightarrow> public_route now c certs r = ServeHealth"
proof -
  let ?h = "strip_port (rq_host r)" and ?p = "port_from_addr (public_tls_addr c)"
  let ?a = "?h @ (if ?p \<noteq> [] \<and> ?p \<noteq> ''443'' then '':'' @ ?p else [])"
  have "strip_port (rq_host r) = strip_port ?a" by (simp add: strip_port_with_port)
  then have a: "public_route now c certs (r\<lparr>rq_host := ?a\<rparr>) = public_route now c certs r" by (rule public_route_host)
  show ?thesis
  proof (cases "https_redirector now c certs r")
    case PassOn
    then show ?thesis
      by (auto simp: https_redirector_def public_route_def Let_def split: if_splits option.splits prod.splits)
  next
    case (RedirectIssuing p st)
    then show ?thesis
      by (auto simp: https_redirector_def public_route_def Let_def split: if_splits option.splits prod.splits)
  next
    case (MovedTo url)
    then have "url = ''https://'' @ ?a @ rq_uri r" "rq_path r \<noteq> ''/health''"
      by (auto simp: https_redirector_def Let_def split: if_splits option.splits prod.splits)
    moreover have "public_route now c certs r \<noteq> ShowIssuing p st" for p st
      using MovedTo by (auto simp: https_redirector_def public_route_def Let_def split: if_splits option.splits prod.splits)
    ultimately show ?thesis using a MovedTo by (simp only: redirect_action.case) blast
  qed
qed

text \<open>
  The health check is independent of everything but the tokens file: on every host, through redirect and
  routing, it is answered, and it fails exactly while the last reload of the file failed.
\<close>

theorem health_always_answers:
  assumes "rq_path r = ''/health''" "\<forall>acme. autocert = Some acme \<longrightarrow> \<not> acme r"
  shows "build_http_handler c has_tls autocert now certs r = Public ServeHealth \<and>
    public_handler now c certs lookup r = Answered ServeHealth \<and>
    (fst (serve_health err_text tokens) = 500 \<longleftrightarrow> last_err tokens \<noteq> None)"
  using assms
  by (auto simp: build_http_handler_def https_redirector_def Let_def public_handler_def public_route_def serve_health_def
      token_snapshot_def split: option.splits)

subsection \<open>Concrete requests\<close>

definition demo_request :: "string \<Rightarrow> string \<Rightarrow> request" where
  "demo_request host path = \<lparr>rq_method = ''GET'', rq_uri = path, rq_path = path, rq_host = host, rq_header = [],
     rq_close = False, rq_basic = None\<rparr>"

definition demo_config :: config where
  "demo_config = (env_config demo_env)\<lparr>cfg_tokens := [''a'' \<mapsto> ''foo'', ''b'' \<mapsto> ''*'']\<rparr>"

lemma demo_config_base: "base_domain demo_config = ''router.com''"
  by (simp add: demo_config_def demo_fields)

lemma demo_host: "to_lower (strip_port ''Api.Foo.router.com:8080'') = ''api.'' @ ''foo'' @ ''.'' @ to_lower ''router.com''"
  by code_simp

theorem health_always_answers_witness:
  "build_http_handler demo_config True (Some (\<lambda>_. False)) 0 None (demo_request ''10.0.0.1'' ''/health'') = Public ServeHealth"
  using health_always_answers [of "demo_request ''10.0.0.1'' ''/health''" "Some (\<lambda>_. False)"]
  by (simp add: demo_request_def)

end
