(* ===== verification/Admin.thy ===== *)
theory Admin
  imports Public "HOL-Library.List_Lexorder" "HOL-Library.Product_Lexorder"
begin

text \<open>
  The dashboard behind the apex host (\<open>server/admin.go\<close>): basic authentication, the routes, the list of
  tokens, the state snapshot, and the origin check of its web socket. The embedded files and the
  web-socket library are not modelled: \<open>StaticFile\<close> and \<open>StateStream\<close> stand for handing over to them.
\<close>

subsection \<open>The handler\<close>

text \<open>
  What \<open>newAdminHandler\<close> adds to the parts of the server it points to: its configuration and the time of the
  start. \<open>no_dist\<close> is the error of the embedded directory, if it is missing.
\<close>

record admin_handler =
  ah_config :: config
  ah_started :: nat

definition new_admin_handler :: "string option \<Rightarrow> nat \<Rightarrow> config \<Rightarrow> string + admin_handler" where
  "new_admin_handler no_dist now c =
     (case no_dist of Some e \<Rightarrow> Inl e | None \<Rightarrow> Inr \<lparr>ah_config = c, ah_started = now\<rparr>)"

subsection \<open>Authentication\<close>

text \<open>True when the request may pass, as \<open>requireAuth\<close> returns it; otherwise the answer was 401.\<close>

definition require_auth :: "config \<Rightarrow> request \<Rightarrow> bool" where
  "require_auth c r =
     (if admin_user c = [] \<or> admin_pass c = [] then True
      else (case rq_basic r of
              None \<Rightarrow> False
            | Some (user, pass) \<Rightarrow> \<not> (user \<noteq> admin_user c \<or> pass \<noteq> admin_pass c)))"

subsection \<open>The list of tokens\<close>

record token_entry =
  te_service :: string
  te_token :: string
  te_wildcard :: bool

definition token_entry_of :: "(string \<rightharpoonup> string) \<Rightarrow> string \<Rightarrow> token_entry" where
  "token_entry_of m tok = \<lparr>te_service = the (m tok), te_token = tok, te_wildcard = (the (m tok) = ''*'')\<rparr>"

text \<open>\<open>names\<close> is the order in which the map of all tokens happens to be iterated.\<close>

definition serve_tokens :: "config \<Rightarrow> string list \<Rightarrow> token_store \<Rightarrow> token_entry list option" where
  "serve_tokens c names tokens =
     (if admin_user c = [] \<or> admin_pass c = [] then None
      else Some (sort_key (\<lambda>e. (te_service e, te_token e)) (map (token_entry_of (all_tokens tokens)) names)))"

subsection \<open>The state snapshot\<close>

record dashboard_state =
  ds_base_domain :: string
  ds_started_ms :: nat
  ds_now_ms :: nat
  ds_services :: "stats_snapshot list"
  ds_tls_mode :: string
  ds_certs :: "(string \<rightharpoonup> issuance_state) option"
  ds_token_count :: nat
  ds_tokens_reloaded_ms :: nat
  ds_tokens_error :: "token_file_error option"

text \<open>
  Reading the statistics advances their rings, so the registry of statistics is returned too;
  \<open>names\<close> enumerates its services.
\<close>

definition dashboard_snapshot ::
  "nat \<Rightarrow> nat \<Rightarrow> config \<Rightarrow> token_store \<Rightarrow> cert_issuer option \<Rightarrow> string list \<Rightarrow> stats_registry \<Rightarrow>
   dashboard_state \<times> stats_registry" where
  "dashboard_snapshot started now c tokens certs names sr =
     (let (count, last, last_error) = token_snapshot tokens;
          (services, sr') = snapshot_all now names sr
      in (\<lparr>ds_base_domain = base_domain c, ds_started_ms = unix_milli started, ds_now_ms = unix_milli now,
           ds_services = services, ds_tls_mode = tls_mode (cfg_tls c),
           ds_certs = map_option (cert_snapshot_all now) certs, ds_token_count = count,
           ds_tokens_reloaded_ms = (case last of None \<Rightarrow> 0 | Some t \<Rightarrow> unix_milli t),
           ds_tokens_error = last_error\<rparr>, sr'))"

subsection \<open>Routes\<close>

datatype admin_action =
    Unauthorized
  | StateJson dashboard_state
  | TokensJson "token_entry list"
  | TokensForbidden
  | StateStream
  | StaticFile

definition admin_serve ::
  "nat \<Rightarrow> nat \<Rightarrow> config \<Rightarrow> token_store \<Rightarrow> string list \<Rightarrow> cert_issuer option \<Rightarrow> string list \<Rightarrow> stats_registry \<Rightarrow>
   request \<Rightarrow> admin_action" where
  "admin_serve started now c tokens token_names certs names sr r =
     (if \<not> require_auth c r then Unauthorized
      else if rq_path r = ''/__router/api/state''
        then StateJson (fst (dashboard_snapshot started now c tokens certs names sr))
      else if rq_path r = ''/__router/api/tokens''
        then (case serve_tokens c token_names tokens of None \<Rightarrow> TokensForbidden | Some es \<Rightarrow> TokensJson es)
      else if rq_path r = ''/__router/ws'' then StateStream
      else StaticFile)"

definition check_origin :: "request \<Rightarrow> bool" where
  "check_origin r =
     (let origin = header_get (rq_header r) ''Origin''
      in if origin = [] then True
         else trim_prefix (trim_prefix origin ''https://'') ''http://'' = rq_host r)"

text \<open>
  The web-socket stream: a snapshot at once and one per tick, until the peer closes or a write fails.
  Each event is a tick, with the success of its write, or the close; the result is the number of
  snapshots that were written and whether the handler has returned.
\<close>

datatype ws_event = PeerClosed | Ticked bool

fun ws_loop :: "ws_event list \<Rightarrow> nat \<times> bool" where
  "ws_loop [] = (0, False)"
| "ws_loop (PeerClosed # es) = (0, True)"
| "ws_loop (Ticked ok # es) = (if ok then apfst Suc (ws_loop es) else (0, True))"

definition serve_ws :: "bool \<Rightarrow> ws_event list \<Rightarrow> nat \<times> bool" where
  "serve_ws first_ok es = (if first_ok then apfst Suc (ws_loop es) else (0, True))"

subsection \<open>Properties\<close>

text \<open>
  Tokens are shown to nobody but the administrator: the list of tokens is served only when both
  credentials are configured and the request carries exactly these.
\<close>

lemma token_list_needs_credentials:
  assumes "admin_serve started now c tokens token_names certs names sr r = TokensJson es"
  shows "rq_basic r = Some (admin_user c, admin_pass c)"
  using assms
  by (auto simp: admin_serve_def require_auth_def serve_tokens_def split: if_splits option.splits)

theorem tokens_need_credentials:
  assumes "admin_serve started now c tokens token_names certs names sr r = TokensJson es"
  shows "admin_user c \<noteq> [] \<and> admin_pass c \<noteq> [] \<and> rq_basic r = Some (admin_user c, admin_pass c)"
  using assms
  by (auto simp: admin_serve_def require_auth_def serve_tokens_def split: if_splits option.splits)

lemma token_entry_key_inj: "inj_on (\<lambda>e. (te_service e, te_token e)) (token_entry_of m ` A)"
  by (auto simp: inj_on_def token_entry_of_def)

text \<open>
  C27. The list of tokens is complete, sorted by service and then token, and the same whatever order the map of
  tokens is iterated in.
\<close>

theorem token_list_canonical:
  assumes "distinct names" "set names = dom (all_tokens tokens)"
    and "distinct names'" "set names' = dom (all_tokens tokens)"
    and "serve_tokens c names tokens = Some es"
  shows "serve_tokens c names' tokens = Some es \<and> sorted (map (\<lambda>e. (te_service e, te_token e)) es) \<and>
    (\<forall>s k w. \<lparr>te_service = s, te_token = k, te_wildcard = w\<rparr> \<in> set es \<longleftrightarrow>
       all_tokens tokens k = Some s \<and> w = (s = ''*''))"
proof -
  let ?key = "\<lambda>e. (te_service e, te_token e)" and ?f = "token_entry_of (all_tokens tokens)"
  have es: "es = sort_key ?key (map ?f names)" and cred: "\<not> (admin_user c = [] \<or> admin_pass c = [])"
    using assms(5) by (auto simp: serve_tokens_def split: if_splits)
  have dist: "distinct (map ?key (sort_key ?key (map ?f ns)))" if "distinct ns" for ns
  proof -
    have "distinct (map ?f ns)" using that by (auto simp: distinct_map inj_on_def token_entry_of_def)
    then show ?thesis by (auto simp: distinct_map intro: token_entry_key_inj)
  qed
  have "sort_key ?key (map ?f names) = sort_key ?key (map ?f names')"
    by (rule map_sorted_distinct_set_unique [of ?key])
      (use assms(1-4) dist token_entry_key_inj [of "all_tokens tokens" "dom (all_tokens tokens)"] in \<open>simp_all\<close>)
  then have "serve_tokens c names' tokens = Some es" using cred es by (simp add: serve_tokens_def)
  moreover have "sorted (map ?key es)" unfolding es by simp
  moreover have "\<lparr>te_service = s, te_token = k, te_wildcard = w\<rparr> \<in> set es \<longleftrightarrow> all_tokens tokens k = Some s \<and> w = (s = ''*'')"
    for s k w unfolding es using assms(2) by (auto simp: token_entry_of_def image_iff dom_def)
  ultimately show ?thesis by blast
qed

subsection \<open>A concrete dashboard\<close>

definition admin_config :: config where
  "admin_config = demo_config\<lparr>admin_user := ''ops'', admin_pass := ''pw''\<rparr>"

definition admin_request :: request where
  "admin_request = (demo_request ''router.com'' ''/__router/api/tokens'')\<lparr>rq_basic := Some (''ops'', ''pw'')\<rparr>"

lemma demo_tokens: "dom (all_tokens demo_store) = {''a'', ''b''}"
  by (auto simp: all_tokens_def demo_store_def)

theorem tokens_need_credentials_witness:
  "\<exists>es. admin_serve 0 0 admin_config demo_store [''a''] None [] new_stats_registry admin_request = TokensJson es \<and>
     rq_basic admin_request = Some (admin_user admin_config, admin_pass admin_config)"
proof -
  obtain es where es: "admin_serve 0 0 admin_config demo_store [''a''] None [] new_stats_registry admin_request = TokensJson es"
    by (simp add: admin_serve_def require_auth_def serve_tokens_def admin_config_def admin_request_def demo_request_def)
  from tokens_need_credentials [OF es] es show ?thesis by blast
qed

theorem token_list_canonical_witness:
  "serve_tokens admin_config [''b'', ''a''] demo_store = serve_tokens admin_config [''a'', ''b''] demo_store"
proof -
  obtain es where es: "serve_tokens admin_config [''a'', ''b''] demo_store = Some es"
    by (simp add: serve_tokens_def admin_config_def)
  have d: "distinct [''a'', ''b'']" "distinct [''b'', ''a'']" by simp_all
  have s: "set [''a'', ''b''] = dom (all_tokens demo_store)" "set [''b'', ''a''] = dom (all_tokens demo_store)"
    unfolding demo_tokens by auto
  from token_list_canonical [OF d(1) s(1) d(2) s(2) es] es show ?thesis by simp
qed

end
