(* ===== verification/JsonWrite.thy ===== *)
theory JsonWrite
  imports Json
begin

text \<open>
  \<open>json.Marshal\<close> of whole values, as the dashboard sends them, and the round trip: what is written for a value
  is read back as the same value by the decoder of the theory Json, inside any other text.
\<close>

subsection \<open>Writing\<close>

definition format_int :: "int \<Rightarrow> string" where
  "format_int i = (if i < 0 then CHR ''-'' # format_nat (nat (- i)) else format_nat (nat i))"

primrec json_write :: "json \<Rightarrow> string" where
  "json_write JNull = ''null''"
| "json_write (JBool b) = (if b then ''true'' else ''false'')"
| "json_write (JNum s) = s"
| "json_write (JStr s) = json_string s"
| "json_write (JArr vs) = CHR ''['' # join_byte CHR '','' (map json_write vs) @ '']''"
| "json_write (JObj ms) =
     CHR ''{'' # join_byte CHR '','' (map (\<lambda>(k, s). json_string k @ CHR '':'' # s) (map (map_prod id json_write) ms)) @ ''}''"

text \<open>
  Values a Go program writes: integers as numbers, strings in UTF-8, and no more nesting than the decoder
  takes; the number is the depth at which the value stands.
\<close>

primrec json_ok :: "json \<Rightarrow> nat \<Rightarrow> bool" where
  "json_ok JNull = (\<lambda>d. True)"
| "json_ok (JBool b) = (\<lambda>d. True)"
| "json_ok (JNum s) = (\<lambda>d. \<exists>i. s = format_int i)"
| "json_ok (JStr s) = (\<lambda>d. valid_utf8 s)"
| "json_ok (JArr vs) = (\<lambda>d. d < max_nesting \<and> list_all (\<lambda>ok. ok (Suc d)) (map json_ok vs))"
| "json_ok (JObj ms) =
     (\<lambda>d. d < max_nesting \<and> list_all (\<lambda>(k, ok). valid_utf8 k \<and> ok (Suc d)) (map (map_prod id json_ok) ms))"

subsection \<open>Numbers\<close>

definition ends_number :: "string \<Rightarrow> bool" where
  "ends_number s \<longleftrightarrow> (case s of [] \<Rightarrow> True | c # _ \<Rightarrow> \<not> is_digit c \<and> c \<noteq> CHR ''.'' \<and> c \<noteq> CHR ''e'' \<and> c \<noteq> CHR ''E'')"

lemma digits_base_hd: "0 < n \<Longrightarrow> hd (digits_base 10 n) \<noteq> 0"
proof (induction n rule: less_induct)
  case (less n)
  show ?case
  proof (cases "n < 10")
    case False
    then have "hd (digits_base 10 (n div 10)) \<noteq> 0" by (intro less) simp_all
    with False show ?thesis by (simp add: digits_base.simps [of 10 n])
  qed (use less.prems in \<open>simp add: digits_base.simps [of 10 n]\<close>)
qed

lemma format_nat_hd:
  assumes "0 < n"
  obtains c s where "format_nat n = c # s" "is_digit c" "c \<noteq> CHR ''0''"
proof -
  obtain d ds where ds: "digits_base 10 n = d # ds" by (meson digits_base_ne neq_Nil_conv)
  then have d: "d < 10" "d \<noteq> 0" using digits_base_less [of 10 d n] digits_base_hd [OF assms] by auto
  then have "code (digit_char d) \<noteq> 48" by (simp add: code_digit_char)
  then have "digit_char d \<noteq> CHR ''0''" by (auto simp: code_def)
  with that ds d show ?thesis by (simp add: format_nat_def is_digit_digit_char)
qed

lemma digits1_append:
  assumes "s \<noteq> []" "list_all is_digit s" "ends_number rest"
  shows "digits1 (s @ rest) = Some (s, rest)"
proof -
  have "takeWhile is_digit rest = []" "dropWhile is_digit rest = rest"
    using assms(3) by (cases rest; simp add: ends_number_def)+
  with assms(1,2) show ?thesis
    by (simp add: digits1_def Let_def takeWhile_append2 dropWhile_append2 list_all_iff)
qed

lemma json_unsigned_nat:
  assumes "ends_number rest"
  shows "json_unsigned (format_nat n @ rest) = Some (format_nat n, rest)"
proof -
  have "json_int (format_nat n @ rest) = Some (format_nat n, rest)"
  proof (cases "n = 0")
    case True
    have "format_nat 0 = ''0''" by code_simp
    with True show ?thesis by (simp add: json_int_def)
  next
    case False
    then obtain c s where c: "format_nat n = c # s" "c \<noteq> CHR ''0''" using format_nat_hd by blast
    then have "json_int (format_nat n @ rest) = digits1 (format_nat n @ rest)" by (simp add: json_int_def)
    with digits1_append [OF format_nat_ne _ assms] show ?thesis using format_nat_digits by (auto simp: list_all_iff)
  qed
  moreover have "json_frac rest = Some ([], rest)" "json_exp rest = Some ([], rest)"
    using assms by (cases rest; simp add: ends_number_def json_frac_def json_exp_def)+
  ultimately show ?thesis by (simp add: json_unsigned_def)
qed

lemma json_number_int:
  assumes "ends_number rest"
  shows "json_number (format_int i @ rest) = Some (format_int i, rest)"
proof (cases "i < 0")
  case True
  with json_unsigned_nat [OF assms] show ?thesis by (simp add: format_int_def json_number_def)
next
  case False
  obtain c s where c: "format_nat (nat i) = c # s" by (meson format_nat_ne neq_Nil_conv)
  then have "is_digit c" using format_nat_digits [of c "nat i"] by simp
  then have "c \<noteq> CHR ''-''" by (auto simp: is_digit_def code_def)
  with c json_unsigned_nat [OF assms, of "nat i"] False show ?thesis by (simp add: format_int_def json_number_def)
qed

lemma format_int_hd:
  obtains c s where "format_int i = c # s" "is_digit c \<or> c = CHR ''-''"
proof (cases "i < 0")
  case True
  with that show ?thesis by (simp add: format_int_def)
next
  case False
  obtain c s where c: "format_nat (nat i) = c # s" by (meson format_nat_ne neq_Nil_conv)
  then have "is_digit c" using format_nat_digits [of c "nat i"] by simp
  with that c False show ?thesis by (simp add: format_int_def)
qed

lemma number_char:
  assumes "is_digit c \<or> c = CHR ''-''"
  shows "c \<noteq> dquote" "c \<noteq> CHR ''t''" "c \<noteq> CHR ''f''" "c \<noteq> CHR ''n''" "c \<noteq> CHR ''[''" "c \<noteq> CHR ''{''"
    "\<not> json_space c" "c \<noteq> CHR '']''" "c \<noteq> CHR ''}''"
  using assms by (auto simp: is_digit_def code_def dquote_def json_space_def)

subsection \<open>Reading back\<close>

text \<open>What may follow a value in a text.\<close>

definition closes_value :: "string \<Rightarrow> bool" where
  "closes_value s \<longleftrightarrow> (case s of [] \<Rightarrow> True | c # _ \<Rightarrow> c = CHR '','' \<or> c = CHR '']'' \<or> c = CHR ''}'' \<or> json_space c)"

lemma closes_ends: "closes_value s \<Longrightarrow> ends_number s"
  by (cases s) (auto simp: closes_value_def ends_number_def is_digit_def json_space_def code_def)

definition reads_back :: "json \<Rightarrow> bool" where
  "reads_back v \<longleftrightarrow> (\<forall>d n rest. json_ok v d \<longrightarrow> closes_value rest \<longrightarrow> 2 * length (json_write v @ rest) \<le> n \<longrightarrow>
     json_value n d (json_write v @ rest) = Some (v, rest))"

lemma json_write_hd:
  assumes "json_ok v d"
  obtains c s where "json_write v = c # s" "\<not> json_space c" "c \<noteq> CHR '']''" "c \<noteq> CHR ''}''"
proof (cases v)
  case (JNum x)
  with assms obtain i where "x = format_int i" by auto
  with that JNum number_char show ?thesis using format_int_hd by (metis json_write.simps(3))
next
  case (JBool b)
  with that show ?thesis by (cases b) (auto simp: json_space_def code_def)
qed (use that in \<open>auto simp: json_string_def json_space_def code_def dquote_def split: if_splits\<close>)

lemma scalar_reads_back:
  assumes "json_scalar (json_write v @ rest) = Some (v, rest)" "json_write v = c # s" "c \<noteq> CHR ''[''" "c \<noteq> CHR ''{''" "0 < n"
  shows "json_value n d (json_write v @ rest) = Some (v, rest)"
  using assms by (cases n) simp_all

lemma skip_ws_close [simp]: "skip_ws (CHR '']'' # s) = CHR '']'' # s"
  by (rule skip_ws_stop) (simp add: json_space_def code_def)

lemma join_byte_Cons:
  "join_byte c (p # ps) @ rest = p @ (if ps = [] then rest else c # join_byte c ps @ rest)"
  by (cases ps) simp_all

lemma json_elems_back:
  "vs \<noteq> [] \<Longrightarrow> \<forall>v \<in> set vs. reads_back v \<and> json_ok v d \<Longrightarrow>
   2 * length (join_byte CHR '','' (map json_write vs) @ CHR '']'' # t) < n \<Longrightarrow>
   json_elems n d (join_byte CHR '','' (map json_write vs) @ CHR '']'' # t) = Some (vs, t)"
proof (induction vs arbitrary: n)
  case (Cons v vs)
  let ?rest = "if vs = [] then CHR '']'' # t else CHR '','' # join_byte CHR '','' (map json_write vs) @ CHR '']'' # t"
  have s: "join_byte CHR '','' (map json_write (v # vs)) @ CHR '']'' # t = json_write v @ ?rest"
    using join_byte_Cons [of "CHR '',''" "json_write v" "map json_write vs"] by simp
  obtain m where n: "n = Suc m" using Cons.prems(3) by (cases n) simp_all
  have v: "json_value m d (json_write v @ ?rest) = Some (v, ?rest)"
    using Cons.prems(2,3) n s by (auto simp: reads_back_def closes_value_def)
  show ?case
  proof (cases "vs = []")
    case True
    with v n s show ?thesis by (simp del: json_value.simps)
  next
    case False
    then obtain u us where us: "vs = u # us" by (cases vs) auto
    then obtain c r where c: "json_write u = c # r" "\<not> json_space c" using Cons.prems(2) json_write_hd by (metis list.set_intros(1,2))
    have "skip_ws (join_byte CHR '','' (map json_write vs) @ CHR '']'' # t) = join_byte CHR '','' (map json_write vs) @ CHR '']'' # t"
      using c us join_byte_Cons [of "CHR '',''" "json_write u" "map json_write us" "CHR '']'' # t"] by simp
    moreover have "json_elems m d (join_byte CHR '','' (map json_write vs) @ CHR '']'' # t) = Some (vs, t)"
      using Cons.prems False n s by (intro Cons.IH) simp_all
    ultimately show ?thesis using v n s False by (simp del: json_value.simps)
  qed
qed simp

lemma json_key_back:
  assumes "valid_utf8 k" "json_ok v d"
  shows "json_key (json_string k @ CHR '':'' # json_write v @ rest) = Some (k, json_write v @ rest)"
proof -
  obtain c s where "json_write v = c # s" "\<not> json_space c" by (rule json_write_hd [OF assms(2)])
  then show ?thesis by (simp add: json_key_def json_string_shape unquote_escape_append [OF assms(1)])
qed

definition write_member :: "string \<times> json \<Rightarrow> string" where
  "write_member m = json_string (fst m) @ CHR '':'' # json_write (snd m)"

lemma json_write_obj: "json_write (JObj ms) = CHR ''{'' # join_byte CHR '','' (map write_member ms) @ ''}''"
  by (simp add: comp_def case_prod_beta write_member_def cong: map_cong)

lemma skip_ws_member: "skip_ws (write_member m @ t) = write_member m @ t"
  by (simp add: write_member_def json_string_shape)

lemma json_members_back:
  "ms \<noteq> [] \<Longrightarrow> \<forall>m \<in> set ms. valid_utf8 (fst m) \<and> reads_back (snd m) \<and> json_ok (snd m) d \<Longrightarrow>
   2 * length (join_byte CHR '','' (map write_member ms) @ CHR ''}'' # t) < n \<Longrightarrow>
   json_members n d (join_byte CHR '','' (map write_member ms) @ CHR ''}'' # t) = Some (ms, t)"
proof (induction ms arbitrary: n)
  case (Cons m ms)
  let ?rest = "if ms = [] then CHR ''}'' # t else CHR '','' # join_byte CHR '','' (map write_member ms) @ CHR ''}'' # t"
  have s: "join_byte CHR '','' (map write_member (m # ms)) @ CHR ''}'' # t
      = json_string (fst m) @ CHR '':'' # json_write (snd m) @ ?rest"
    using join_byte_Cons [of "CHR '',''" "write_member m" "map write_member ms"] by (simp add: write_member_def)
  obtain k where n: "n = Suc k" using Cons.prems(3) by (cases n) simp_all
  have key: "json_key (json_string (fst m) @ CHR '':'' # json_write (snd m) @ ?rest) = Some (fst m, json_write (snd m) @ ?rest)"
    using Cons.prems(2) by (intro json_key_back) auto
  have v: "json_value k d (json_write (snd m) @ ?rest) = Some (snd m, ?rest)"
    using Cons.prems(2,3) n s by (auto simp: reads_back_def closes_value_def)
  show ?case
  proof (cases "ms = []")
    case True
    with v n s key show ?thesis by (simp del: json_value.simps)
  next
    case False
    then obtain u us where us: "ms = u # us" by (cases ms) auto
    have "skip_ws (join_byte CHR '','' (map write_member ms) @ CHR ''}'' # t) = join_byte CHR '','' (map write_member ms) @ CHR ''}'' # t"
      using us skip_ws_member join_byte_Cons [of "CHR '',''" "write_member u" "map write_member us" "CHR ''}'' # t"] by simp
    moreover have "json_members k d (join_byte CHR '','' (map write_member ms) @ CHR ''}'' # t) = Some (ms, t)"
      using Cons.prems False n s by (intro Cons.IH) simp_all
    ultimately show ?thesis using v n s key False by (simp del: json_value.simps)
  qed
qed simp

lemma array_reads_back:
  assumes "\<And>v. v \<in> set vs \<Longrightarrow> reads_back v"
  shows "reads_back (JArr vs)"
  unfolding reads_back_def
proof (intro allI impI)
  fix d n rest
  assume ok: "json_ok (JArr vs) d" and n: "2 * length (json_write (JArr vs) @ rest) \<le> n"
  then have vs: "d < max_nesting" "\<forall>v \<in> set vs. json_ok v (Suc d)" by (auto simp: list_all_iff)
  obtain m where m: "n = Suc m" using n by (cases n) simp_all
  show "json_value n d (json_write (JArr vs) @ rest) = Some (JArr vs, rest)"
  proof (cases "vs = []")
    case True
    with vs m show ?thesis by simp
  next
    case False
    let ?b = "join_byte CHR '','' (map json_write vs) @ CHR '']'' # rest"
    obtain u us where us: "vs = u # us" using False by (cases vs) auto
    then obtain c r where c: "json_write u = c # r" "\<not> json_space c" "c \<noteq> CHR '']''"
      using vs(2) json_write_hd by (metis list.set_intros(1))
    then have b: "?b = c # r @ (if us = [] then CHR '']'' # rest else CHR '','' # join_byte CHR '','' (map json_write us) @ CHR '']'' # rest)"
      using us join_byte_Cons [of "CHR '',''" "json_write u" "map json_write us" "CHR '']'' # rest"] by simp
    have e: "json_elems m (Suc d) ?b = Some (vs, rest)"
      using assms vs(2) n m False by (intro json_elems_back) auto
    have "json_value (Suc m) d (CHR ''['' # ?b) = Some (JArr vs, rest)"
      using vs(1) c(2,3) e unfolding b by simp
    with m show ?thesis by simp
  qed
qed

lemma object_reads_back:
  assumes "\<And>m. m \<in> set ms \<Longrightarrow> reads_back (snd m)"
  shows "reads_back (JObj ms)"
  unfolding reads_back_def json_write_obj
proof (intro allI impI)
  fix d n rest
  let ?w = "CHR ''{'' # join_byte CHR '','' (map write_member ms) @ ''}''"
  assume ok: "json_ok (JObj ms) d" and n: "2 * length (?w @ rest) \<le> n"
  then have ms: "d < max_nesting" "\<forall>m \<in> set ms. valid_utf8 (fst m) \<and> json_ok (snd m) (Suc d)"
    by (auto simp: list_all_iff)
  obtain m where m: "n = Suc m" using n by (cases n) simp_all
  show "json_value n d (?w @ rest) = Some (JObj ms, rest)"
  proof (cases "ms = []")
    case True
    with ms m show ?thesis by simp
  next
    case False
    let ?b = "join_byte CHR '','' (map write_member ms) @ CHR ''}'' # rest"
    obtain u us where us: "ms = u # us" using False by (cases ms) auto
    then obtain r where b: "?b = dquote # r"
      using join_byte_Cons [of "CHR '',''" "write_member u" "map write_member us" "CHR ''}'' # rest"]
      by (simp add: write_member_def json_string_shape)
    have e: "json_members m (Suc d) ?b = Some (ms, rest)"
      using assms ms(2) n m False by (intro json_members_back) auto
    have "json_value (Suc m) d (CHR ''{'' # ?b) = Some (JObj ms, rest)"
      using ms(1) e unfolding b by simp
    with m show ?thesis by simp
  qed
qed

lemma all_read_back: "reads_back v"
proof (induction v)
  case (JArr vs)
  then show ?case by (rule array_reads_back)
next
  case (JObj ms)
  then show ?case by (intro object_reads_back) (auto simp: snds.simps)
next
  case (JNum s)
  have "json_value n d (s @ rest) = Some (JNum s, rest)"
    if "s = format_int i" "closes_value rest" "2 * length (s @ rest) \<le> n" for d n rest i
  proof -
    obtain c t where t: "format_int i = c # t" "is_digit c \<or> c = CHR ''-''" by (rule format_int_hd)
    then have c: "s = c # t" by (simp add: that(1))
    have num: "json_number (s @ rest) = Some (s, rest)"
      unfolding that(1) by (rule json_number_int [OF closes_ends [OF that(2)]])
    have "json_scalar (s @ rest) = map_option (apfst JNum) (json_number (s @ rest))"
      unfolding c using number_char [OF t(2)] by (simp add: json_scalar_def)
    then have "json_scalar (json_write (JNum s) @ rest) = Some (JNum s, rest)" by (simp add: num)
    moreover have "0 < n" using that(3) by (simp add: c)
    ultimately show ?thesis using scalar_reads_back [of "JNum s" rest c t n d] number_char [OF t(2)] c by simp
  qed
  then show ?case by (auto simp: reads_back_def)
next
  case (JStr s)
  have "0 < n" if "2 * length (json_string s @ rest) \<le> n" for n and rest :: string
    using that by (simp add: json_string_def)
  then show ?case using json_value_written [of s] by (simp add: reads_back_def del: json_value.simps length_append)
next
  case (JBool b)
  have "json_value n d (json_write (JBool b) @ rest) = Some (JBool b, rest)" if "0 < n" for d n rest
    using that by (cases n; cases b) (simp_all add: json_scalar_def json_literal_def has_prefix_def dquote_def)
  moreover have "0 < n" if "2 * length (json_write (JBool b) @ rest) \<le> n" for n and rest :: string
    using that by (cases b) simp_all
  ultimately show ?case unfolding reads_back_def by blast
next
  case JNull
  have "json_value n d (json_write JNull @ rest) = Some (JNull, rest)" if "0 < n" for d n rest
    using that by (cases n) (simp_all add: json_scalar_def json_literal_def has_prefix_def dquote_def)
  moreover have "0 < n" if "2 * length (json_write JNull @ rest) \<le> n" for n and rest :: string
    using that by simp
  ultimately show ?case unfolding reads_back_def by blast
qed

text \<open>The round trip, with any white space after the value, such as the line break of \<open>json.Encoder\<close>.\<close>

lemma json_roundtrip:
  assumes "json_ok v 0" "list_all json_space ws"
  shows "json_parse (json_write v @ ws) = Some v"
proof -
  obtain c s where c: "json_write v = c # s" "\<not> json_space c" using json_write_hd [OF assms(1)] by metis
  have "closes_value ws" using assms(2) by (cases ws) (auto simp: closes_value_def)
  then have "json_value (2 * length (json_write v @ ws)) 0 (json_write v @ ws) = Some (v, ws)"
    using all_read_back [of v] assms(1) unfolding reads_back_def by blast
  moreover have "skip_ws ws = []" using assms(2) by (simp add: skip_ws_def list_all_iff)
  moreover have "skip_ws (json_write v @ ws) = json_write v @ ws" using c by simp
  ultimately show ?thesis by (simp add: json_parse_def)
qed

end
