(* ===== verification/Dashboard.thy ===== *)
theory Dashboard
  imports Admin JsonWrite
begin

text \<open>
  What the dashboard's browser receives (\<open>server/admin.go\<close>, \<open>server/stats.go\<close>, \<open>server/cert_warmup.go\<close>): the
  JSON of the list of tokens and of the state, with the field names and the \<open>omitempty\<close> rules of the struct
  tags, and a reader that gets the values back.
\<close>

subsection \<open>Fields\<close>

definition omit_str :: "string \<Rightarrow> string \<Rightarrow> (string \<times> json) list" where
  "omit_str k s = (if s = [] then [] else [(k, JStr s)])"

definition omit_int :: "string \<Rightarrow> int \<Rightarrow> (string \<times> json) list" where
  "omit_int k i = (if i = 0 then [] else [(k, JNum (format_int i))])"

definition int_member :: "string \<Rightarrow> int \<Rightarrow> string \<times> json" where
  "int_member k i = (k, JNum (format_int i))"

text \<open>\<open>json.Encoder\<close> ends a value with a line feed.\<close>

definition json_body :: "json \<Rightarrow> string" where
  "json_body v = json_write v @ [CHR 0x0A]"

subsection \<open>The list of tokens\<close>

definition token_entry_json :: "token_entry \<Rightarrow> json" where
  "token_entry_json e =
     JObj [(''service'', JStr (te_service e)), (''token'', JStr (te_token e)), (''wildcard'', JBool (te_wildcard e))]"

definition tokens_body :: "token_entry list \<Rightarrow> string" where
  "tokens_body es = json_body (JArr (map token_entry_json es))"

subsection \<open>The state\<close>

definition issuance_status_text :: "issuance_status \<Rightarrow> string" where
  "issuance_status_text s =
     (case s of IssuanceUnknown \<Rightarrow> [] | IssuancePending \<Rightarrow> ''pending'' | IssuanceReady \<Rightarrow> ''ready'' | IssuanceError \<Rightarrow> ''error'')"

definition issuance_json :: "issuance_state \<Rightarrow> json" where
  "issuance_json i =
     JObj ([(''host'', JStr (is_host i)), (''status'', JStr (issuance_status_text (is_status i)))] @
           omit_int ''startedAtMs'' (started_ms i) @ omit_int ''doneAtMs'' (done_ms i) @
           omit_int ''elapsedMs'' (elapsed_ms i) @ omit_str ''error'' (is_error i))"

definition stats_json :: "stats_snapshot \<Rightarrow> json" where
  "stats_json s =
     JObj ([(''service'', JStr (sn_service s)), (''connected'', JBool (sn_connected s))] @
           omit_str ''remote'' (sn_remote s) @
           omit_int ''connectedAtMs'' (int (sn_connected_at_ms s)) @
           omit_int ''disconnectedAtMs'' (int (sn_disconnected_at_ms s)) @
           [int_member ''httpRequests'' (uint (sn_http_requests s)),
            int_member ''httpBytesIn'' (uint (sn_http_bytes_in s)),
            int_member ''httpBytesOut'' (uint (sn_http_bytes_out s)),
            int_member ''httpActive'' (sint (sn_http_active s)),
            int_member ''wsUpgrades'' (uint (sn_ws_upgrades s)),
            int_member ''wsBytesIn'' (uint (sn_ws_bytes_in s)),
            int_member ''wsBytesOut'' (uint (sn_ws_bytes_out s)),
            int_member ''wsActive'' (sint (sn_ws_active s)),
            int_member ''latencyP50Us'' (uint (sn_p50 s)),
            int_member ''latencyP95Us'' (uint (sn_p95 s)),
            int_member ''latencyP99Us'' (uint (sn_p99 s)),
            (''rps60'', JArr (map (\<lambda>n. JNum (format_int (uint n))) (sn_rps60 s))),
            (''bps60'', JArr (map (\<lambda>n. JNum (format_int (uint n))) (sn_bps60 s)))])"

text \<open>A map is written with its keys in order; \<open>hosts\<close> enumerates them. No certificates, no field.\<close>

definition certs_members :: "string list \<Rightarrow> (string \<rightharpoonup> issuance_state) option \<Rightarrow> (string \<times> json) list" where
  "certs_members hosts certs =
     (case certs of
        None \<Rightarrow> []
      | Some m \<Rightarrow> if hosts = [] then [] else [(''certs'', JObj (map (\<lambda>h. (h, issuance_json (the (m h)))) (sort hosts)))])"

text \<open>\<open>err\<close> is the text of an error of the token file.\<close>

definition state_json :: "(token_file_error \<Rightarrow> string) \<Rightarrow> string list \<Rightarrow> dashboard_state \<Rightarrow> json" where
  "state_json err hosts d =
     JObj ([(''baseDomain'', JStr (ds_base_domain d)), int_member ''startedAtMs'' (int (ds_started_ms d)),
            int_member ''nowMs'' (int (ds_now_ms d)), (''services'', JArr (map stats_json (ds_services d))),
            (''tlsMode'', JStr (ds_tls_mode d))] @
           certs_members hosts (ds_certs d) @
           [int_member ''tokenCount'' (int (ds_token_count d)), int_member ''tokensReloadedAtMs'' (int (ds_tokens_reloaded_ms d))] @
           omit_str ''tokensError'' (case ds_tokens_error d of None \<Rightarrow> [] | Some e \<Rightarrow> err e))"

definition state_body :: "(token_file_error \<Rightarrow> string) \<Rightarrow> string list \<Rightarrow> dashboard_state \<Rightarrow> string" where
  "state_body err hosts d = json_body (state_json err hosts d)"

subsection \<open>Reading it back\<close>

text \<open>A reader of the documents: a missing field has its zero value, as in the browser.\<close>

definition parse_int :: "string \<Rightarrow> int" where
  "parse_int s =
     (if has_prefix s ''-'' then - int (the (parse_digits (drop 1 s) 0)) else int (the (parse_digits s 0)))"

fun num_of :: "json \<Rightarrow> int" where
  "num_of (JNum s) = parse_int s"
| "num_of _ = 0"

fun str_of :: "json \<Rightarrow> string" where
  "str_of (JStr s) = s"
| "str_of _ = []"

fun list_of :: "json \<Rightarrow> json list" where
  "list_of (JArr vs) = vs"
| "list_of _ = []"

fun members_of :: "json \<Rightarrow> (string \<times> json) list" where
  "members_of (JObj ms) = ms"
| "members_of _ = []"

definition get_field :: "string \<Rightarrow> json \<Rightarrow> json" where
  "get_field k v = (case map_of (members_of v) k of Some x \<Rightarrow> x | None \<Rightarrow> JNull)"

definition int_field :: "string \<Rightarrow> json \<Rightarrow> int" where
  "int_field k v = num_of (get_field k v)"

definition str_field :: "string \<Rightarrow> json \<Rightarrow> string" where
  "str_field k v = str_of (get_field k v)"

definition bool_field :: "string \<Rightarrow> json \<Rightarrow> bool" where
  "bool_field k v \<longleftrightarrow> get_field k v = JBool True"

definition read_token_entry :: "json \<Rightarrow> token_entry" where
  "read_token_entry v =
     \<lparr>te_service = str_field ''service'' v, te_token = str_field ''token'' v, te_wildcard = bool_field ''wildcard'' v\<rparr>"

definition read_issuance :: "json \<Rightarrow> issuance_state" where
  "read_issuance v =
     \<lparr>is_host = str_field ''host'' v,
      is_status =
        (let s = str_field ''status'' v
         in if s = ''pending'' then IssuancePending else if s = ''ready'' then IssuanceReady
            else if s = ''error'' then IssuanceError else IssuanceUnknown),
      started_ms = int_field ''startedAtMs'' v, done_ms = int_field ''doneAtMs'' v,
      elapsed_ms = int_field ''elapsedMs'' v, is_error = str_field ''error'' v\<rparr>"

definition word_field :: "string \<Rightarrow> json \<Rightarrow> 'a::len word" where
  "word_field k v = word_of_int (int_field k v)"

definition words_field :: "string \<Rightarrow> json \<Rightarrow> 'a::len word list" where
  "words_field k v = map (\<lambda>x. word_of_int (num_of x)) (list_of (get_field k v))"

definition read_stats :: "json \<Rightarrow> stats_snapshot" where
  "read_stats v =
     \<lparr>sn_service = str_field ''service'' v, sn_connected = bool_field ''connected'' v, sn_remote = str_field ''remote'' v,
      sn_connected_at_ms = nat (int_field ''connectedAtMs'' v), sn_disconnected_at_ms = nat (int_field ''disconnectedAtMs'' v),
      sn_http_requests = word_field ''httpRequests'' v, sn_http_bytes_in = word_field ''httpBytesIn'' v,
      sn_http_bytes_out = word_field ''httpBytesOut'' v, sn_http_active = word_field ''httpActive'' v,
      sn_ws_upgrades = word_field ''wsUpgrades'' v, sn_ws_bytes_in = word_field ''wsBytesIn'' v,
      sn_ws_bytes_out = word_field ''wsBytesOut'' v, sn_ws_active = word_field ''wsActive'' v,
      sn_p50 = word_field ''latencyP50Us'' v, sn_p95 = word_field ''latencyP95Us'' v, sn_p99 = word_field ''latencyP99Us'' v,
      sn_rps60 = words_field ''rps60'' v, sn_bps60 = words_field ''bps60'' v\<rparr>"

lemma parse_format_int [simp]: "parse_int (format_int i) = i"
proof (cases "i < 0")
  case True
  then show ?thesis by (simp add: parse_int_def format_int_def has_prefix_def parse_format_nat)
next
  case False
  obtain c s where c: "format_nat (nat i) = c # s" by (meson format_nat_ne neq_Nil_conv)
  then have "is_digit c" using format_nat_digits [of c "nat i"] by simp
  then have "c \<noteq> CHR ''-''" by (auto simp: is_digit_def code_def)
  with c have "\<not> has_prefix (format_nat (nat i)) ''-''" by (simp add: has_prefix_def)
  with False show ?thesis by (simp add: parse_int_def format_int_def parse_format_nat)
qed

lemma map_of_omit [simp]:
  "map_of (omit_str k s) = (\<lambda>j. if j = k \<and> s \<noteq> [] then Some (JStr s) else None)"
  "map_of (omit_int k i) = (\<lambda>j. if j = k \<and> i \<noteq> 0 then Some (JNum (format_int i)) else None)"
  by (simp_all add: omit_str_def omit_int_def fun_eq_iff)

lemmas field_defs = int_field_def str_field_def bool_field_def word_field_def words_field_def get_field_def int_member_def map_add_def

lemma read_token_entry_json: "read_token_entry (token_entry_json e) = e"
  by (simp add: read_token_entry_def token_entry_json_def field_defs)

lemma read_issuance_json: "read_issuance (issuance_json i) = i"
  by (cases "is_status i") (simp_all add: read_issuance_def issuance_json_def field_defs issuance_status_text_def Let_def)

lemma read_stats_json: "read_stats (stats_json s) = s"
  by (simp add: read_stats_def stats_json_def field_defs comp_def)

subsection \<open>Documents that can be sent\<close>

text \<open>Strings outside UTF-8 are replaced by the encoder; these are the ones that are not.\<close>

definition entry_plain :: "token_entry \<Rightarrow> bool" where
  "entry_plain e \<longleftrightarrow> valid_utf8 (te_service e) \<and> valid_utf8 (te_token e)"

definition stats_plain :: "stats_snapshot \<Rightarrow> bool" where
  "stats_plain s \<longleftrightarrow> valid_utf8 (sn_service s) \<and> valid_utf8 (sn_remote s)"

definition issuance_plain :: "issuance_state \<Rightarrow> bool" where
  "issuance_plain i \<longleftrightarrow> valid_utf8 (is_host i) \<and> valid_utf8 (is_error i)"

definition state_plain :: "(token_file_error \<Rightarrow> string) \<Rightarrow> string list \<Rightarrow> dashboard_state \<Rightarrow> bool" where
  "state_plain err hosts d \<longleftrightarrow>
     valid_utf8 (ds_base_domain d) \<and> valid_utf8 (ds_tls_mode d) \<and> list_all stats_plain (ds_services d) \<and>
     list_all valid_utf8 hosts \<and>
     (case ds_certs d of None \<Rightarrow> True | Some m \<Rightarrow> list_all (\<lambda>h. issuance_plain (the (m h))) hosts) \<and>
     (case ds_tokens_error d of None \<Rightarrow> True | Some e \<Rightarrow> valid_utf8 (err e))"

lemma json_ok_obj: "json_ok (JObj ms) d \<longleftrightarrow> d < max_nesting \<and> (\<forall>m \<in> set ms. valid_utf8 (fst m) \<and> json_ok (snd m) (Suc d))"
  by (auto simp: list_all_iff)

lemma json_ok_arr: "json_ok (JArr vs) d \<longleftrightarrow> d < max_nesting \<and> (\<forall>v \<in> set vs. json_ok v (Suc d))"
  by (auto simp: list_all_iff)

lemma omit_ok [simp]:
  "m \<in> set (omit_int k i) \<longleftrightarrow> i \<noteq> 0 \<and> m = (k, JNum (format_int i))"
  "m \<in> set (omit_str k s) \<longleftrightarrow> s \<noteq> [] \<and> m = (k, JStr s)"
  by (auto simp: omit_int_def omit_str_def)

lemma field_names_valid:
  "list_all valid_utf8
     [''service'', ''token'', ''wildcard'', ''host'', ''status'', ''startedAtMs'', ''doneAtMs'', ''elapsedMs'', ''error'',
      ''connected'', ''remote'', ''connectedAtMs'', ''disconnectedAtMs'', ''httpRequests'', ''httpBytesIn'', ''httpBytesOut'',
      ''httpActive'', ''wsUpgrades'', ''wsBytesIn'', ''wsBytesOut'', ''wsActive'', ''latencyP50Us'', ''latencyP95Us'',
      ''latencyP99Us'', ''rps60'', ''bps60'', ''baseDomain'', ''nowMs'', ''services'', ''tlsMode'', ''certs'', ''tokenCount'',
      ''tokensReloadedAtMs'', ''tokensError'', ''pending'', ''ready'']"
  by (simp add: code_def)

lemmas plain_names = field_names_valid [unfolded list.pred_inject]

lemma issuance_json_ok: "issuance_plain i \<Longrightarrow> d < max_nesting \<Longrightarrow> json_ok (issuance_json i) d"
  using plain_names
  by (cases "is_status i") (auto simp: issuance_json_def json_ok_obj issuance_plain_def issuance_status_text_def
      simp del: json_ok.simps(6) valid_utf8.simps(2))

lemma stats_json_ok: "stats_plain s \<Longrightarrow> Suc d < max_nesting \<Longrightarrow> json_ok (stats_json s) d"
  using plain_names
  by (auto simp: stats_json_def json_ok_obj json_ok_arr stats_plain_def int_member_def
      simp del: json_ok.simps(5,6) valid_utf8.simps(2))

lemma tokens_json_ok: "list_all entry_plain es \<Longrightarrow> json_ok (JArr (map token_entry_json es)) 0"
  using plain_names
  by (auto simp: json_ok_arr json_ok_obj token_entry_json_def entry_plain_def max_nesting_def list_all_iff
      simp del: json_ok.simps(5,6) valid_utf8.simps(2))

lemma certs_members_ok:
  assumes "list_all valid_utf8 hosts" "\<forall>m. certs = Some m \<longrightarrow> list_all (\<lambda>h. issuance_plain (the (m h))) hosts"
    and "x \<in> set (certs_members hosts certs)"
  shows "valid_utf8 (fst x) \<and> json_ok (snd x) 1"
  using assms plain_names
  by (auto simp: certs_members_def json_ok_obj max_nesting_def list_all_iff
      simp del: json_ok.simps(6) valid_utf8.simps(2) split: option.splits if_splits intro!: issuance_json_ok)

lemma state_json_ok:
  assumes "state_plain err hosts d"
  shows "json_ok (state_json err hosts d) 0"
proof -
  have "valid_utf8 (fst x) \<and> json_ok (snd x) 1" if "x \<in> set (certs_members hosts (ds_certs d))" for x
    using assms by (intro certs_members_ok [OF _ _ that]) (auto simp: state_plain_def split: option.splits)
  moreover have "json_ok (JArr (map stats_json (ds_services d))) 1"
    using assms stats_json_ok [of _ 2] by (auto simp: json_ok_arr state_plain_def list_all_iff max_nesting_def numeral_2_eq_2
        simp del: json_ok.simps(5))
  ultimately show ?thesis
    using assms plain_names
    by (auto simp: state_json_def json_ok_obj max_nesting_def int_member_def state_plain_def
        simp del: json_ok.simps(5,6) valid_utf8.simps(2) split: option.splits)
qed

lemma body_roundtrip: "json_ok v 0 \<Longrightarrow> json_parse (json_body v) = Some v"
  unfolding json_body_def by (rule json_roundtrip) (simp_all add: json_space_def code_def)

subsection \<open>Properties\<close>

text \<open>
  The list of tokens arrives intact: when the dashboard answers with the list, an administrator who decodes
  the body gets, in the order it was sent, every token with its service, and whether it is a wildcard.
\<close>

lemma token_list_arrives:
  assumes "admin_serve started now c tokens token_names certs names sr r = TokensJson es" "list_all entry_plain es"
  shows "rq_basic r = Some (admin_user c, admin_pass c) \<and>
    (\<exists>v. json_parse (tokens_body es) = Some v \<and> map read_token_entry (list_of v) = es)"
proof -
  have "rq_basic r = Some (admin_user c, admin_pass c)" by (rule token_list_needs_credentials [OF assms(1)])
  moreover have "map read_token_entry (list_of (JArr (map token_entry_json es))) = es"
    by (simp add: comp_def read_token_entry_json)
  ultimately show ?thesis using body_roundtrip [OF tokens_json_ok [OF assms(2)]] by (auto simp: tokens_body_def)
qed

text \<open>
  C11. The state arrives intact: decoding the body of the state gives back the domain, the times, the mode of TLS,
  the counts, the error of the token file, every counter of every service, each at its full width, and the
  record of every host that has a certificate or is waiting for one.
\<close>

theorem state_arrives:
  assumes "state_plain err hosts d" "\<forall>m. ds_certs d = Some m \<longrightarrow> distinct hosts \<and> set hosts = dom m"
  shows "\<exists>v. json_parse (state_body err hosts d) = Some v \<and>
    str_field ''baseDomain'' v = ds_base_domain d \<and> str_field ''tlsMode'' v = ds_tls_mode d \<and>
    int_field ''startedAtMs'' v = int (ds_started_ms d) \<and> int_field ''nowMs'' v = int (ds_now_ms d) \<and>
    int_field ''tokenCount'' v = int (ds_token_count d) \<and>
    int_field ''tokensReloadedAtMs'' v = int (ds_tokens_reloaded_ms d) \<and>
    str_field ''tokensError'' v = (case ds_tokens_error d of None \<Rightarrow> [] | Some e \<Rightarrow> err e) \<and>
    map read_stats (list_of (get_field ''services'' v)) = ds_services d \<and>
    (\<forall>h. map_option read_issuance (map_of (members_of (get_field ''certs'' v)) h) =
         (case ds_certs d of None \<Rightarrow> None | Some m \<Rightarrow> m h))"
proof -
  let ?v = "state_json err hosts d"
  let ?m = "members_of ?v"
  have certs_only: "map_of (certs_members hosts (ds_certs d)) k = None" if "k \<noteq> ''certs''" for k
    using that by (auto simp: certs_members_def split: option.splits)
  have "map_option read_issuance (map_of (members_of (get_field ''certs'' ?v)) h) =
      (case ds_certs d of None \<Rightarrow> None | Some m \<Rightarrow> m h)" for h
  proof (cases "ds_certs d")
    case None
    then show ?thesis by (simp add: state_json_def certs_members_def get_field_def int_member_def map_add_def)
  next
    case (Some m)
    have h: "distinct hosts" "set hosts = dom m" using assms(2) Some by simp_all
    have "map_of (map (\<lambda>h. (h, issuance_json (the (m h)))) (sort hosts)) h
        = (if h \<in> dom m then Some (issuance_json (the (m h))) else None)"
      using h by (simp add: map_of_map_restrict restrict_map_def)
    moreover have "members_of (get_field ''certs'' ?v) = (if hosts = [] then [] else map (\<lambda>h. (h, issuance_json (the (m h)))) (sort hosts))"
      using Some by (simp add: state_json_def certs_members_def get_field_def int_member_def map_add_def)
    ultimately show ?thesis
      using Some h by (auto simp: read_issuance_json domIff)
  qed
  moreover have "map read_stats (list_of (get_field ''services'' ?v)) = ds_services d"
    using certs_only by (simp add: state_json_def get_field_def int_member_def map_add_def comp_def read_stats_json)
  ultimately show ?thesis
    using body_roundtrip [OF state_json_ok [OF assms(1)]] certs_only
    by (intro exI [of _ ?v]) (simp add: state_body_def state_json_def field_defs split: option.splits)
qed

subsection \<open>A concrete dashboard\<close>

definition demo_row :: stats_snapshot where
  "demo_row =
     \<lparr>sn_service = ''foo'', sn_connected = True, sn_remote = ''10.0.0.7:4000'', sn_connected_at_ms = 5, sn_disconnected_at_ms = 0,
      sn_http_requests = 3, sn_http_bytes_in = - 1, sn_http_bytes_out = 7, sn_http_active = - 1, sn_ws_upgrades = 0,
      sn_ws_bytes_in = 0, sn_ws_bytes_out = 0, sn_ws_active = 0, sn_p50 = 9, sn_p95 = 9, sn_p99 = 9, sn_rps60 = [0, 3], sn_bps60 = [0, 6]\<rparr>"

definition demo_dashboard :: dashboard_state where
  "demo_dashboard =
     \<lparr>ds_base_domain = ''router.com'', ds_started_ms = 5, ds_now_ms = 7, ds_services = [demo_row],
      ds_tls_mode = ''autocert'',
      ds_certs = Some [''foo.router.com'' \<mapsto> \<lparr>is_host = ''foo.router.com'', is_status = IssuanceReady, started_ms = 3,
        done_ms = 9, elapsed_ms = 6, is_error = []\<rparr>],
      ds_token_count = 2, ds_tokens_reloaded_ms = 0, ds_tokens_error = None\<rparr>"

lemma demo_dashboard_plain: "state_plain err [''foo.router.com''] demo_dashboard"
  by (simp add: state_plain_def demo_dashboard_def stats_plain_def issuance_plain_def demo_row_def code_def)

lemma token_list_arrives_example:
  "\<exists>v. json_parse (tokens_body (the (serve_tokens admin_config [''a''] demo_store))) = Some v \<and> length (list_of v) = 1"
proof -
  let ?es = "the (serve_tokens admin_config [''a''] demo_store)"
  have es: "admin_serve 0 0 admin_config demo_store [''a''] None [] new_stats_registry admin_request = TokensJson ?es"
    by (simp add: admin_serve_def require_auth_def serve_tokens_def admin_config_def admin_request_def demo_request_def)
  have "list_all entry_plain ?es \<and> length ?es = 1"
    by (simp add: serve_tokens_def admin_config_def entry_plain_def token_entry_of_def all_tokens_def demo_store_def code_def)
  with token_list_arrives [OF es] show ?thesis by (metis length_map)
qed

theorem state_arrives_witness:
  "\<exists>v. json_parse (state_body (\<lambda>_. []) [''foo.router.com''] demo_dashboard) = Some v \<and>
     int_field ''tokenCount'' v = 2 \<and> map read_stats (list_of (get_field ''services'' v)) = [demo_row]"
proof -
  have certs: "\<forall>m. ds_certs demo_dashboard = Some m \<longrightarrow> distinct [''foo.router.com''] \<and> set [''foo.router.com''] = dom m"
    and f: "ds_token_count demo_dashboard = 2" "ds_services demo_dashboard = [demo_row]"
    by (simp_all add: demo_dashboard_def)
  from state_arrives [OF demo_dashboard_plain [of "\<lambda>_. []"] certs] obtain v where
    "json_parse (state_body (\<lambda>_. []) [''foo.router.com''] demo_dashboard) = Some v"
    "int_field ''tokenCount'' v = int (ds_token_count demo_dashboard)"
    "map read_stats (list_of (get_field ''services'' v)) = ds_services demo_dashboard" by blast
  with f show ?thesis by auto
qed

end
