(* ===== verification/Answers.thy ===== *)
theory Answers
  imports Dashboard
begin

text \<open>
  The answers the router gives itself, as status, header and body: the health check, the issuing page, the
  dashboard's API, the errors and the redirect. What is handed over to another library (the files of the
  dashboard, its web socket, the ACME challenge) has no answer here, and a forwarded request gets the answer of
  its client. The template of the issuing page, which has a theory of its own, and the texts of file errors are parameters.
\<close>

subsection \<open>Single answers\<close>

definition plain_answer :: "nat \<Rightarrow> (string \<times> string) list \<Rightarrow> string \<Rightarrow> answer" where
  "plain_answer st hs body =
     \<lparr>an_status = st, an_header = fold (\<lambda>(k, v). header_set k v) hs [], an_body = body, an_flushes = 0\<rparr>"

definition health_answer :: "(token_file_error \<Rightarrow> string) \<Rightarrow> token_store \<Rightarrow> answer" where
  "health_answer err_text tokens =
     (case serve_health err_text tokens of
        (st, body) \<Rightarrow> plain_answer st [(''Content-Type'', ''text/plain; charset=utf-8''), (''Cache-Control'', ''no-store'')] body)"

definition write_issuing_page :: "(issuing_page \<Rightarrow> string) \<Rightarrow> issuing_page \<Rightarrow> nat \<Rightarrow> answer" where
  "write_issuing_page template page st =
     plain_answer st [(''Content-Type'', ''text/html; charset=utf-8''), (''Cache-Control'', ''no-store'')] (template page)"

definition json_answer :: "string \<Rightarrow> answer" where
  "json_answer body = plain_answer 200 [(''Content-Type'', ''application/json''), (''Cache-Control'', ''no-store'')] body"

text \<open>The dashboard; \<open>None\<close> when the file server or the web-socket library takes over.\<close>

definition admin_realm :: string where
  "admin_realm = ''Basic realm='' @ dquote # ''ax-router admin'' @ [dquote]"

definition admin_answer :: "(token_file_error \<Rightarrow> string) \<Rightarrow> string list \<Rightarrow> admin_action \<Rightarrow> answer option" where
  "admin_answer err_text hosts a =
     (case a of
        Unauthorized \<Rightarrow> Some (http_error ''unauthorized'' 401 (header_set ''WWW-Authenticate'' admin_realm []))
      | StateJson d \<Rightarrow> Some (json_answer (state_body err_text hosts d))
      | TokensJson es \<Rightarrow> Some (json_answer (tokens_body es))
      | TokensForbidden \<Rightarrow> Some (http_error ''token viewer requires AXR_ADMIN_USER and AXR_ADMIN_PASS'' 403 [])
      | StateStream \<Rightarrow> None
      | StaticFile \<Rightarrow> None)"

text \<open>
  \<open>http.Redirect\<close> with an absolute target: bytes outside ASCII are escaped in the header; a \<open>GET\<close> also gets a
  short page with a link.
\<close>

definition hex_escape_non_ascii :: "string \<Rightarrow> string" where
  "hex_escape_non_ascii s =
     concat (map (\<lambda>c. if code c < 128 then [c] else [CHR ''%'', digit_char (code c div 16), digit_char (code c mod 16)]) s)"

definition html_escape :: "string \<Rightarrow> string" where
  "html_escape s =
     concat (map (\<lambda>c. if c = CHR ''&'' then ''&amp;'' else if c = CHR ''<'' then ''&lt;'' else if c = CHR ''>'' then ''&gt;''
       else if c = dquote then ''&#34;'' else if code c = 39 then ''&#39;'' else [c]) s)"

definition moved_answer :: "string \<Rightarrow> string \<Rightarrow> answer" where
  "moved_answer meth target =
     plain_answer 301
       ((''Location'', hex_escape_non_ascii target) #
        (if meth = ''GET'' \<or> meth = ''HEAD'' then [(''Content-Type'', ''text/html; charset=utf-8'')] else []))
       (if meth = ''GET''
        then ''<a href='' @ dquote # html_escape target @ dquote # ''>Moved Permanently</a>.'' @ [CHR 0x0A, CHR 0x0A]
        else [])"

subsection \<open>The answer to a request\<close>

text \<open>\<open>admin\<close> is the dashboard on the request; \<open>None\<close> stands for what others answer.\<close>

definition public_answer ::
  "(token_file_error \<Rightarrow> string) \<Rightarrow> (issuing_page \<Rightarrow> string) \<Rightarrow> string list \<Rightarrow> token_store \<Rightarrow> (request \<Rightarrow> admin_action) \<Rightarrow>
   request \<Rightarrow> public_result \<Rightarrow> answer option" where
  "public_answer err_text template hosts tokens admin r res =
     (case res of
        Answered ServeHealth \<Rightarrow> Some (health_answer err_text tokens)
      | Answered ServeAdmin \<Rightarrow> admin_answer err_text hosts (admin r)
      | Answered UnknownHost \<Rightarrow> Some (http_error ''unknown host'' 404 [])
      | Answered (ShowIssuing page st) \<Rightarrow> Some (write_issuing_page template page st)
      | Answered (LookUp _) \<Rightarrow> None
      | Dispatched GatewayError \<Rightarrow> Some (http_error ''service unavailable'' 502 [])
      | Dispatched _ \<Rightarrow> None)"

definition redirect_answer :: "(issuing_page \<Rightarrow> string) \<Rightarrow> request \<Rightarrow> redirect_action \<Rightarrow> answer option" where
  "redirect_answer template r a =
     (case a of
        PassOn \<Rightarrow> None
      | RedirectIssuing page st \<Rightarrow> Some (write_issuing_page template page st)
      | MovedTo target \<Rightarrow> Some (moved_answer (rq_method r) target))"

subsection \<open>What the answers promise\<close>

text \<open>The link of a redirect cannot break out of its attribute, and the target in the header is ASCII.\<close>

lemma html_escape_safe: "c \<in> {CHR ''<'', CHR ''>'', dquote} \<Longrightarrow> c \<notin> set (html_escape s)"
proof (induction s)
  case (Cons a s)
  have out: "html_escape (a # s) = html_escape [a] @ html_escape s" by (simp add: html_escape_def)
  have "c \<notin> set (html_escape [a])"
    using Cons.prems by (simp add: html_escape_def dquote_def) (elim disjE; simp)
  with Cons show ?case unfolding out set_append Un_iff by blast
qed (simp add: html_escape_def)

lemma digit_char_ascii: "d < 16 \<Longrightarrow> code (digit_char d) < 128"
  by (auto simp: digit_char_def code_def)

lemma hex_escape_ascii: "c \<in> set (hex_escape_non_ascii s) \<Longrightarrow> code c < 128"
proof (induction s)
  case (Cons a s)
  have "code a div 16 < 16" by (rule less_mult_imp_div_less) (use code_less [of a] in simp)
  then have "code (digit_char (code a div 16)) < 128" "code (digit_char (code a mod 16)) < 128"
    by (simp_all add: digit_char_ascii)
  with Cons show ?case by (auto simp: hex_escape_non_ascii_def code_def split: if_splits)
qed (simp add: hex_escape_non_ascii_def)

text \<open>Answers with something current in them, of the router and of the dashboard, are not to be cached.\<close>

lemmas own_answer_defs = health_answer_def write_issuing_page_def json_answer_def plain_answer_def http_error_def

lemma own_answers_not_cached:
  "map_of (an_header (health_answer err tokens)) ''Cache-Control'' = Some [''no-store'']"
  "map_of (an_header (write_issuing_page template page st)) ''Cache-Control'' = Some [''no-store'']"
  "map_of (an_header (json_answer body)) ''Cache-Control'' = Some [''no-store'']"
  by (simp_all add: own_answer_defs header_set_def update_conv' split: prod.split)

text \<open>Every request that is not handed on gets one of six statuses; the page of an issuance decides its own.\<close>

lemma public_answer_status:
  assumes "public_answer err template hosts tokens admin r res = Some a" "\<And>page st. res \<noteq> Answered (ShowIssuing page st)"
  shows "an_status a \<in> {200, 401, 403, 404, 500, 502}"
  using assms
  by (auto simp: public_answer_def admin_answer_def serve_health_def own_answer_defs split: public_result.splits
      public_action.splits dispatch.splits admin_action.splits option.splits if_splits prod.splits)

end
