(* ===== verification/IssuingPage.thy ===== *)
theory IssuingPage
  imports Answers "HOL-Library.Sublist"
begin

text \<open>
  The page that visitors see while a certificate is issued or after it has failed: \<open>server/templates/issuing.html\<close> as
  \<open>html/template\<close> executes it on the data of \<open>renderIssuingPage\<close>. Its style sheet holds no data and is a parameter.
\<close>

subsection \<open>The template\<close>

text \<open>What \<open>html/template\<close> makes of a value in text and in a title.\<close>

definition template_escape :: "string \<Rightarrow> string" where
  "template_escape s =
     concat (map (\<lambda>c. if c = CHR 0x00 then [CHR 0xEF, CHR 0xBF, CHR 0xBD] else if c = dquote then ''&#34;''
       else if c = CHR ''&'' then ''&amp;'' else if c = CHR 0x27 then ''&#39;'' else if c = CHR ''+'' then ''&#43;''
       else if c = CHR ''<'' then ''&lt;'' else if c = CHR ''>'' then ''&gt;'' else [c]) s)"

definition page_heading :: "issuing_page \<Rightarrow> string" where
  "page_heading p = (if pg_errored p then ''Certificate error'' else ''Issuing certificate'')"

text \<open>The bytes after the title and in the heading are an em dash and an ellipsis.\<close>

definition page_head :: "issuing_page \<Rightarrow> string" where
  \<open>page_head p =
     text_lines
       [''<!doctype html>'',
        ''<html lang="en" data-theme="dark">'',
        ''<head>'',
        ''  <meta charset="utf-8" />'',
        ''  <meta name="viewport" content="width=device-width, initial-scale=1.0" />'',
        ''  '' @ (if pg_errored p then [] else ''<meta http-equiv="refresh" content="2" />''),
        ''  <title>'' @ page_heading p @ '' '' @ [CHR 0xE2, CHR 0x80, CHR 0x94] @ '' '' @ template_escape (pg_host p) @ ''</title>'']\<close>

definition page_body :: "issuing_page \<Rightarrow> string" where
  \<open>page_body p =
     text_lines
       ([''</head>'',
         ''<body>'',
         ''  <main class="card'' @ (if pg_errored p then '' err'' else []) @ ''">'',
         ''    <span class="badge'' @ (if pg_errored p then '' err'' else []) @ ''">'',
         ''      <span class="dot"></span>'',
         ''      '' @ page_heading p,
         ''    </span>'',
         ''    <h1>'' @ (if pg_errored p then ''Could not issue a TLS certificate''
                         else ''Provisioning a TLS certificate'' @ [CHR 0xE2, CHR 0x80, CHR 0xA6]) @ ''</h1>'',
         ''    <p>'',
         ''      ''] @
        (if pg_errored p
         then [''        ax-router tried to obtain a Let&rsquo;s Encrypt certificate for <code>'' @ template_escape (pg_host p) @
                 ''</code> and failed.'',
               ''        The administrator has been notified.'']
         else [''        Hold tight while ax-router obtains a Let&rsquo;s Encrypt certificate for <code>'' @
                 template_escape (pg_host p) @ ''</code>.'',
               ''        This usually takes a few seconds; this page reloads automatically.'']) @
        [''      '',
         ''    </p>'',
         [],
         ''    ''] @
        (if pg_errored p
         then [''      <div class="err-detail">'' @ template_escape (pg_error p) @ ''</div>'']
         else [''      <div class="progress" aria-hidden="true"><div class="bar"></div></div>'',
               ''      <div class="meta">elapsed '' @ template_escape (format_int (pg_elapsed_secs p)) @ ''s '' @ middle_dot @
                 '' auto-refresh every 2s</div>'']) @
        [''    '',
         [],
         ''    <div class="footer">ax-router2</div>'',
         ''  </main>'',
         ''</body>'',
         ''</html>''])\<close>

definition issuing_html :: "string \<Rightarrow> issuing_page \<Rightarrow> string" where
  "issuing_html style p = page_head p @ text_lines [''  <style>''] @ style @ text_lines [''  </style>''] @ page_body p"

subsection \<open>Data cannot become markup\<close>

text \<open>The bytes that structure a page.\<close>

definition markup :: "char \<Rightarrow> bool" where
  "markup c \<longleftrightarrow> c = CHR ''<'' \<or> c = CHR ''>'' \<or> c = dquote \<or> c = CHR 0x27"

definition structure_of :: "string \<Rightarrow> string" where
  "structure_of = filter markup"

lemma template_escape_inert [simp]: "structure_of (template_escape s) = []"
proof -
  have "\<not> markup c" if "c \<in> set ''&#34;&amp;&#39;&#43;&lt;&gt;''" for c
    using that by (auto simp: markup_def dquote_def code_def)
  then show ?thesis
    unfolding structure_of_def template_escape_def filter_concat
    by (auto simp: filter_empty_conv markup_def dquote_def code_def split: if_splits)
qed

lemma structure_append [simp]: "structure_of (a @ b) = structure_of a @ structure_of b"
  by (simp add: structure_of_def)

lemma structure_lines [simp]:
  "structure_of (text_lines []) = []"
  "structure_of (text_lines (l # ls)) = structure_of l @ structure_of (text_lines ls)"
  "structure_of (text_lines (ls @ ms)) = structure_of (text_lines ls) @ structure_of (text_lines ms)"
  by (simp_all add: text_lines_def structure_of_def markup_def dquote_def code_def)


lemma structure_nil [simp]: "structure_of [] = []"
  by (simp add: structure_of_def)

text \<open>A page in the same state with nothing to say.\<close>

definition blank_page :: "bool \<Rightarrow> issuing_page" where
  "blank_page errored = \<lparr>pg_host = [], pg_elapsed_secs = 0, pg_errored = errored, pg_error = []\<rparr>"

lemma issuing_structure:
  "structure_of (issuing_html style p) = structure_of (issuing_html style (blank_page (pg_errored p)))"
  by (cases "pg_errored p")
    (simp_all only: issuing_html_def page_head_def page_body_def page_heading_def blank_page_def issuing_page.simps if_True if_False
      structure_append structure_lines template_escape_inert)

text \<open>What a browser reads in the escaped text: each reference is one character.\<close>

definition references :: "(string \<times> char) list" where
  "references =
     [(''&#34;'', dquote), (''&amp;'', CHR ''&''), (''&#39;'', CHR 0x27), (''&#43;'', CHR ''+''), (''&lt;'', CHR ''<''), (''&gt;'', CHR ''>'')]"

fun reference_at :: "(string \<times> char) list \<Rightarrow> string \<Rightarrow> (char \<times> string) option" where
  "reference_at [] s = None"
| "reference_at ((t, c) # ts) s = (if has_prefix s t then Some (c, drop (length t) s) else reference_at ts s)"

lemma reference_shorter:
  "reference_at ts s = Some (c, rest) \<Longrightarrow> \<forall>t \<in> set ts. fst t \<noteq> [] \<Longrightarrow> length rest < length s"
  by (induction ts s rule: reference_at.induct)
    (auto simp: has_prefix_def split: if_splits, metis diff_less length_greater_0_conv take_Nil)

lemma references_ne: "\<forall>t \<in> set references. fst t \<noteq> []"
  by (simp add: references_def)

function html_text :: "string \<Rightarrow> string" where
  "html_text [] = []"
| "html_text (c # s) =
     (case reference_at references (c # s) of
        Some (d, rest) \<Rightarrow> d # html_text rest
      | None \<Rightarrow> c # html_text s)"
  by pat_completeness auto
termination
  by (relation "measure length") (auto dest: reference_shorter [OF _ references_ne])

lemma html_text_references:
  "html_text (CHR ''&'' # CHR ''#'' # CHR ''3'' # CHR ''4'' # CHR '';'' # s) = dquote # html_text s"
  "html_text (CHR ''&'' # CHR ''a'' # CHR ''m'' # CHR ''p'' # CHR '';'' # s) = CHR ''&'' # html_text s"
  "html_text (CHR ''&'' # CHR ''#'' # CHR ''3'' # CHR ''9'' # CHR '';'' # s) = CHR 0x27 # html_text s"
  "html_text (CHR ''&'' # CHR ''#'' # CHR ''4'' # CHR ''3'' # CHR '';'' # s) = CHR ''+'' # html_text s"
  "html_text (CHR ''&'' # CHR ''l'' # CHR ''t'' # CHR '';'' # s) = CHR ''<'' # html_text s"
  "html_text (CHR ''&'' # CHR ''g'' # CHR ''t'' # CHR '';'' # s) = CHR ''>'' # html_text s"
  by (simp_all add: references_def has_prefix_def)

lemma html_text_other: "c \<noteq> CHR ''&'' \<Longrightarrow> html_text (c # s) = c # html_text s"
  by (simp add: references_def has_prefix_def)

text \<open>A NUL byte is shown as the replacement character.\<close>

definition printed :: "string \<Rightarrow> string" where
  "printed s = concat (map (\<lambda>c. if c = CHR 0x00 then [CHR 0xEF, CHR 0xBF, CHR 0xBD] else [c]) s)"

lemma html_text_escape: "html_text (template_escape s) = printed s"
proof (induction s)
  case (Cons c s)
  have c: "template_escape (c # s) = template_escape [c] @ template_escape s" "printed (c # s) = printed [c] @ printed s"
    by (simp_all add: template_escape_def printed_def)
  have "html_text (template_escape [c] @ t) = printed [c] @ html_text t" for t
    by (simp add: template_escape_def printed_def html_text_references html_text_other dquote_def del: html_text.simps(2))
  with Cons show ?case by (simp add: c)
qed (simp add: template_escape_def printed_def)


text \<open>Where the host is shown.\<close>

lemma sublist_later: "sublist t u \<Longrightarrow> sublist t (a @ u)"
  by (auto simp: sublist_def) (metis append_assoc)

lemma host_shown: "sublist (template_escape (pg_host p)) (issuing_html style p)"
  unfolding issuing_html_def page_head_def text_lines_def list.map concat.simps append_assoc
  by (rule sublist_append_rightI | rule sublist_later)+

lemma issuing_page_data:
  assumes "public_handler now c certs lookup r = Answered (ShowIssuing p st)"
  shows "st = 503 \<and> (\<exists>service. service = extract_service (strip_port (rq_host r)) (to_lower (base_domain c)) \<and>
    pg_host p = service @ ''.'' @ to_lower (base_domain c))"
  using assms
  by (auto simp: public_handler_def public_route_def issuing_for_def render_issuing_page_def Let_def
      split: public_action.splits option.splits prod.splits issuance_status.splits if_splits)

subsection \<open>Property\<close>

text \<open>
  C26. No visitor and no failure can put markup into the issuing page: whatever request gets the page, its angle
  brackets and quotes are those of the template in the same state, whatever host was asked for and whatever error is
  reported. The page is sent with 503 and not cached, it names the service the request asked for, and a browser
  reads that name as it was in the request.
\<close>

theorem issuing_page_inert:
  assumes "public_handler now c certs lookup r = Answered (ShowIssuing p st)"
    and "public_answer err (issuing_html style) hosts tokens admin r (Answered (ShowIssuing p st)) = Some a"
  shows "structure_of (an_body a) = structure_of (issuing_html style (blank_page (pg_errored p))) \<and>
    an_status a = 503 \<and> map_of (an_header a) ''Cache-Control'' = Some [''no-store''] \<and>
    (\<exists>name. name = extract_service (strip_port (rq_host r)) (to_lower (base_domain c)) @ ''.'' @ to_lower (base_domain c) \<and>
       sublist (template_escape name) (an_body a) \<and> html_text (template_escape name) = printed name)"
proof -
  have a: "a = write_issuing_page (issuing_html style) p st" using assms(2) by (simp add: public_answer_def)
  then have "an_body a = issuing_html style p" "an_status a = st" by (simp_all add: write_issuing_page_def plain_answer_def)
  moreover have "map_of (an_header a) ''Cache-Control'' = Some [''no-store'']" unfolding a by (rule own_answers_not_cached)
  ultimately show ?thesis
    using issuing_page_data [OF assms(1)] issuing_structure host_shown [of p style] html_text_escape by metis
qed

subsection \<open>A page that reports an error\<close>

definition demo_failed :: cert_issuer where
  "demo_failed = run_done 5 (''foo.router.com'', 0) (Some ''<b>no</b>'') (issue 0 ''foo.router.com'' demo_issuer)"

theorem issuing_page_inert_witness:
  "\<exists>p a. public_handler 9 (env_config demo_env) (Some demo_failed) (\<lambda>_. Inl ErrNoClient) (demo_request ''foo.router.com'' ''/'')
       = Answered (ShowIssuing p 503) \<and>
     public_answer (\<lambda>_. []) (issuing_html []) [] demo_store (\<lambda>_. StaticFile) (demo_request ''foo.router.com'' ''/'')
       (Answered (ShowIssuing p 503)) = Some a \<and>
     pg_error p = ''<b>no</b>'' \<and> structure_of (an_body a) = structure_of (issuing_html [] (blank_page True))"
proof -
  let ?c = "env_config demo_env" and ?r = "demo_request ''foo.router.com'' ''/''" and ?p = "\<lparr>pg_host = ''foo.router.com'', pg_elapsed_secs = 0, pg_errored = True, pg_error = ''<b>no</b>''\<rparr>"
  have clean: "clean_host ''foo.router.com'' = ''foo.router.com''" by code_simp
  have base: "base_domain ?c = ''router.com''" "to_lower ''router.com'' = ''router.com''" by (rule demo_fields) code_simp
  have host: "strip_port (rq_host ?r) = ''foo.router.com''" "extract_service ''foo.router.com'' ''router.com'' = ''foo''"
    "\<not> equal_fold ''foo.router.com'' ''router.com''" "\<not> equal_fold ''foo.router.com'' (''www.'' @ ''router.com'')"
    "rq_path ?r \<noteq> ''/health''"
    by code_simp+
  have page: "issuing_for 9 (Some demo_failed) (''foo'' @ ''.'' @ ''router.com'') = Some (?p, 503)"
    by (simp add: issuing_for_def render_issuing_page_def cert_status_def clean demo_failed_def run_done_def issue_def settled_def
        demo_issuer_def new_cert_issuer_def with_elapsed_def Let_def)
  have route: "public_handler 9 ?c (Some demo_failed) (\<lambda>_. Inl ErrNoClient) ?r = Answered (ShowIssuing ?p 503)"
    unfolding public_handler_def public_route_def apex_host_def base host Let_def page using host by simp
  let ?answer = "public_answer (\<lambda>_. []) (issuing_html []) [] demo_store (\<lambda>_. StaticFile) ?r (Answered (ShowIssuing ?p 503))"
  obtain a where a: "?answer = Some a" by (simp add: public_answer_def)
  from issuing_page_inert [OF route a] have "structure_of (an_body a) = structure_of (issuing_html [] (blank_page True))" by simp
  with route a show ?thesis by (intro exI [of _ ?p] exI [of _ a]) simp
qed

end
