(* ===== verification/Axr.thy ===== *)
theory Axr
  imports ProxyClient Config
begin

text \<open>
  The command-line client (\<open>tools/axr/main.go\<close>): the line it prints about itself, the settings it takes
  from flags, the environment and an optional file of variables, the target argument, and every way
  \<open>main\<close> can go. It starts from a parsed command line, which \<open>Cli\<close> supplies; \<open>godotenv\<close> is a parameter.
\<close>

subsection \<open>The version line\<close>

record build_info =
  bi_version :: string
  bi_build :: string
  bi_commit :: string
  bi_goos :: string
  bi_goarch :: string

definition version_line :: "string \<Rightarrow> build_info \<Rightarrow> string" where
  "version_line name b =
     name @ '' '' @ bi_version b @ '' build '' @ bi_build b @
     (if bi_commit b \<noteq> [] then '' ('' @ bi_commit b @ '')'' else []) @
     '' '' @ bi_goos b @ ''/'' @ bi_goarch b"

definition axr_version_line :: "build_info \<Rightarrow> string" where
  "axr_version_line b = version_line ''axr'' b"

subsection \<open>The target\<close>

datatype target_error = EmptyTarget | PortOutOfRange

definition normalize_target :: "string \<Rightarrow> target_error + string" where
  "normalize_target s0 =
     (let s = trim_space s0
      in if s = [] then Inl EmptyTarget
         else if list_ex (has_prefix s) [''http://'', ''https://'', ''ws://'', ''wss://''] then Inr s
         else (case atoi s of
                 Some n \<Rightarrow>
                   if n < 1 \<or> n > 65535 then Inl PortOutOfRange
                   else Inr (''http://localhost:'' @ format_nat (nat n))
               | None \<Rightarrow> Inr (''http://'' @ s)))"

subsection \<open>Settings\<close>

definition env_or :: "environment \<Rightarrow> string \<Rightarrow> string \<Rightarrow> string" where
  "env_or e k def = (case e k of Some v \<Rightarrow> if v \<noteq> [] then v else def | None \<Rightarrow> def)"

definition getenv :: "environment \<Rightarrow> string \<Rightarrow> string" where
  "getenv e k = (case e k of Some v \<Rightarrow> v | None \<Rightarrow> [])"

text \<open>A parsed command line: a flag that was not passed is \<open>None\<close>.\<close>

record axr_flags =
  fl_server :: "string option"
  fl_token :: "string option"
  fl_service :: "string option"
  fl_host_rewrite :: bool
  fl_env_file :: string
  fl_version :: bool
  fl_args :: "string list"

definition flag_passed :: "'a option \<Rightarrow> bool" where
  "flag_passed f \<longleftrightarrow> f \<noteq> None"

datatype axr_exit =
    ShowVersion string
  | EnvFileError string
  | UsageError
  | TargetError target_error
  | TokenMissing
  | ClientRefused proxy_error
  | Forwarding proxy_client string string \<comment> \<open>the client, the target and the label that are logged\<close>

text \<open>
  The server, token and service in force once the flags are parsed and the file is loaded; \<open>load path e\<close> is
  what \<open>godotenv.Load\<close> makes of the environment \<open>e\<close>, or its error.
\<close>

definition axr_settings ::
  "(string \<Rightarrow> environment \<Rightarrow> string + environment) \<Rightarrow> environment \<Rightarrow> axr_flags \<Rightarrow> string + string \<times> string \<times> string" where
  "axr_settings load e f =
     (let at_parse = (\<lambda>fl def. case fl of Some v \<Rightarrow> v | None \<Rightarrow> def);
          server = at_parse (fl_server f) (env_or e ''AXR_SERVER'' ''localhost:7000'');
          token = at_parse (fl_token f) (getenv e ''AXR_TOKEN'');
          service = at_parse (fl_service f) (getenv e ''AXR_SERVICE'')
      in if fl_env_file f \<noteq> []
         then bind_err (load (fl_env_file f) e)
           (\<lambda>e1. Inr (if \<not> flag_passed (fl_server f) then env_or e1 ''AXR_SERVER'' ''localhost:7000'' else server,
                     if \<not> flag_passed (fl_token f) then getenv e1 ''AXR_TOKEN'' else token,
                     if \<not> flag_passed (fl_service f) then getenv e1 ''AXR_SERVICE'' else service))
         else Inr (server, token, service))"

definition axr_main ::
  "build_info \<Rightarrow> (string \<Rightarrow> environment \<Rightarrow> string + environment) \<Rightarrow> environment \<Rightarrow> axr_flags \<Rightarrow> axr_exit" where
  "axr_main b load e f =
     (if fl_version f then ShowVersion (axr_version_line b)
      else (case axr_settings load e f of
              Inl err \<Rightarrow> EnvFileError err
            | Inr (server, token, service) \<Rightarrow>
                (case fl_args f of
                   [arg] \<Rightarrow>
                     (case normalize_target arg of
                        Inl err \<Rightarrow> TargetError err
                      | Inr target \<Rightarrow>
                          if token = [] then TokenMissing
                          else (case new_proxy \<lparr>cc_server_addr = server, cc_token = token, cc_service = service,
                                                cc_min = 0, cc_max = 0\<rparr> target of
                                  Inl err \<Rightarrow> ClientRefused err
                                | Inr c \<Rightarrow>
                                    Forwarding (c\<lparr>pc_host_rewrite := fl_host_rewrite f\<rparr>) target
                                      (if service = [] then ''(token-bound)'' else service)))
                 | _ \<Rightarrow> UsageError)))"

lemma axr_settings_value:
  assumes "axr_settings load e f = Inr (server, token, service)"
  obtains e1 where "if fl_env_file f = [] then e1 = e else load (fl_env_file f) e = Inr e1"
    "token = (case fl_token f of Some v \<Rightarrow> v | None \<Rightarrow> getenv e1 ''AXR_TOKEN'')"
    "service = (case fl_service f of Some v \<Rightarrow> v | None \<Rightarrow> getenv e1 ''AXR_SERVICE'')"
  using assms
  by (cases "fl_env_file f = []"; cases "fl_token f"; cases "fl_service f")
    (auto simp: axr_settings_def Let_def flag_passed_def err_simps)

lemma new_proxy_config:
  "new_proxy cfg t = Inr pc \<Longrightarrow> cc_token (pc_config pc) = cc_token cfg \<and> cc_service (pc_config pc) = cc_service cfg"
  by (auto simp: new_proxy_def new_client_def Let_def split: option.splits if_splits sum.splits)

lemma axr_main_forwarding:
  assumes "axr_main b load e f = Forwarding pc target label"
  obtains server token service where "axr_settings load e f = Inr (server, token, service)" "token \<noteq> []"
    "cc_token (pc_config pc) = token" "cc_service (pc_config pc) = service"
  using assms
  by (auto simp: axr_main_def split: if_splits sum.splits prod.splits list.splits dest: new_proxy_config)

subsection \<open>Targets\<close>

definition trimmed :: "string \<Rightarrow> bool" where
  "trimmed s \<longleftrightarrow> s = [] \<or> \<not> is_space (hd s) \<and> \<not> is_space (last s)"

lemma trim_space_trimmed: "trimmed s \<Longrightarrow> trim_space s = s"
proof -
  assume t: "trimmed s"
  have "dropWhile is_space s = s" using t by (cases s) (auto simp: trimmed_def)
  moreover have "dropWhile is_space (rev s) = rev s"
    using t by (cases "rev s") (auto simp: trimmed_def hd_rev [symmetric])
  ultimately show ?thesis by (simp add: trim_space_def)
qed

lemma trimmed_trim_space: "trimmed (trim_space s)"
proof (cases "dropWhile is_space s = []")
  case True
  then have "trim_space s = []" by (simp only: trim_space_def rev.simps dropWhile.simps)
  then show ?thesis by (simp add: trimmed_def)
next
  case False
  let ?d = "dropWhile is_space s"
  let ?u = "dropWhile is_space (rev ?d)"
  have hd: "\<not> is_space (hd ?d)" using False by (rule hd_dropWhile)
  then have u: "?u \<noteq> []" using False by (metis dropWhile_eq_Nil_conv hd_in_set set_rev)
  have "last ?u = last (takeWhile is_space (rev ?d) @ ?u)" using u by (rule last_appendR [symmetric])
  also have "\<dots> = hd ?d" by (simp only: takeWhile_dropWhile_id last_rev)
  finally show ?thesis
    using u hd hd_dropWhile [OF u] by (simp add: trimmed_def trim_space_def hd_rev last_rev)
qed

lemma trim_space_idem [simp]: "trim_space (trim_space s) = trim_space s"
  by (simp add: trim_space_trimmed trimmed_trim_space)

definition target_schemes :: "string list" where
  "target_schemes = [''http://'', ''https://'', ''ws://'', ''wss://'']"

lemma has_prefix_append [simp]: "has_prefix (p @ s) p"
  by (auto simp: has_prefix_iff)

lemma normalize_fixed:
  "trimmed t \<Longrightarrow> t \<noteq> [] \<Longrightarrow> \<exists>p \<in> set target_schemes. has_prefix t p \<Longrightarrow> normalize_target t = Inr t"
  by (auto simp: normalize_target_def trim_space_trimmed Let_def target_schemes_def)

lemma trimmed_http: "trimmed s \<Longrightarrow> s \<noteq> [] \<Longrightarrow> trimmed (''http://'' @ s)"
  by (simp add: trimmed_def is_space_def code_def)

lemma digit_not_space: "is_digit c \<Longrightarrow> \<not> is_space c"
  by (auto simp: is_space_def is_digit_def)

lemma trimmed_digits: "trimmed (format_nat n)"
  unfolding trimmed_def
  using format_nat_digits [of "hd (format_nat n)" n] format_nat_digits [of "last (format_nat n)" n]
  by (simp add: digit_not_space)

lemma format_nat_not_url: "p \<in> set target_schemes \<Longrightarrow> \<not> has_prefix (format_nat n) p"
proof
  assume p: "p \<in> set target_schemes" and h: "has_prefix (format_nat n) p"
  obtain a where a: "format_nat n = p @ a" using h unfolding has_prefix_iff by blast
  have "\<forall>c \<in> set p. is_digit c" using format_nat_digits [of _ n] unfolding a by simp
  with p show False by (auto simp: target_schemes_def is_digit_def code_def)
qed


subsection \<open>Properties\<close>

text \<open>
  \<open>normalizeTarget\<close> always ends in a string that starts with one of the four schemes, which it would return unchanged,
  or in an error, and the errors are a blank argument and a number outside the ports.
\<close>

lemma normalize_target_result:
  "case normalize_target s of
     Inr t \<Rightarrow> (\<exists>p \<in> set target_schemes. has_prefix t p) \<and> normalize_target t = Inr t
   | Inl EmptyTarget \<Rightarrow> trim_space s = []
   | Inl PortOutOfRange \<Rightarrow> (\<exists>n. atoi (trim_space s) = Some n \<and> (n < 1 \<or> 65535 < n))"
proof -
  let ?s = "trim_space s"
  have tr: "trimmed ?s" by (rule trimmed_trim_space)
  consider (empty) "?s = []"
    | (url) "?s \<noteq> []" "\<exists>p \<in> set target_schemes. has_prefix ?s p"
    | (range) n where "normalize_target s = Inl PortOutOfRange" "atoi ?s = Some n" "n < 1 \<or> 65535 < n"
    | (port) n where "normalize_target s = Inr (''http://localhost:'' @ format_nat n)"
    | (bare) "?s \<noteq> []" "normalize_target s = Inr (''http://'' @ ?s)"
    by (fastforce simp: normalize_target_def target_schemes_def Let_def split: option.splits if_splits)
  then show ?thesis
  proof cases
    case empty
    then show ?thesis by (simp add: normalize_target_def)
  next
    case url
    moreover have "normalize_target s = normalize_target ?s" by (simp add: normalize_target_def)
    ultimately show ?thesis using normalize_fixed [OF tr] by simp
  next
    case range
    then show ?thesis by auto
  next
    case (port n)
    have "trimmed (''http://'' @ ''localhost:'' @ format_nat n)"
      using trimmed_digits [of n] by (simp add: trimmed_def is_space_def code_def)
    moreover have "has_prefix (''http://'' @ ''localhost:'' @ format_nat n) ''http://''" by (rule has_prefix_append)
    ultimately show ?thesis
      using normalize_fixed [of "''http://localhost:'' @ format_nat n"] port by (auto simp: target_schemes_def)
  next
    case bare
    moreover have "has_prefix (''http://'' @ ?s) ''http://''" by (rule has_prefix_append)
    ultimately show ?thesis
      using normalize_fixed [of "''http://'' @ ?s"] trimmed_http [OF tr] by (auto simp: target_schemes_def)
  qed
qed

text \<open>
  A port number as the argument, with any blanks around it, makes a client that dials exactly that
  port of \<open>localhost\<close> without TLS, for every port.
\<close>

lemma port_argument_dials_localhost:
  assumes "trim_space arg = format_nat n" "1 \<le> n" "n \<le> 65535"
    and "axr_main b load e f = r" "\<not> fl_version f" "fl_env_file f = []" "fl_args f = [arg]"
    and "fl_token f = Some tok" "tok \<noteq> []" "fl_server f = Some srv" "srv \<noteq> []"
  shows "\<exists>pc label. r = Forwarding pc (''http://localhost:'' @ format_nat n) label \<and>
    dial_addr pc = ''localhost:'' @ format_nat n \<and> \<not> use_tls pc \<and>
    cc_token (pc_config pc) = tok \<and> cc_server_addr (pc_config pc) = srv \<and> pc_host_rewrite pc = fl_host_rewrite f"
proof -
  have "\<not> list_ex (has_prefix (format_nat n)) [''http://'', ''https://'', ''ws://'', ''wss://'']"
    using format_nat_not_url [of _ n] by (simp add: target_schemes_def)
  moreover have "atoi (format_nat n) = Some (int n)" using assms(3) by (intro atoi_format_nat) simp
  ultimately have nt: "normalize_target arg = Inr (''http://localhost:'' @ format_nat n)"
    using assms(1-3) by (simp add: normalize_target_def)
  have "plain_host ''localhost''" by code_simp
  moreover have "list_all is_digit (format_nat n)" using format_nat_digits by (auto simp: list_all_iff)
  ultimately have u: "url_parse (''http://localhost:'' @ format_nat n)
      = Some \<lparr>url_scheme = ''http'', url_host = ''localhost:'' @ format_nat n\<rparr>"
    using url_parse_plain [of "''localhost''" "format_nat n"] by (simp add: plain_host_port_def)
  have "r = Forwarding \<lparr>pc_config = \<lparr>cc_server_addr = srv, cc_token = tok, cc_service = svc, cc_min = 500000000, cc_max = 15 * second\<rparr>,
      pc_target = \<lparr>url_scheme = ''http'', url_host = ''localhost:'' @ format_nat n\<rparr>,
      pc_host_rewrite = fl_host_rewrite f, pc_dial_timeout = 5 * second\<rparr> (''http://localhost:'' @ format_nat n)
      (if svc = [] then ''(token-bound)'' else svc)"
    if "svc = (case fl_service f of Some v \<Rightarrow> v | None \<Rightarrow> getenv e ''AXR_SERVICE'')" for svc
    unfolding assms(4) [symmetric] that using assms(5-) nt u by (simp add: axr_main_def axr_settings_def Let_def new_proxy_def new_client_def)
  from this [OF refl] show ?thesis
    by (intro exI conjI, assumption) (simp_all add: dial_addr_def use_tls_def)
qed

text \<open>
  Where the settings of a running client come from: a flag if it was passed, else the ambient
  environment, else the file of variables (whose loader does not override what is set), and a client never
  starts without a token.
\<close>

lemma axr_precedence:
  assumes run: "axr_main b load e f = Forwarding pc target label"
    and load: "\<forall>p e0 e1. load p e0 = Inr e1 \<longrightarrow> e0 \<subseteq>\<^sub>m e1"
  shows "cc_token (pc_config pc) \<noteq> [] \<and>
    (\<exists>e1. (if fl_env_file f = [] then e1 = e else load (fl_env_file f) e = Inr e1) \<and>
      cc_token (pc_config pc) =
        (case fl_token f of Some v \<Rightarrow> v | None \<Rightarrow> (case e ''AXR_TOKEN'' of Some v \<Rightarrow> v | None \<Rightarrow> getenv e1 ''AXR_TOKEN'')) \<and>
      cc_service (pc_config pc) =
        (case fl_service f of Some v \<Rightarrow> v | None \<Rightarrow> (case e ''AXR_SERVICE'' of Some v \<Rightarrow> v | None \<Rightarrow> getenv e1 ''AXR_SERVICE'')))"
proof -
  obtain server token service where c: "axr_settings load e f = Inr (server, token, service)" "token \<noteq> []"
    "cc_token (pc_config pc) = token" "cc_service (pc_config pc) = service"
    using run by (rule axr_main_forwarding)
  obtain e1 where e1: "if fl_env_file f = [] then e1 = e else load (fl_env_file f) e = Inr e1"
    "token = (case fl_token f of Some v \<Rightarrow> v | None \<Rightarrow> getenv e1 ''AXR_TOKEN'')"
    "service = (case fl_service f of Some v \<Rightarrow> v | None \<Rightarrow> getenv e1 ''AXR_SERVICE'')"
    using c(1) by (rule axr_settings_value)
  have "e \<subseteq>\<^sub>m e1" using e1(1) load by (auto split: if_splits)
  then have known: "getenv e1 k = (case e k of Some v \<Rightarrow> v | None \<Rightarrow> getenv e1 k)" for k
    unfolding map_le_def getenv_def by (metis domI option.case_eq_if option.exhaust_sel option.simps(5))
  show ?thesis
    using c(2) e1 known [of "''AXR_TOKEN''"] known [of "''AXR_SERVICE''"] unfolding c(3,4) by metis
qed

subsection \<open>A concrete command line\<close>

definition demo_build :: build_info where
  "demo_build = \<lparr>bi_version = ''dev'', bi_build = ''0'', bi_commit = [], bi_goos = ''linux'', bi_goarch = ''amd64''\<rparr>"

definition demo_flags :: axr_flags where
  "demo_flags = \<lparr>fl_server = Some ''r:7000'', fl_token = Some ''tk'', fl_service = None, fl_host_rewrite = False,
     fl_env_file = [], fl_version = False, fl_args = ['' 80 '']\<rparr>"

lemma demo_port: "trim_space '' 80 '' = format_nat 80"
  by code_simp

lemma port_argument_dials_localhost_example:
  "\<exists>pc label. axr_main demo_build (\<lambda>_. Inr) Map.empty demo_flags
     = Forwarding pc (''http://localhost:'' @ format_nat 80) label \<and> dial_addr pc = ''localhost:'' @ format_nat 80"
  using port_argument_dials_localhost [OF demo_port _ _ refl, of demo_flags "''tk''" "''r:7000''" demo_build "\<lambda>_. Inr" Map.empty]
  by (force simp: demo_flags_def)

definition demo_load :: "string \<Rightarrow> environment \<Rightarrow> string + environment" where
  "demo_load p e0 = Inr ([''AXR_TOKEN'' \<mapsto> ''tk'', ''AXR_SERVICE'' \<mapsto> ''file''] ++ e0)"

definition demo_run :: axr_exit where
  "demo_run = axr_main demo_build demo_load [''AXR_SERVICE'' \<mapsto> ''foo'']
     (demo_flags\<lparr>fl_token := None, fl_env_file := ''.env'', fl_args := [''ws://h'']\<rparr>)"

lemma demo_run_forwards: "\<exists>pc target label. demo_run = Forwarding pc target label"
proof -
  have "case demo_run of Forwarding pc target label \<Rightarrow> True | _ \<Rightarrow> False" by code_simp
  then show ?thesis by (auto split: axr_exit.splits)
qed

lemma demo_run_settings:
  "\<exists>pc target label. demo_run = Forwarding pc target label \<and>
     cc_token (pc_config pc) = ''tk'' \<and> cc_service (pc_config pc) = ''foo''"
proof -
  obtain pc target label where r: "demo_run = Forwarding pc target label" using demo_run_forwards by blast
  have "\<forall>p e0 e1. demo_load p e0 = Inr e1 \<longrightarrow> e0 \<subseteq>\<^sub>m e1" by (auto simp: demo_load_def map_le_def)
  from axr_precedence [OF r [unfolded demo_run_def] this]
  have "cc_token (pc_config pc) = ''tk'' \<and> cc_service (pc_config pc) = ''foo''"
    by (auto simp: demo_flags_def demo_load_def getenv_def)
  with r show ?thesis by blast
qed

end
