(* ===== verification/Lifecycle.thy ===== *)
theory Lifecycle
  imports Control Admin Axr
begin

text \<open>
  The router process: \<open>New\<close>, \<open>Run\<close> and \<open>shutdown\<close> of \<open>server/server.go\<close> with the sockets they open and
  close, and \<open>main\<close> of \<open>cmd/ax-router\<close>. What listens, serves and fails around the server is a parameter.
\<close>

subsection \<open>The server\<close>

datatype endpoint = PublicHttp | PublicTls | ControlPort

text \<open>
  \<open>sv_open\<close> lists the sockets that are listening and \<open>sv_conns\<close> the connections of visitors, each with the socket it
  came in by; the two tracked lists are the fields \<open>listeners\<close> and
  \<open>httpServers\<close>, each HTTP server named by the socket it serves.
\<close>

record server =
  sv_config :: config
  sv_admin :: admin_handler
  sv_registry :: registry
  sv_tokens :: token_store
  sv_certs :: "cert_issuer option"
  sv_tls :: tls_setup
  sv_dns :: "dns_acme option"
  sv_listeners :: "endpoint list"
  sv_servers :: "endpoint list"
  sv_open :: "endpoint list"
  sv_conns :: "(endpoint \<times> nat) list"

definition new_server ::
  "nat \<Rightarrow> file_result \<Rightarrow> (string \<Rightarrow> string \<Rightarrow> string option) \<Rightarrow> string option \<Rightarrow> config \<Rightarrow> string + server" where
  "new_server now file load_key_pair no_dist c =
     (let reg = new_registry (reconnect_grace c);
          tokens = new_token_store now file (cfg_tokens c) (tokens_file c)
      in bind_err (build_tls load_key_pair c)
           (\<lambda>t. let dns = (case t of TlsDns d \<Rightarrow> Some d | _ \<Rightarrow> None)
                in case new_admin_handler no_dist now c of
                     Inl e \<Rightarrow> Inl e
                   | Inr ah \<Rightarrow>
                       Inr \<lparr>sv_config = c, sv_admin = ah, sv_registry = reg, sv_tokens = tokens,
                            sv_certs = new_cert_issuer (t = TlsAutocert) (dns \<noteq> None), sv_tls = t, sv_dns = dns,
                            sv_listeners = [], sv_servers = [], sv_open = [], sv_conns = []\<rparr>))"

definition track :: "endpoint \<Rightarrow> server \<Rightarrow> server" where
  "track l s = s\<lparr>sv_listeners := sv_listeners s @ [l]\<rparr>"

definition track_server :: "endpoint \<Rightarrow> server \<Rightarrow> server" where
  "track_server h s = s\<lparr>sv_servers := sv_servers s @ [h]\<rparr>"

text \<open>
  \<open>http.Server.Shutdown\<close> closes the sockets of a server and waits for its connections to become idle, for five
  seconds in all: \<open>outlasts\<close> tells which connections stay open, because they are busy until then or were taken
  over for an upgrade. The registry lives on meanwhile (\<open>draining\<close>): handshakes that were begun are finished, and
  the control port is still open. Then the listeners are closed and after them the sessions that there are; \<open>names\<close>
  lists their services.
\<close>

definition shutdown :: "(endpoint \<times> nat \<Rightarrow> bool) \<Rightarrow> (registry \<Rightarrow> registry) \<Rightarrow> string list \<Rightarrow> server \<Rightarrow> server" where
  "shutdown outlasts draining names s =
     (let servers = sv_servers s;
          listeners = sv_listeners s;
          s1 = s\<lparr>sv_servers := [], sv_listeners := []\<rparr>;
          s2 = s1\<lparr>sv_open := filter (\<lambda>l. l \<notin> set servers) (sv_open s1),
                  sv_conns := filter (\<lambda>c. fst c \<notin> set servers \<or> outlasts c) (sv_conns s1),
                  sv_registry := draining (sv_registry s1)\<rparr>;
          s3 = s2\<lparr>sv_open := filter (\<lambda>l. l \<notin> set listeners) (sv_open s2)\<rparr>
      in s3\<lparr>sv_registry := close_all names (sv_registry s3)\<rparr>)"

text \<open>
  What the goroutines of control connections still do to the registry: a handshake that ends well registers its
  session, \<open>watch\<close> closes the session of a lost connection, and a closed session is deregistered.
\<close>

datatype control_event = Served nat nat session | Lost nat | Ended nat nat

fun control_event_step :: "control_event \<Rightarrow> registry \<Rightarrow> registry" where
  "control_event_step (Served now sid x) r = register now sid (add_session sid x r)"
| "control_event_step (Lost sid) r = session_close sid r"
| "control_event_step (Ended now sid) r = control_closed now sid r"

subsection \<open>Run\<close>

datatype serve_error = ServerClosed | NetClosed | OtherError string

datatype run_event = RunCancelled | ServeEnded "serve_error option"

text \<open>
  What a run meets: the error of \<open>ManageAsync\<close>, the error of each \<open>Listen\<close>, what the clients do to the
  registry while the server is up, what ends it, the connections of visitors at that time and those that outlast the
  shutdown, what the clients do before the sessions are closed, the services that are connected then, and what
  the goroutines of control connections do afterwards, before \<open>Run\<close> has returned.
\<close>

record run_world =
  rw_manage :: "string list \<Rightarrow> string option"
  rw_listen :: "endpoint \<Rightarrow> string option"
  rw_meanwhile :: "registry \<Rightarrow> registry"
  rw_event :: run_event
  rw_conns :: "(endpoint \<times> nat) list"
  rw_outlasts :: "endpoint \<times> nat \<Rightarrow> bool"
  rw_draining :: "registry \<Rightarrow> registry"
  rw_names :: "string list"
  rw_late :: "control_event list"

datatype server_error = DnsStart string | Listen endpoint string | ServeFailed string

definition open_endpoint :: "run_world \<Rightarrow> endpoint \<Rightarrow> bool \<Rightarrow> server \<Rightarrow> server_error option \<times> server" where
  "open_endpoint w l http s =
     (case rw_listen w l of
        Some e \<Rightarrow> (Some (Listen l e), s)
      | None \<Rightarrow>
          (let s1 = track l (s\<lparr>sv_open := sv_open s @ [l]\<rparr>)
           in (None, if http then track_server l s1 else s1)))"

definition then_do :: "'e option \<times> 's \<Rightarrow> ('s \<Rightarrow> 'e option \<times> 's) \<Rightarrow> 'e option \<times> 's" where
  "then_do r f = (case r of (Some e, s) \<Rightarrow> (Some e, s) | (None, s) \<Rightarrow> f s)"

definition start_dns :: "run_world \<Rightarrow> server \<Rightarrow> server_error option \<times> server" where
  "start_dns w s =
     (case sv_dns s of
        None \<Rightarrow> (None, s)
      | Some d \<Rightarrow> (case dns_start (rw_manage w) d of (_, err, d1) \<Rightarrow> (map_option DnsStart err, s\<lparr>sv_dns := Some d1\<rparr>)))"

definition wants_tls :: "server \<Rightarrow> bool" where
  "wants_tls s \<longleftrightarrow> public_tls_addr (sv_config s) \<noteq> [] \<and> sv_tls s \<noteq> TlsNone"

definition start_listening :: "run_world \<Rightarrow> server \<Rightarrow> server_error option \<times> server" where
  "start_listening w s =
     then_do (start_dns w s) (\<lambda>s.
     then_do (open_endpoint w PublicHttp True s) (\<lambda>s.
     then_do (if wants_tls s then open_endpoint w PublicTls True s else (None, s))
       (open_endpoint w ControlPort False)))"

definition finish_run :: "run_world \<Rightarrow> server \<Rightarrow> server" where
  "finish_run w s =
     (let s1 = s\<lparr>sv_registry := rw_meanwhile w (sv_registry s), sv_conns := rw_conns w\<rparr>;
          s2 = shutdown (rw_outlasts w) (rw_draining w) (rw_names w) s1
      in s2\<lparr>sv_registry := fold control_event_step (rw_late w) (sv_registry s2)\<rparr>)"

definition run_server :: "run_world \<Rightarrow> server \<Rightarrow> server_error option \<times> server" where
  "run_server w s =
     then_do (start_listening w s)
       (\<lambda>s. (case rw_event w of
               RunCancelled \<Rightarrow> None
             | ServeEnded (Some (OtherError e)) \<Rightarrow> Some (ServeFailed e)
             | ServeEnded _ \<Rightarrow> None,
             finish_run w s))"

subsection \<open>The process\<close>

datatype router_exit =
    RouterVersion string
  | ConfigFatal config_error
  | InitFatal string
  | Ran bool string "server_error option" server \<comment> \<open>whether the warning about the file was logged, and the banner\<close>

definition router_main ::
  "build_info \<Rightarrow> bool \<Rightarrow> bool \<Rightarrow> (environment \<Rightarrow> string + environment) \<Rightarrow> environment \<Rightarrow> file_result \<Rightarrow>
   nat \<Rightarrow> (string \<Rightarrow> string \<Rightarrow> string option) \<Rightarrow> string option \<Rightarrow> run_world \<Rightarrow> router_exit" where
  "router_main b show_version env_exists load e file now load_key_pair no_dist w =
     (if show_version then RouterVersion (version_line ''ax-router'' b)
      else (let (warned, e1) =
                  (if env_exists then (case load e of Inl _ \<Rightarrow> (True, e) | Inr e1 \<Rightarrow> (False, e1)) else (False, e))
            in case load_config e1 file of
                 Inl err \<Rightarrow> ConfigFatal err
               | Inr c \<Rightarrow>
                   (case new_server now file load_key_pair no_dist c of
                      Inl err \<Rightarrow> InitFatal err
                    | Inr s \<Rightarrow> (case run_server w s of (err, s1) \<Rightarrow> Ran warned (version_line ''ax-router'' b) err s1))))"

subsection \<open>Closing\<close>

lemma close_once_idem [simp]: "close_once (close_once s) = close_once s"
  by (simp add: close_once_def)

lemma fold_session_close_objs:
  "objs (fold session_close xs r) x = (if x \<in> set xs then map_option close_once (objs r x) else objs r x)"
  by (induction xs arbitrary: r) (auto simp: objs_session_close option.map_comp comp_def)

lemma fold_session_close_sessions [simp]: "sessions (fold session_close xs r) = sessions r"
  by (induction xs arbitrary: r) simp_all

lemma close_all_closes:
  assumes "set names = dom (sessions r)"
  shows "sessions (close_all names r) svc = None"
    and "sessions r svc = Some sid \<Longrightarrow> objs r sid = Some s \<Longrightarrow>
      \<exists>s'. objs (close_all names r) sid = Some s' \<and> s_closed s'"
proof -
  show "sessions (close_all names r) svc = None" by (simp add: close_all_def close_all_locked_def)
  assume sid: "sessions r svc = Some sid" "objs r sid = Some s"
  then have "sid \<in> set (List.map_filter (sessions r) names)"
    using assms by (force simp: map_filter_def)
  with sid(2) show "\<exists>s'. objs (close_all names r) sid = Some s' \<and> s_closed s'"
    by (simp add: close_all_def close_all_locked_def fold_session_close_objs)
qed

lemma start_listening_open:
  assumes "start_listening w s = (err, s')" "sv_open s = []" "sv_listeners s = []"
  shows "sv_open s' = sv_listeners s'"
  using assms
  by (auto simp: start_listening_def then_do_def start_dns_def open_endpoint_def track_def track_server_def Let_def
      split: option.splits prod.splits if_splits)

lemma start_listening_ok:
  assumes "start_listening w s = (None, s')" "sv_open s = []"
  shows "sv_open s' = (if wants_tls s then [PublicHttp, PublicTls, ControlPort] else [PublicHttp, ControlPort])"
  using assms
  by (auto simp: start_listening_def then_do_def start_dns_def open_endpoint_def track_def track_server_def Let_def
      wants_tls_def split: option.splits prod.splits if_splits)

text \<open>A closed session stays closed, and only a handshake puts a session into the map.\<close>

definition closed_in :: "registry \<Rightarrow> nat \<Rightarrow> bool" where
  "closed_in r sid \<longleftrightarrow> (\<exists>x. objs r sid = Some x \<and> s_closed x)"

lemma unregister_objs: "objs (unregister now sid r) = objs r"
  by (auto simp: unregister_def unregister_locked_def split: option.splits prod.splits if_splits)

lemma unregister_sessions: "sessions (unregister now sid r) svc = Some k \<Longrightarrow> sessions r svc = Some k"
  by (auto simp: unregister_def unregister_locked_def split: option.splits prod.splits if_splits)

lemma closed_register: "closed_in r k \<Longrightarrow> closed_in (register now sid r) k"
  by (cases "objs (register_stats now sid r) sid")
    (auto simp: closed_in_def register_def register_locked_def objs_close_old objs_register_stats close_once_def)

lemma closed_event:
  "closed_in r k \<Longrightarrow> \<forall>now x. e \<noteq> Served now k x \<Longrightarrow> closed_in (control_event_step e r) k"
  by (cases e) (auto simp: closed_in_def add_session_def objs_session_close close_once_def control_closed_def unregister_objs
      intro!: closed_register [unfolded closed_in_def])

lemma closed_events:
  "closed_in r k \<Longrightarrow> \<forall>now x. Served now k x \<notin> set es \<Longrightarrow> closed_in (fold control_event_step es r) k"
proof (induction es arbitrary: r)
  case (Cons e es)
  then have "\<forall>now x. e \<noteq> Served now k x" by auto
  from Cons.IH [OF closed_event [OF Cons.prems(1) this]] Cons.prems(2) show ?case by simp
qed simp

lemma session_event:
  assumes "sessions (control_event_step e r) svc = Some k"
  shows "sessions r svc = Some k \<or> (\<exists>now x. e = Served now k x \<and> s_service x = svc)"
proof (cases e)
  case (Served now sid x)
  have "sessions (control_event_step e r) = (sessions r)(s_service x \<mapsto> sid)"
    using register_fields(1) [of "add_session sid x r" sid "s_service x" now] by (simp add: Served)
  with assms Served show ?thesis by (auto split: if_splits)
qed (use assms in \<open>auto simp: control_closed_def dest: unregister_sessions\<close>)

lemma session_events:
  "sessions (fold control_event_step es r) svc = Some k \<Longrightarrow>
   sessions r svc = Some k \<or> (\<exists>now x. Served now k x \<in> set es \<and> s_service x = svc)"
proof (induction es arbitrary: r)
  case (Cons e es)
  from Cons.IH [of "control_event_step e r"] Cons.prems session_event [of e r svc k] show ?case by auto
qed simp

subsection \<open>Properties\<close>

text \<open>
  C35. What a run leaves behind that had every listener up, whatever ends it: no socket is open; of the connections of
  visitors those that outlast the five seconds of the shutdown; every session that a service had when
  the sessions were closed is closed and stays so; and a service has a session again only if a handshake was
  finished after that. The run reports an error exactly when a listener failed with one that is not
  that of a closed listener.
\<close>

theorem run_cleans_up:
  assumes "start_listening w s = (None, s1)" "sv_open s = []" "sv_listeners s = []"
    and "r = rw_draining w (rw_meanwhile w (sv_registry s1))" "set (rw_names w) = dom (sessions r)"
    and "\<forall>now sid x. Served now sid x \<in> set (rw_late w) \<longrightarrow> objs r sid = None"
    and "\<forall>c \<in> set (rw_conns w). fst c \<in> set (sv_servers s1)" "run_server w s = (err, s')"
  shows "sv_open s' = [] \<and> sv_listeners s' = [] \<and> sv_servers s' = [] \<and> sv_conns s' = filter (rw_outlasts w) (rw_conns w) \<and>
    (err = None \<longleftrightarrow> (\<forall>e. rw_event w \<noteq> ServeEnded (Some (OtherError e)))) \<and>
    (\<forall>svc sid x. sessions r svc = Some sid \<longrightarrow> objs r sid = Some x \<longrightarrow>
      (\<exists>x'. objs (sv_registry s') sid = Some x' \<and> s_closed x')) \<and>
    (\<forall>svc sid. sessions (sv_registry s') svc = Some sid \<longrightarrow>
      (\<exists>now x. Served now sid x \<in> set (rw_late w) \<and> s_service x = svc))"
proof -
  have s': "s' = finish_run w s1" and err: "err = None \<longleftrightarrow> (\<forall>e. rw_event w \<noteq> ServeEnded (Some (OtherError e)))"
    using assms(1,8)
    by (auto simp: run_server_def then_do_def split: run_event.splits option.splits serve_error.splits)
  have "sv_open s1 = sv_listeners s1" using start_listening_open [OF assms(1-3)] .
  moreover have "filter (\<lambda>c. fst c \<notin> set (sv_servers s1) \<or> rw_outlasts w c) (rw_conns w) = filter (rw_outlasts w) (rw_conns w)"
    using assms(7) by (intro filter_cong) auto
  ultimately have f: "sv_open s' = [] \<and> sv_listeners s' = [] \<and> sv_servers s' = []" "sv_conns s' = filter (rw_outlasts w) (rw_conns w)"
    and reg: "sv_registry s' = fold control_event_step (rw_late w) (close_all (rw_names w) r)"
    unfolding s' assms(4) by (auto simp: finish_run_def shutdown_def Let_def filter_empty_conv)
  have "closed_in (sv_registry s') sid" if x: "sessions r svc = Some sid" "objs r sid = Some x" for svc sid x
  proof -
    have "closed_in (close_all (rw_names w) r) sid" using close_all_closes(2) [OF assms(5) x] by (simp add: closed_in_def)
    moreover have "\<forall>now y. Served now sid y \<notin> set (rw_late w)" using assms(6) x(2) by (metis option.distinct(1))
    ultimately show ?thesis unfolding reg by (rule closed_events)
  qed
  moreover have "\<exists>now x. Served now sid x \<in> set (rw_late w) \<and> s_service x = svc" if "sessions (sv_registry s') svc = Some sid" for svc sid
    using session_events [OF that [unfolded reg]] close_all_closes(1) [OF assms(5)] by auto
  ultimately show ?thesis using f err by (auto simp: closed_in_def)
qed

text \<open>
  A handshake that is finished after the sessions were closed leaves a session that nothing closes when \<open>Run\<close> has
  returned.
\<close>

lemma late_handshake_survives:
  assumes "start_listening w s = (None, s1)" "rw_late w = [Served now sid x]" "\<not> s_closed x"
    and "run_server w s = (err, s')"
  shows "sessions (sv_registry s') (s_service x) = Some sid \<and>
    (\<exists>x'. objs (sv_registry s') sid = Some x' \<and> \<not> s_closed x')"
proof -
  have s': "s' = finish_run w s1" using assms(1,4) by (auto simp: run_server_def then_do_def)
  obtain r where r: "sv_registry s' = register now sid (add_session sid x r)"
    unfolding s' by (simp add: finish_run_def Let_def assms(2))
  have own: "owner (add_session sid x r) sid = Some (s_service x)" by simp
  moreover have "\<exists>x'. objs (sv_registry s') sid = Some x' \<and> \<not> s_closed x'"
    using assms(3) by (simp add: r register_def register_locked_def objs_close_old objs_register_stats add_session_def)
  ultimately show ?thesis by (simp add: r register_fields(1))
qed

text \<open>
  A listener that cannot be opened ends \<open>Run\<close> with its error before anything is shut down: if the control
  port is taken, the public listener that is already serving stays open.
\<close>

lemma failed_start_leaks:
  assumes "sv_dns s = None" "sv_open s = []" "\<not> wants_tls s"
    and "rw_listen w PublicHttp = None" "rw_listen w ControlPort = Some e"
  shows "\<exists>s'. run_server w s = (Some (Listen ControlPort e), s') \<and> sv_open s' = [PublicHttp]"
  using assms
  by (auto simp: run_server_def start_listening_def then_do_def start_dns_def open_endpoint_def track_def track_server_def
      wants_tls_def Let_def)

subsection \<open>A concrete run\<close>

definition demo_server :: server where
  "demo_server = projr (new_server 0 (Inl []) (\<lambda>_ _. None) None demo_config)"

definition demo_run_world :: run_world where
  "demo_run_world =
     \<lparr>rw_manage = (\<lambda>_. None), rw_listen = (\<lambda>_. None),
      rw_meanwhile = (\<lambda>r. register 1 0 (add_session 0 (new_session ''foo'' ''tk'' ''peer'') r)),
      rw_event = RunCancelled, rw_conns = [(PublicHttp, 0), (PublicHttp, 1)], rw_outlasts = (\<lambda>c. snd c = 1),
      rw_draining = id, rw_names = [''foo''], rw_late = [Ended 3 0, Served 4 1 (new_session ''bar'' ''tk'' ''peer'')]\<rparr>"

lemma demo_server_tls: "build_tls (\<lambda>_ _. None) demo_config = Inr TlsAutocert"
  by (simp add: build_tls_def demo_config_def demo_fields Let_def tls_off_def tls_file_def tls_autocert_def tls_dns_def)

lemma demo_server_fields:
  "sv_open demo_server = []" "sv_listeners demo_server = []" "sv_dns demo_server = None" "sv_tls demo_server = TlsAutocert"
  "sv_registry demo_server = new_registry (reconnect_grace demo_config)"
  by (simp_all add: demo_server_def new_server_def new_admin_handler_def Let_def demo_server_tls)

lemma demo_server_start:
  "\<exists>s1. start_listening demo_run_world demo_server = (None, s1) \<and> sv_registry s1 = sv_registry demo_server \<and>
     PublicHttp \<in> set (sv_servers s1)"
  by (simp add: start_listening_def then_do_def start_dns_def open_endpoint_def track_def track_server_def
      wants_tls_def Let_def demo_server_fields demo_run_world_def)

lemma demo_meanwhile:
  "sessions (rw_meanwhile demo_run_world (new_registry g)) = [''foo'' \<mapsto> 0]" (is ?s)
  "objs (rw_meanwhile demo_run_world (new_registry g)) (Suc 0) = None" (is ?o)
proof -
  have "owner (add_session 0 (new_session ''foo'' ''tk'' ''peer'') (new_registry g)) 0 = Some ''foo''"
    by (simp add: new_session_def)
  from register_fields(1) [OF this] show ?s by (simp add: demo_run_world_def new_registry_def)
  show ?o
    by (simp add: demo_run_world_def register_def register_locked_def objs_close_old objs_register_stats add_session_def
        new_registry_def new_session_def)
qed

theorem run_cleans_up_witness:
  "sv_open (snd (run_server demo_run_world demo_server)) = [] \<and>
   sv_conns (snd (run_server demo_run_world demo_server)) = [(PublicHttp, 1)] \<and>
   sessions (sv_registry (snd (run_server demo_run_world demo_server))) ''foo'' = None"
proof -
  obtain s1 where s1: "start_listening demo_run_world demo_server = (None, s1)" "sv_registry s1 = sv_registry demo_server"
      "PublicHttp \<in> set (sv_servers s1)"
    using demo_server_start by blast
  let ?r = "rw_draining demo_run_world (rw_meanwhile demo_run_world (sv_registry s1))"
  have d: "rw_draining demo_run_world = id" "rw_names demo_run_world = [''foo'']" "rw_conns demo_run_world = [(PublicHttp, 0), (PublicHttp, 1)]"
    "rw_outlasts demo_run_world = (\<lambda>c. snd c = 1)" "rw_late demo_run_world = [Ended 3 0, Served 4 1 (new_session ''bar'' ''tk'' ''peer'')]"
    by (simp_all add: demo_run_world_def)
  have "set (rw_names demo_run_world) = dom (sessions ?r)"
    "\<forall>now sid x. Served now sid x \<in> set (rw_late demo_run_world) \<longrightarrow> objs ?r sid = None"
    "\<forall>c \<in> set (rw_conns demo_run_world). fst c \<in> set (sv_servers s1)"
    using s1(3) by (auto simp: d s1(2) demo_server_fields demo_meanwhile)
  note clean = run_cleans_up [OF s1(1) demo_server_fields(1,2) refl this prod.collapse [symmetric]]
  have "s_service (new_session ''bar'' ''tk'' ''peer'') \<noteq> ''foo''" by (simp add: new_session_def)
  then have "sessions (sv_registry (snd (run_server demo_run_world demo_server))) ''foo'' = None"
    using clean by (cases "sessions (sv_registry (snd (run_server demo_run_world demo_server))) ''foo''") (auto simp: d)
  with clean show ?thesis by (simp add: d)
qed

end
