(* ===== verification/Flags.thy ===== *)
theory Flags
  imports GoStrings
begin

text \<open>
  What the two commands use of the package \<open>flag\<close>: reading the arguments (\<open>flag.Parse\<close>) against a table of
  flags, with the errors it ends the process on.
\<close>

subsection \<open>Reading arguments\<close>

datatype flag_kind = BoolFlag | StringFlag

datatype flag_error =
    BadSyntax string
  | NotDefined string
  | BadBoolean string string
  | NeedsArgument string
  | HelpWanted

definition parse_bool :: "string \<Rightarrow> bool option" where
  "parse_bool s =
     (if s \<in> set [''1'', ''t'', ''T'', ''true'', ''TRUE'', ''True''] then Some True
      else if s \<in> set [''0'', ''f'', ''F'', ''false'', ''FALSE'', ''False''] then Some False
      else None)"

text \<open>A name and, after the first equals sign, its value.\<close>

definition split_value :: "string \<Rightarrow> string \<times> string option" where
  "split_value s =
     (case index_byte s CHR ''='' of None \<Rightarrow> (s, None) | Some i \<Rightarrow> (take i s, Some (drop (Suc i) s)))"

datatype setting = SetBool bool | SetString string

text \<open>The settings in the order in which they were made, and the arguments that are left.\<close>

definition add_setting ::
  "string \<times> setting \<Rightarrow> flag_error + (string \<times> setting) list \<times> string list \<Rightarrow>
   flag_error + (string \<times> setting) list \<times> string list" where
  "add_setting x res = (case res of Inl e \<Rightarrow> Inl e | Inr (xs, rest) \<Rightarrow> Inr (x # xs, rest))"

fun parse_flags ::
  "(string \<Rightarrow> flag_kind option) \<Rightarrow> string list \<Rightarrow> flag_error + (string \<times> setting) list \<times> string list" where
  "parse_flags kinds [] = Inr ([], [])"
| "parse_flags kinds (s # args) =
     (if length s < 2 \<or> hd s \<noteq> CHR ''-'' then Inr ([], s # args)
      else if s = ''--'' then Inr ([], args)
      else (let name = (if hd (tl s) = CHR ''-'' then drop 2 s else drop 1 s)
            in if name = [] \<or> hd name = CHR ''-'' \<or> hd name = CHR ''='' then Inl (BadSyntax s)
               else (case split_value name of
                       (n, v) \<Rightarrow>
                         (case kinds n of
                            None \<Rightarrow> Inl (if n = ''help'' \<or> n = ''h'' then HelpWanted else NotDefined n)
                          | Some BoolFlag \<Rightarrow>
                              (case v of
                                 None \<Rightarrow> add_setting (n, SetBool True) (parse_flags kinds args)
                               | Some x \<Rightarrow>
                                   (case parse_bool x of
                                      None \<Rightarrow> Inl (BadBoolean x n)
                                    | Some b \<Rightarrow> add_setting (n, SetBool b) (parse_flags kinds args)))
                          | Some StringFlag \<Rightarrow>
                              (case v of
                                 Some x \<Rightarrow> add_setting (n, SetString x) (parse_flags kinds args)
                               | None \<Rightarrow>
                                   (case args of
                                      [] \<Rightarrow> Inl (NeedsArgument n)
                                    | x # rest \<Rightarrow> add_setting (n, SetString x) (parse_flags kinds rest)))))))"

text \<open>The value of a flag: that of its last setting.\<close>

definition last_string :: "string \<Rightarrow> (string \<times> setting) list \<Rightarrow> string option" where
  "last_string n xs = (case map_of (rev xs) n of Some (SetString v) \<Rightarrow> Some v | _ \<Rightarrow> None)"

definition last_bool :: "string \<Rightarrow> (string \<times> setting) list \<Rightarrow> bool" where
  "last_bool n xs = (case map_of (rev xs) n of Some (SetBool b) \<Rightarrow> b | _ \<Rightarrow> False)"

subsection \<open>Reading what was meant\<close>

text \<open>A flag with its value in one argument.\<close>

definition render_setting :: "string \<times> setting \<Rightarrow> string" where
  "render_setting x =
     CHR ''-'' # fst x @ CHR ''='' # (case snd x of SetString v \<Rightarrow> v | SetBool b \<Rightarrow> if b then ''true'' else ''false'')"

definition known_setting :: "(string \<Rightarrow> flag_kind option) \<Rightarrow> string \<times> setting \<Rightarrow> bool" where
  "known_setting kinds x \<longleftrightarrow>
     fst x \<noteq> [] \<and> hd (fst x) \<noteq> CHR ''-'' \<and> CHR ''='' \<notin> set (fst x) \<and>
     kinds (fst x) = Some (case snd x of SetString _ \<Rightarrow> StringFlag | SetBool _ \<Rightarrow> BoolFlag)"

lemma split_value_first: "CHR ''='' \<notin> set n \<Longrightarrow> split_value (n @ CHR ''='' # v) = (n, Some v)"
  using index_byte_first [of "CHR ''=''" n v] by (simp add: split_value_def)

lemma parse_rendered_setting:
  assumes "known_setting kinds x"
  shows "parse_flags kinds (render_setting x # args) = add_setting x (parse_flags kinds args)"
proof -
  obtain a n v where x: "x = (a # n, v)" "a \<noteq> CHR ''-''" "a \<noteq> CHR ''=''" "CHR ''='' \<notin> set (a # n)"
    using assms by (cases x; cases "fst x") (auto simp: known_setting_def)
  let ?text = "case v of SetString v \<Rightarrow> v | SetBool b \<Rightarrow> if b then ''true'' else ''false''"
  have r: "render_setting x = CHR ''-'' # a # n @ CHR ''='' # ?text" by (simp add: render_setting_def x(1))
  have s: "split_value (a # n @ CHR ''='' # ?text) = (a # n, Some ?text)" using split_value_first [OF x(4)] by simp
  have k: "kinds (a # n) = Some (case v of SetString _ \<Rightarrow> StringFlag | SetBool _ \<Rightarrow> BoolFlag)"
    using assms by (simp add: known_setting_def x(1))
  show ?thesis
    unfolding r parse_flags.simps using x(2,3) s k by (cases v) (simp_all add: x(1) parse_bool_def)
qed

text \<open>Any settings before the first argument that is no flag are read as they were meant.\<close>

lemma parse_rendered_settings:
  assumes "list_all (known_setting kinds) xs" "rest = [] \<or> length (hd rest) < 2 \<or> hd (hd rest) \<noteq> CHR ''-''"
  shows "parse_flags kinds (map render_setting xs @ rest) = Inr (xs, rest)"
  using assms(1)
proof (induction xs)
  case Nil
  with assms(2) show ?case by (cases rest) auto
next
  case (Cons x xs)
  then show ?case by (simp add: parse_rendered_setting add_setting_def del: parse_flags.simps)
qed

end
