(* ===== verification/Quote.thy ===== *)
theory Quote
  imports JsonString
begin

text \<open>
  The verb \<open>%q\<close> of \<open>fmt\<close> on strings (\<open>strconv.Quote\<close>), which the command line, the error texts and one of the
  examples use. The table of printable characters above Latin-1 is a parameter.
\<close>

subsection \<open>Quoting\<close>

text \<open>The code point of the bytes of one rune.\<close>

definition rune_value :: "string \<Rightarrow> nat" where
  "rune_value r =
     (case map code r of
        [a, b] \<Rightarrow> (a - 192) * 64 + (b - 128)
      | [a, b, c] \<Rightarrow> ((a - 224) * 64 + (b - 128)) * 64 + (c - 128)
      | [a, b, c, d] \<Rightarrow> (((a - 240) * 64 + (b - 128)) * 64 + (c - 128)) * 64 + (d - 128)
      | (a # _) \<Rightarrow> a
      | [] \<Rightarrow> 0)"

definition byte_escape :: "char \<Rightarrow> string" where
  "byte_escape c = [bslash, CHR ''x'', digit_char (code c div 16), digit_char (code c mod 16)]"

definition quote_ascii :: "char \<Rightarrow> string" where
  "quote_ascii c =
     (let n = code c
      in if c = dquote \<or> c = bslash then [bslash, c]
         else if 32 \<le> n \<and> n < 127 then [c]
         else if n = 7 then [bslash, CHR ''a''] else if n = 8 then [bslash, CHR ''b''] else if n = 12 then [bslash, CHR ''f'']
         else if n = 10 then [bslash, CHR ''n''] else if n = 13 then [bslash, CHR ''r''] else if n = 9 then [bslash, CHR ''t'']
         else if n = 11 then [bslash, CHR ''v'']
         else byte_escape c)"

definition quote_rune :: "(nat \<Rightarrow> bool) \<Rightarrow> string \<Rightarrow> string" where
  "quote_rune printable r =
     (let n = rune_value r
      in if (if n \<le> 255 then 161 \<le> n \<and> n \<noteq> 173 else printable n) then r
         else if n < 65536 then bslash # CHR ''u'' # hex4 n
         else bslash # CHR ''U'' # hex4 (n div 65536) @ hex4 (n mod 65536))"

function quote_bytes :: "(nat \<Rightarrow> bool) \<Rightarrow> string \<Rightarrow> string" where
  "quote_bytes printable [] = []"
| "quote_bytes printable (a # s) =
     (if code a < 128 then quote_ascii a @ quote_bytes printable s
      else if rune_len (a # s) = 0 then byte_escape a @ quote_bytes printable s
      else quote_rune printable (take (rune_len (a # s)) (a # s)) @ quote_bytes printable (drop (rune_len (a # s) - 1) s))"
  by pat_completeness auto
termination
  by (relation "measure (\<lambda>(_, s). length s)") auto

definition go_quote :: "(nat \<Rightarrow> bool) \<Rightarrow> string \<Rightarrow> string" where
  "go_quote printable s = dquote # quote_bytes printable s @ [dquote]"

subsection \<open>What quoting promises\<close>

text \<open>No control byte of the text survives, so a quoted text stays on its line.\<close>

definition visible :: "char \<Rightarrow> bool" where
  "visible c \<longleftrightarrow> 32 \<le> code c \<and> code c \<noteq> 127"

lemma visible_letters:
  "visible CHR ''x''" "visible CHR ''u''" "visible CHR ''U''" "visible CHR ''a''" "visible CHR ''b''" "visible CHR ''f''"
  "visible CHR ''n''" "visible CHR ''r''" "visible CHR ''t''" "visible CHR ''v''" "visible bslash" "visible dquote"
  by (simp_all add: visible_def code_def bslash_def dquote_def)

lemma visible_digit: "visible (digit_char d)" if "d < 16"
  using that by (auto simp: visible_def digit_char_def code_char_of)

lemma visible_hex4: "n < 65536 \<Longrightarrow> list_all visible (hex4 n)"
  by (auto simp: hex4_def intro!: visible_digit)

lemma visible_byte_escape: "list_all visible (byte_escape c)"
proof -
  have "code c div 16 < 16" by (rule less_mult_imp_div_less) (use code_less [of c] in simp)
  then show ?thesis by (simp add: byte_escape_def visible_digit visible_letters)
qed

lemma visible_quote_ascii: "list_all visible (quote_ascii c)"
proof -
  have "visible c" if "32 \<le> code c \<and> code c < 127" using that by (simp add: visible_def)
  then show ?thesis using visible_byte_escape [of c] visible_letters by (auto simp: quote_ascii_def Let_def)
qed

lemma rune_bytes:
  assumes "128 \<le> code a" "rune_len (a # s) = n" "n \<noteq> 0"
  shows "\<forall>c \<in> set (take n (a # s)). 128 \<le> code c" and "rune_value (take n (a # s)) < 65536 * 65536"
proof -
  show "\<forall>c \<in> set (take n (a # s)). 128 \<le> code c"
    using assms by (auto simp: is_cont_def second_ok_def split: list.splits if_splits)
  have b: "code c < 256" for c by simp
  show "rune_value (take n (a # s)) < 65536 * 65536"
    using assms b by (auto simp: rune_value_def is_cont_def second_ok_def split: list.splits if_splits)
qed

lemma visible_quote_bytes: "list_all visible (quote_bytes printable s)"
proof (induction printable s rule: quote_bytes.induct)
  case (2 printable a s)
  show ?case
  proof (cases "code a < 128 \<or> rune_len (a # s) = 0")
    case True
    with 2 visible_quote_ascii visible_byte_escape show ?thesis by (subst quote_bytes.simps) (auto simp del: rune_len.simps)
  next
    case False
    then have a: "128 \<le> code a" "rune_len (a # s) \<noteq> 0" by (simp_all del: rune_len.simps)
    let ?r = "take (rune_len (a # s)) (a # s)"
    have "list_all visible ?r" using rune_bytes(1) [OF a(1) refl a(2)] by (fastforce simp: list_all_iff visible_def)
    moreover have "rune_value ?r div 65536 < 65536" by (rule less_mult_imp_div_less) (rule rune_bytes(2) [OF a(1) refl a(2)])
    then have "list_all visible (hex4 (rune_value ?r div 65536))" "list_all visible (hex4 (rune_value ?r mod 65536))"
      by (simp_all add: visible_hex4)
    ultimately have "list_all visible (quote_rune printable ?r)"
      using visible_hex4 [of "rune_value ?r"] visible_letters
      by (simp add: quote_rune_def Let_def)
    with 2(3) False show ?thesis by (subst quote_bytes.simps) (simp del: rune_len.simps)
  qed
qed simp

text \<open>A plain text is quoted as it is.\<close>

definition plain_text :: "string \<Rightarrow> bool" where
  "plain_text s \<longleftrightarrow> list_all (\<lambda>c. 32 \<le> code c \<and> code c < 127 \<and> c \<noteq> dquote \<and> c \<noteq> bslash) s"

lemma quote_bytes_plain: "plain_text s \<Longrightarrow> quote_bytes printable s = s"
  by (induction s) (simp_all add: plain_text_def quote_ascii_def Let_def)

end
