(* ===== verification/Cli.thy ===== *)
theory Cli
  imports Axr Lifecycle Flags Quote
begin

text \<open>
  The command lines of \<open>axr\<close> (\<open>tools/axr/main.go\<close>) and \<open>ax-router\<close> (\<open>cmd/ax-router/main.go\<close>), from their
  arguments to what the process does, with the usage text that \<open>flag.PrintDefaults\<close> completes.
\<close>

subsection \<open>Flags and their defaults\<close>

text \<open>
  One flag of the usage text: the default is shown if it is not the zero value of its kind. Boolean flags of the
  two programs are all off by default.
\<close>

definition print_flag :: "(nat \<Rightarrow> bool) \<Rightarrow> string \<times> flag_kind \<times> string \<times> string \<Rightarrow> string" where
  "print_flag printable f =
     (case f of (name, kind, help, def) \<Rightarrow>
        ''  -'' @ name @ (if kind = StringFlag then '' string'' else []) @ [CHR 0x0A] @ ''    '' @ [CHR 0x09] @ help @
        (if kind = StringFlag \<and> def \<noteq> [] then '' (default '' @ go_quote printable def @ '')'' else []) @ [CHR 0x0A])"

text \<open>The flags of \<open>axr\<close> by name, which is the order in which they are shown.\<close>

definition axr_flag_list :: "environment \<Rightarrow> (string \<times> flag_kind \<times> string \<times> string) list" where
  "axr_flag_list e =
     [(''env'', StringFlag, ''load this .env file before reading env vars (optional)'', []),
      (''host-rewrite'', BoolFlag, ''rewrite Host: header to the target's host (default: keep the public Host)'', []),
      (''server'', StringFlag, ''router control address host:port (AXR_SERVER)'', env_or e ''AXR_SERVER'' ''localhost:7000''),
      (''service'', StringFlag, ''desired service name; required for wildcard tokens (AXR_SERVICE)'', getenv e ''AXR_SERVICE''),
      (''token'', StringFlag, ''auth token (AXR_TOKEN)'', getenv e ''AXR_TOKEN''),
      (''version'', BoolFlag, ''print version and exit'', [])]"

definition router_flag_list :: "(string \<times> flag_kind \<times> string \<times> string) list" where
  "router_flag_list =
     [(''env'', StringFlag, ''path to .env file (optional)'', ''.env''),
      (''version'', BoolFlag, ''print version + build info and exit'', [])]"

definition kinds_of :: "(string \<times> flag_kind \<times> string \<times> string) list \<Rightarrow> string \<Rightarrow> flag_kind option" where
  "kinds_of fs n = map_option fst (map_of fs n)"

subsection \<open>Usage\<close>

text \<open>The dash of the first line is the three bytes of an em dash.\<close>

definition axr_usage :: "(nat \<Rightarrow> bool) \<Rightarrow> environment \<Rightarrow> string" where
  "axr_usage printable e =
     text_lines
       [''axr '' @ [CHR 0xE2, CHR 0x80, CHR 0x94] @ '' expose a local service through an ax-router2 server'',
        [],
        ''Usage:'',
        ''  axr [flags] <target>'',
        [],
        ''<target>:'',
        ''  8080                       short for http://localhost:8080'',
        ''  localhost:9000             short for http://localhost:9000'',
        ''  http://localhost:8080      explicit HTTP target'',
        ''  ws://localhost:8080        explicit WebSocket target'',
        [],
        ''Flags:''] @
     concat (map (print_flag printable) (axr_flag_list e)) @
     text_lines
       [[],
        ''Examples:'',
        ''  axr -token=secret -service=foo 8080'',
        ''  axr -server=router.example.com:7000 -token=secret -service=api localhost:9000'',
        ''  AXR_SERVER=router.com:7000 AXR_TOKEN=secret AXR_SERVICE=foo axr 8080'']"

definition router_usage :: "(nat \<Rightarrow> bool) \<Rightarrow> string \<Rightarrow> string" where
  "router_usage printable prog =
     ''Usage of '' @ prog @ '':'' @ [CHR 0x0A] @ concat (map (print_flag printable) router_flag_list)"

definition flag_error_line :: "(nat \<Rightarrow> bool) \<Rightarrow> flag_error \<Rightarrow> string" where
  "flag_error_line printable err =
     (case err of
        BadSyntax s \<Rightarrow> ''bad flag syntax: '' @ s @ [CHR 0x0A]
      | NotDefined n \<Rightarrow> ''flag provided but not defined: -'' @ n @ [CHR 0x0A]
      | BadBoolean v n \<Rightarrow> ''invalid boolean value '' @ go_quote printable v @ '' for -'' @ n @ '': parse error'' @ [CHR 0x0A]
      | NeedsArgument n \<Rightarrow> ''flag needs an argument: -'' @ n @ [CHR 0x0A]
      | HelpWanted \<Rightarrow> [])"

subsection \<open>The commands\<close>

text \<open>The process either shows its usage and exits with a status, or runs its main part.\<close>

datatype 'a command_end = UsageShown nat string | CommandRan 'a

definition flag_exit :: "flag_error \<Rightarrow> nat" where
  "flag_exit err = (if err = HelpWanted then 0 else 2)"

definition axr_flags_of :: "(string \<times> setting) list \<Rightarrow> string list \<Rightarrow> axr_flags" where
  "axr_flags_of xs rest =
     \<lparr>fl_server = last_string ''server'' xs, fl_token = last_string ''token'' xs, fl_service = last_string ''service'' xs,
      fl_host_rewrite = last_bool ''host-rewrite'' xs,
      fl_env_file = (case last_string ''env'' xs of Some v \<Rightarrow> v | None \<Rightarrow> []),
      fl_version = last_bool ''version'' xs, fl_args = rest\<rparr>"

definition axr_command ::
  "(nat \<Rightarrow> bool) \<Rightarrow> build_info \<Rightarrow> (string \<Rightarrow> environment \<Rightarrow> string + environment) \<Rightarrow> environment \<Rightarrow> string list \<Rightarrow>
   axr_exit command_end" where
  "axr_command printable b load e args =
     (case parse_flags (kinds_of (axr_flag_list e)) args of
        Inl err \<Rightarrow> UsageShown (flag_exit err) (flag_error_line printable err @ axr_usage printable e)
      | Inr (xs, rest) \<Rightarrow>
          (case axr_main b load e (axr_flags_of xs rest) of
             UsageError \<Rightarrow>
               UsageShown 2 (''axr: exactly one target argument is required'' @ [CHR 0x0A] @ axr_usage printable e)
           | r \<Rightarrow> CommandRan r))"

definition router_command ::
  "(nat \<Rightarrow> bool) \<Rightarrow> build_info \<Rightarrow> string \<Rightarrow> (string \<Rightarrow> bool) \<Rightarrow> (string \<Rightarrow> environment \<Rightarrow> string + environment) \<Rightarrow>
   environment \<Rightarrow> file_result \<Rightarrow> nat \<Rightarrow> (string \<Rightarrow> string \<Rightarrow> string option) \<Rightarrow> string option \<Rightarrow> run_world \<Rightarrow> string list \<Rightarrow>
   router_exit command_end" where
  "router_command printable b prog exists load e file now load_key_pair no_dist w args =
     (case parse_flags (kinds_of router_flag_list) args of
        Inl err \<Rightarrow> UsageShown (flag_exit err) (flag_error_line printable err @ router_usage printable prog)
      | Inr (xs, _) \<Rightarrow>
          (let path = (case last_string ''env'' xs of Some v \<Rightarrow> v | None \<Rightarrow> ''.env'')
           in CommandRan (router_main b (last_bool ''version'' xs) (exists path) (load path) e file now load_key_pair no_dist w)))"

subsection \<open>Properties\<close>

lemma kinds_of_axr: "kinds_of (axr_flag_list e) = kinds_of (axr_flag_list (\<lambda>_. None))"
  by (rule ext) (simp add: kinds_of_def axr_flag_list_def)

lemma no_flag_first: "rest = [] \<or> length (hd rest) < 2 \<or> hd (hd rest) \<noteq> CHR ''-'' \<Longrightarrow> list_all (known_setting (kinds_of (axr_flag_list e))) xs \<Longrightarrow>
    axr_command printable b load e (map render_setting xs @ rest) =
     (case axr_main b load e (axr_flags_of xs rest) of
        UsageError \<Rightarrow> UsageShown 2 (''axr: exactly one target argument is required'' @ [CHR 0x0A] @ axr_usage printable e)
      | r \<Rightarrow> CommandRan r)"
  by (simp add: axr_command_def parse_rendered_settings)

text \<open>
  C32. Where the settings of a running client come from, from the command line on: the last \<open>-token\<close> or \<open>-service\<close> among
  the arguments wins, else the ambient environment, else the file of the last \<open>-env\<close>, whose loader does not
  override what is set; and a client never starts without a token.
\<close>

theorem axr_command_precedence:
  assumes "list_all (known_setting (kinds_of (axr_flag_list e))) xs" "length arg < 2 \<or> hd arg \<noteq> CHR ''-''"
    and run: "axr_command printable b load e (map render_setting xs @ [arg]) = CommandRan (Forwarding pc target label)"
    and load: "\<forall>p e0 e1. load p e0 = Inr e1 \<longrightarrow> e0 \<subseteq>\<^sub>m e1"
  shows "cc_token (pc_config pc) \<noteq> [] \<and>
    (\<exists>e1. (case last_string ''env'' xs of None \<Rightarrow> e1 = e | Some p \<Rightarrow> if p = [] then e1 = e else load p e = Inr e1) \<and>
      cc_token (pc_config pc) =
        (case last_string ''token'' xs of Some v \<Rightarrow> v
         | None \<Rightarrow> (case e ''AXR_TOKEN'' of Some v \<Rightarrow> v | None \<Rightarrow> getenv e1 ''AXR_TOKEN'')) \<and>
      cc_service (pc_config pc) =
        (case last_string ''service'' xs of Some v \<Rightarrow> v
         | None \<Rightarrow> (case e ''AXR_SERVICE'' of Some v \<Rightarrow> v | None \<Rightarrow> getenv e1 ''AXR_SERVICE'')))"
proof -
  have "axr_main b load e (axr_flags_of xs [arg]) = Forwarding pc target label"
    using run assms(1,2) by (simp add: no_flag_first split: axr_exit.splits)
  from axr_precedence [OF this load] show ?thesis
    by (cases "last_string ''env'' xs") (auto simp: axr_flags_of_def)
qed

text \<open>
  C34. The usage of \<open>axr\<close> tells the token: whenever it is shown, for help, for a bad flag or for a missing target, the token of the
  environment stands in it as the default of its flag.
\<close>

theorem usage_shows_token:
  assumes "axr_command printable b load e args = UsageShown status shown" "getenv e ''AXR_TOKEN'' = token" "plain_text token" "token \<noteq> []"
  shows "\<exists>before after. shown = before @ ''auth token (AXR_TOKEN) (default '' @ [dquote] @ token @ [dquote] @ after"
proof -
  have flag: "print_flag printable (''token'', StringFlag, ''auth token (AXR_TOKEN)'', token) =
      (''  -token string'' @ [CHR 0x0A] @ ''    '' @ [CHR 0x09]) @ ''auth token (AXR_TOKEN) (default '' @ [dquote] @ token @ [dquote] @ '')'' @ [CHR 0x0A]"
    using assms(3,4) by (simp add: print_flag_def go_quote_def quote_bytes_plain)
  obtain l r where fs: "axr_flag_list e = l @ (''token'', StringFlag, ''auth token (AXR_TOKEN)'', token) # r"
    using that [of "take 4 (axr_flag_list e)" "drop 5 (axr_flag_list e)"] assms(2) by (simp add: axr_flag_list_def)
  obtain pre post where u: "axr_usage printable e = pre @ concat (map (print_flag printable) (axr_flag_list e)) @ post"
    using that unfolding axr_usage_def by blast
  obtain a b where "axr_usage printable e = a @ ''auth token (AXR_TOKEN) (default '' @ [dquote] @ token @ [dquote] @ b"
    using that [of "pre @ concat (map (print_flag printable) l) @ ''  -token string'' @ [CHR 0x0A] @ ''    '' @ [CHR 0x09]"
      "'')'' @ [CHR 0x0A] @ concat (map (print_flag printable) r) @ post"]
    unfolding u fs list.map concat_append map_append concat.simps flag append_assoc by blast
  moreover obtain c where "shown = c @ axr_usage printable e"
    using assms(1) that by (auto simp: axr_command_def split: sum.splits prod.splits axr_exit.splits)
  ultimately show ?thesis by (metis append_assoc)
qed

subsection \<open>Concrete command lines\<close>

definition demo_settings :: "(string \<times> setting) list" where
  "demo_settings = [(''token'', SetString ''old''), (''token'', SetString ''tk''), (''host-rewrite'', SetBool True)]"

lemma demo_command_runs:
  "\<exists>pc target label. axr_command (\<lambda>_. True) demo_build demo_load [''AXR_SERVICE'' \<mapsto> ''foo''] (map render_setting demo_settings @ [''80''])
     = CommandRan (Forwarding pc target label)"
proof -
  have "case axr_command (\<lambda>_. True) demo_build demo_load [''AXR_SERVICE'' \<mapsto> ''foo''] (map render_setting demo_settings @ [''80'']) of
      CommandRan (Forwarding pc target label) \<Rightarrow> True | _ \<Rightarrow> False"
    by code_simp
  then show ?thesis by (auto split: command_end.splits axr_exit.splits)
qed

theorem axr_command_precedence_witness:
  "\<exists>pc target label. axr_command (\<lambda>_. True) demo_build demo_load [''AXR_SERVICE'' \<mapsto> ''foo''] (map render_setting demo_settings @ [''80''])
       = CommandRan (Forwarding pc target label) \<and> cc_token (pc_config pc) = ''tk'' \<and> cc_service (pc_config pc) = ''foo''"
proof -
  obtain pc target label where r: "axr_command (\<lambda>_. True) demo_build demo_load [''AXR_SERVICE'' \<mapsto> ''foo'']
      (map render_setting demo_settings @ [''80'']) = CommandRan (Forwarding pc target label)"
    using demo_command_runs by blast
  have known: "list_all (known_setting (kinds_of (axr_flag_list [''AXR_SERVICE'' \<mapsto> ''foo'']))) demo_settings" by code_simp
  have target: "length ''80'' < 2 \<or> hd ''80'' \<noteq> CHR ''-''" by simp
  have load: "\<forall>p e0 e1. demo_load p e0 = Inr e1 \<longrightarrow> e0 \<subseteq>\<^sub>m e1" by (auto simp: demo_load_def map_le_def)
  have last: "last_string ''token'' demo_settings = Some ''tk''" "last_string ''service'' demo_settings = None" by code_simp+
  from axr_command_precedence [OF known target r load] r show ?thesis by (auto simp: last)
qed

theorem usage_shows_token_witness:
  "\<exists>before after. axr_command (\<lambda>_. True) demo_build demo_load [''AXR_TOKEN'' \<mapsto> ''s3cret''] [''-h''] =
     UsageShown 0 (before @ ''auth token (AXR_TOKEN) (default '' @ [dquote] @ ''s3cret'' @ [dquote] @ after)"
proof -
  let ?e = "[''AXR_TOKEN'' \<mapsto> ''s3cret'']" and ?u = "\<lambda>e. axr_usage (\<lambda>_. True) e"
  have shown: "axr_command (\<lambda>_. True) demo_build demo_load ?e [''-h''] = UsageShown 0 (?u ?e)"
    by (simp add: axr_command_def split_value_def kinds_of_def axr_flag_list_def flag_exit_def flag_error_line_def)
  have "getenv ?e ''AXR_TOKEN'' = ''s3cret''" "plain_text ''s3cret''" by code_simp+
  from usage_shows_token [OF shown this] show ?thesis unfolding shown by simp
qed

end
