(* ===== verification/Hub.thy ===== *)
theory Hub
  imports Prelude "HOL-Library.Sublist"
begin

text \<open>
  The web-socket broadcaster of \<open>examples/websocket/main.go\<close>: the hub goroutine with its set of clients, the
  reader and the writer goroutine of every client, and the channels between them. A channel is the list of
  what it holds; \<open>register\<close> and \<open>unregister\<close> have no buffer, so both sides of a transfer move in one step.
\<close>

subsection \<open>State\<close>

type_synonym client_id = nat

datatype frame = TextFrame string | PingFrame | CloseFrame

text \<open>
  Where the two goroutines of a client are. \<open>Joining\<close> and \<open>Leaving\<close> wait for the hub, \<open>Posting\<close> for room in
  the broadcast channel.
\<close>

datatype reader_pc = Joining | Starting | Reading | Posting string | Leaving | ClosingConn | ReaderGone

datatype writer_pc = NotStarted | Writing | WriterLeaving | WriterGone

text \<open>\<open>wc_since\<close> and \<open>wc_lost\<close> are history: the broadcasts before the client joined, and what it missed since.\<close>

record ws_client =
  wc_out :: "string list"
  wc_out_closed :: bool
  wc_reader :: reader_pc
  wc_writer :: writer_pc
  wc_conn_open :: bool
  wc_frames :: "frame list"
  wc_since :: nat
  wc_lost :: nat

datatype hub_pc = HubIdle | HubSending string "client_id set"

text \<open>\<open>hb_log\<close> is history: the messages the hub has taken from the broadcast channel.\<close>

record hub =
  hb_pc :: hub_pc
  hb_members :: "client_id set"
  hb_clients :: "client_id \<Rightarrow> ws_client option"
  hb_broadcast :: "string list"
  hb_log :: "string list"
  hb_panic :: bool

definition out_cap :: nat where
  "out_cap = 16"

definition broadcast_cap :: nat where
  "broadcast_cap = 64"

definition new_hub :: hub where
  "new_hub = \<lparr>hb_pc = HubIdle, hb_members = {}, hb_clients = Map.empty, hb_broadcast = [], hb_log = [], hb_panic = False\<rparr>"

definition new_ws_client :: ws_client where
  "new_ws_client =
     \<lparr>wc_out = [], wc_out_closed = False, wc_reader = Joining, wc_writer = NotStarted, wc_conn_open = True,
      wc_frames = [], wc_since = 0, wc_lost = 0\<rparr>"

definition hub_size :: "hub \<Rightarrow> nat" where
  "hub_size h = card (hb_members h)"

definition upd_client :: "client_id \<Rightarrow> (ws_client \<Rightarrow> ws_client) \<Rightarrow> hub \<Rightarrow> hub" where
  "upd_client c f h = h\<lparr>hb_clients := (hb_clients h)(c := map_option f (hb_clients h c))\<rparr>"

subsection \<open>The hub goroutine\<close>

definition hub_register :: "client_id \<Rightarrow> hub \<Rightarrow> hub" where
  "hub_register c h =
     (upd_client c (\<lambda>w. w\<lparr>wc_reader := Starting, wc_since := length (hb_log h)\<rparr>) h)\<lparr>hb_members := insert c (hb_members h)\<rparr>"

text \<open>Closing a channel twice would panic.\<close>

definition close_out :: "client_id \<Rightarrow> hub \<Rightarrow> hub" where
  "close_out c h =
     (case hb_clients h c of
        None \<Rightarrow> h
      | Some w \<Rightarrow> if wc_out_closed w then h\<lparr>hb_panic := True\<rparr> else upd_client c (\<lambda>w. w\<lparr>wc_out_closed := True\<rparr>) h)"

definition hub_unregister :: "client_id \<Rightarrow> hub \<Rightarrow> hub" where
  "hub_unregister c h =
     (let h1 = upd_client c (\<lambda>w. w\<lparr>wc_reader := ClosingConn\<rparr>) h
      in if c \<in> hb_members h1 then close_out c (h1\<lparr>hb_members := hb_members h1 - {c}\<rparr>) else h1)"

definition hub_take :: "string \<Rightarrow> string list \<Rightarrow> hub \<Rightarrow> hub" where
  "hub_take m q h = h\<lparr>hb_broadcast := q, hb_log := hb_log h @ [m], hb_pc := HubSending m (hb_members h)\<rparr>"

text \<open>A send that does not wait: the message is dropped when the queue of the client is full; a closed channel panics.\<close>

definition hub_offer :: "client_id \<Rightarrow> string \<Rightarrow> hub \<Rightarrow> hub" where
  "hub_offer c m h =
     (case hb_clients h c of
        None \<Rightarrow> h
      | Some w \<Rightarrow>
          if wc_out_closed w then h\<lparr>hb_panic := True\<rparr>
          else if length (wc_out w) < out_cap then upd_client c (\<lambda>w. w\<lparr>wc_out := wc_out w @ [m]\<rparr>) h
          else upd_client c (\<lambda>w. w\<lparr>wc_lost := wc_lost w + 1\<rparr>) h)"

text \<open>What the hub goroutine does by itself; the map of clients is walked in any order.\<close>

inductive hub_loop :: "hub \<Rightarrow> hub \<Rightarrow> bool" where
  hub_takes: "hb_pc h = HubIdle \<Longrightarrow> hb_broadcast h = m # q \<Longrightarrow> hub_loop h (hub_take m q h)"
| hub_offers: "hb_pc h = HubSending m todo \<Longrightarrow> c \<in> todo \<Longrightarrow>
    hub_loop h ((hub_offer c m h)\<lparr>hb_pc := HubSending m (todo - {c})\<rparr>)"
| hub_finishes: "hb_pc h = HubSending m {} \<Longrightarrow> hub_loop h (h\<lparr>hb_pc := HubIdle\<rparr>)"

subsection \<open>The goroutines of a client\<close>

definition send_frame :: "frame \<Rightarrow> ws_client \<Rightarrow> ws_client" where
  "send_frame f w = w\<lparr>wc_frames := wc_frames w @ [f]\<rparr>"

text \<open>
  Every step of the program: an upgraded connection, the two transfers to the hub, the hub itself, the
  reader and the writer. A read or a write may fail at any moment (a deadline, a peer that left), and on a
  closed connection it does.
\<close>

inductive hub_step :: "hub \<Rightarrow> hub \<Rightarrow> bool" where
  upgraded: "hb_clients h c = None \<Longrightarrow> hub_step h (h\<lparr>hb_clients := (hb_clients h)(c \<mapsto> new_ws_client)\<rparr>)"
| registers: "hb_pc h = HubIdle \<Longrightarrow> hb_clients h c = Some w \<Longrightarrow> wc_reader w = Joining \<Longrightarrow> hub_step h (hub_register c h)"
| unregisters: "hb_pc h = HubIdle \<Longrightarrow> hb_clients h c = Some w \<Longrightarrow> wc_reader w = Leaving \<Longrightarrow> hub_step h (hub_unregister c h)"
| hub_runs: "hub_loop h h' \<Longrightarrow> hub_step h h'"
| starts: "hb_clients h c = Some w \<Longrightarrow> wc_reader w = Starting \<Longrightarrow>
    hub_step h (upd_client c (\<lambda>w. w\<lparr>wc_reader := Reading, wc_writer := Writing\<rparr>) h)"
| reads: "hb_clients h c = Some w \<Longrightarrow> wc_reader w = Reading \<Longrightarrow> wc_conn_open w \<Longrightarrow>
    hub_step h (upd_client c (\<lambda>w. w\<lparr>wc_reader := Posting m\<rparr>) h)"
| read_fails: "hb_clients h c = Some w \<Longrightarrow> wc_reader w = Reading \<Longrightarrow>
    hub_step h (upd_client c (\<lambda>w. w\<lparr>wc_reader := Leaving\<rparr>) h)"
| posts: "hb_clients h c = Some w \<Longrightarrow> wc_reader w = Posting m \<Longrightarrow> length (hb_broadcast h) < broadcast_cap \<Longrightarrow>
    hub_step h ((upd_client c (\<lambda>w. w\<lparr>wc_reader := Reading\<rparr>) h)\<lparr>hb_broadcast := hb_broadcast h @ [m]\<rparr>)"
| reader_closes: "hb_clients h c = Some w \<Longrightarrow> wc_reader w = ClosingConn \<Longrightarrow>
    hub_step h (upd_client c (\<lambda>w. w\<lparr>wc_reader := ReaderGone, wc_conn_open := False\<rparr>) h)"
| writes: "hb_clients h c = Some w \<Longrightarrow> wc_writer w = Writing \<Longrightarrow> wc_out w = m # ms \<Longrightarrow> wc_conn_open w \<Longrightarrow>
    hub_step h (upd_client c (\<lambda>w. send_frame (TextFrame m) (w\<lparr>wc_out := ms\<rparr>)) h)"
| write_fails: "hb_clients h c = Some w \<Longrightarrow> wc_writer w = Writing \<Longrightarrow> wc_out w = m # ms \<Longrightarrow>
    hub_step h (upd_client c (\<lambda>w. w\<lparr>wc_out := ms, wc_lost := wc_lost w + 1, wc_writer := WriterLeaving\<rparr>) h)"
| out_ends: "hb_clients h c = Some w \<Longrightarrow> wc_writer w = Writing \<Longrightarrow> wc_out w = [] \<Longrightarrow> wc_out_closed w \<Longrightarrow>
    hub_step h (upd_client c (\<lambda>w. (if wc_conn_open w then send_frame CloseFrame w else w)\<lparr>wc_writer := WriterLeaving\<rparr>) h)"
| pings: "hb_clients h c = Some w \<Longrightarrow> wc_writer w = Writing \<Longrightarrow> wc_conn_open w \<Longrightarrow>
    hub_step h (upd_client c (send_frame PingFrame) h)"
| ping_fails: "hb_clients h c = Some w \<Longrightarrow> wc_writer w = Writing \<Longrightarrow>
    hub_step h (upd_client c (\<lambda>w. w\<lparr>wc_writer := WriterLeaving\<rparr>) h)"
| writer_closes: "hb_clients h c = Some w \<Longrightarrow> wc_writer w = WriterLeaving \<Longrightarrow>
    hub_step h (upd_client c (\<lambda>w. w\<lparr>wc_writer := WriterGone, wc_conn_open := False\<rparr>) h)"

inductive_cases hub_loopE: "hub_loop h h'"
inductive_cases hub_stepE: "hub_step h h'"

definition init_hub :: "hub \<Rightarrow> bool" where
  "init_hub h \<longleftrightarrow> h = new_hub"

subsection \<open>Invariant\<close>

fun texts :: "frame list \<Rightarrow> string list" where
  "texts [] = []"
| "texts (TextFrame m # fs) = m # texts fs"
| "texts (_ # fs) = texts fs"

definition pending :: "hub \<Rightarrow> client_id \<Rightarrow> bool" where
  "pending h c \<longleftrightarrow> (case hb_pc h of HubIdle \<Rightarrow> False | HubSending m todo \<Rightarrow> c \<in> todo)"

text \<open>The broadcasts since a client joined that have been offered to it.\<close>

definition offered :: "hub \<Rightarrow> client_id \<Rightarrow> ws_client \<Rightarrow> string list" where
  "offered h c w =
     (let seen = drop (wc_since w) (hb_log h) in if pending h c then butlast seen else seen)"

definition joined :: "reader_pc \<Rightarrow> bool" where
  "joined r \<longleftrightarrow> r \<noteq> Joining \<and> r \<noteq> ClosingConn \<and> r \<noteq> ReaderGone"

definition client_ok :: "hub \<Rightarrow> client_id \<Rightarrow> ws_client \<Rightarrow> bool" where
  "client_ok h c w \<longleftrightarrow>
     (c \<in> hb_members h \<longleftrightarrow> joined (wc_reader w)) \<and>
     (wc_out_closed w \<longleftrightarrow> wc_reader w = ClosingConn \<or> wc_reader w = ReaderGone) \<and>
     length (wc_out w) \<le> out_cap \<and> wc_since w \<le> length (hb_log h) \<and>
     (pending h c \<longrightarrow> wc_since w < length (hb_log h)) \<and>
     subseq (texts (wc_frames w) @ wc_out w) (offered h c w) \<and>
     (wc_reader w = Joining \<longrightarrow> wc_writer w = NotStarted \<and> wc_out w = [] \<and> wc_frames w = []) \<and>
     (c \<in> hb_members h \<and> wc_lost w = 0 \<longrightarrow> texts (wc_frames w) @ wc_out w = offered h c w)"

definition round_ok :: "hub \<Rightarrow> bool" where
  "round_ok h \<longleftrightarrow>
     (case hb_pc h of HubIdle \<Rightarrow> True
      | HubSending m todo \<Rightarrow> todo \<subseteq> hb_members h \<and> hb_log h \<noteq> [] \<and> last (hb_log h) = m)"

definition hub_inv :: "hub \<Rightarrow> bool" where
  "hub_inv h \<longleftrightarrow>
     \<not> hb_panic h \<and> length (hb_broadcast h) \<le> broadcast_cap \<and> hb_members h \<subseteq> dom (hb_clients h) \<and>
     finite (dom (hb_clients h)) \<and> round_ok h \<and> (\<forall>c w. hb_clients h c = Some w \<longrightarrow> client_ok h c w)"

lemma texts_append [simp]: "texts (fs @ gs) = texts fs @ texts gs"
  by (induction fs rule: texts.induct) simp_all

lemma subseq_append_right: "subseq xs ys \<Longrightarrow> subseq xs (ys @ zs)"
  by (meson prefixI prefix_imp_subseq subseq_order.trans)

lemma subseq_drop_middle: "subseq (xs @ m # ms) ys \<Longrightarrow> subseq (xs @ ms) ys"
  using list_emb_append_mono [OF subseq_order.refl [of xs] list_emb_Cons [OF subseq_order.refl [of ms], of m]]
    subseq_order.trans by blast

subsection \<open>One lemma per kind of step\<close>

lemma client_ok_other:
  "(d \<in> hb_members h' \<longleftrightarrow> d \<in> hb_members h) \<Longrightarrow> hb_log h' = hb_log h \<Longrightarrow> (pending h' d \<longleftrightarrow> pending h d) \<Longrightarrow>
   client_ok h' d w = client_ok h d w"
  by (simp add: client_ok_def offered_def)

lemma client_ok_cong:
  "hb_members h' = hb_members h \<Longrightarrow> hb_log h' = hb_log h \<Longrightarrow> hb_pc h' = hb_pc h \<Longrightarrow> client_ok h' = client_ok h"
  by (simp add: client_ok_def offered_def pending_def fun_eq_iff)

lemma round_ok_cong:
  "hb_members h' = hb_members h \<Longrightarrow> hb_log h' = hb_log h \<Longrightarrow> hb_pc h' = hb_pc h \<Longrightarrow> round_ok h' = round_ok h"
  by (simp add: round_ok_def split: hub_pc.splits)

lemma upd_client_fields [simp]:
  "hb_pc (upd_client c f h) = hb_pc h" "hb_members (upd_client c f h) = hb_members h"
  "hb_broadcast (upd_client c f h) = hb_broadcast h" "hb_log (upd_client c f h) = hb_log h"
  "hb_panic (upd_client c f h) = hb_panic h"
  "hb_clients (upd_client c f h) d = (if d = c then map_option f (hb_clients h c) else hb_clients h d)"
  by (simp_all add: upd_client_def)

lemma dom_upd_client [simp]: "dom (hb_clients (upd_client c f h)) = dom (hb_clients h)"
  by (auto simp: upd_client_def)

lemma send_frame_fields [simp]:
  "wc_out (send_frame f w) = wc_out w" "wc_reader (send_frame f w) = wc_reader w" "wc_since (send_frame f w) = wc_since w"
  "wc_out_closed (send_frame f w) = wc_out_closed w" "wc_lost (send_frame f w) = wc_lost w"
  "wc_frames (send_frame f w) = wc_frames w @ [f]"
  by (simp_all add: send_frame_def)

lemma hub_inv_client:
  assumes "hub_inv h" "hb_clients h c = Some w" "client_ok h c w \<Longrightarrow> client_ok h c (f w)"
  shows "hub_inv (upd_client c f h)"
  using assms round_ok_cong [of "upd_client c f h" h] client_ok_cong [of "upd_client c f h" h]
  by (auto simp: hub_inv_def)

lemma hub_inv_broadcast:
  "hub_inv h \<Longrightarrow> length q \<le> broadcast_cap \<Longrightarrow> hub_inv (h\<lparr>hb_broadcast := q\<rparr>)"
  using round_ok_cong [of "h\<lparr>hb_broadcast := q\<rparr>" h] client_ok_cong [of "h\<lparr>hb_broadcast := q\<rparr>" h]
  by (auto simp: hub_inv_def)

lemma hub_invD: "hub_inv h \<Longrightarrow> hb_clients h c = Some w \<Longrightarrow> client_ok h c w"
  by (simp add: hub_inv_def)

lemma client_steps_ok:
  assumes ok: "client_ok h c w"
  shows "wc_reader w = Starting \<Longrightarrow> client_ok h c (w\<lparr>wc_reader := Reading, wc_writer := wr\<rparr>)"
    and "wc_reader w = Reading \<Longrightarrow> client_ok h c (w\<lparr>wc_reader := Posting m\<rparr>)"
    and "wc_reader w = Reading \<Longrightarrow> client_ok h c (w\<lparr>wc_reader := Leaving\<rparr>)"
    and "wc_reader w = Posting m \<Longrightarrow> client_ok h c (w\<lparr>wc_reader := Reading\<rparr>)"
    and "wc_reader w = ClosingConn \<Longrightarrow> client_ok h c (w\<lparr>wc_reader := ReaderGone, wc_conn_open := b\<rparr>)"
    and "wc_out w = m # ms \<Longrightarrow> client_ok h c (send_frame (TextFrame m) (w\<lparr>wc_out := ms\<rparr>))"
    and "wc_writer w \<noteq> NotStarted \<Longrightarrow> client_ok h c (w\<lparr>wc_writer := wr\<rparr>)"
    and "wc_writer w \<noteq> NotStarted \<Longrightarrow> client_ok h c (w\<lparr>wc_writer := wr, wc_conn_open := b\<rparr>)"
  using ok by (auto simp: client_ok_def joined_def offered_def)

lemma control_frame_ok:
  assumes "client_ok h c w" "wc_writer w \<noteq> NotStarted" "texts [f] = []"
  shows "client_ok h c (send_frame f w)"
  using assms by (auto simp: client_ok_def joined_def offered_def)

lemma write_fails_ok:
  assumes "client_ok h c w" "wc_out w = m # ms"
  shows "client_ok h c (w\<lparr>wc_out := ms, wc_lost := wc_lost w + 1, wc_writer := wr\<rparr>)"
  using assms subseq_drop_middle [of "texts (wc_frames w)" m ms "offered h c w"]
  by (auto simp: client_ok_def joined_def offered_def)

lemma hub_register_ok:
  assumes inv: "hub_inv h" and idle: "hb_pc h = HubIdle" and w: "hb_clients h c = Some w" "wc_reader w = Joining"
  shows "hub_inv (hub_register c h)"
proof -
  have "client_ok (hub_register c h) d v" if "hb_clients (hub_register c h) d = Some v" for d v
  proof (cases "d = c")
    case True
    with that w hub_invD [OF inv w(1)] idle show ?thesis
      by (auto simp: hub_register_def client_ok_def joined_def offered_def pending_def)
  next
    case False
    with that have "hb_clients h d = Some v" by (simp add: hub_register_def)
    moreover have "client_ok (hub_register c h) d v = client_ok h d v"
      by (rule client_ok_other) (use False in \<open>simp_all add: hub_register_def pending_def\<close>)
    ultimately show ?thesis using hub_invD [OF inv] by simp
  qed
  with inv idle w show ?thesis by (auto simp: hub_inv_def hub_register_def round_ok_def)
qed

lemma hub_unregister_member:
  assumes "c \<in> hb_members h" "hb_clients h c = Some w" "\<not> wc_out_closed w"
  shows "hub_unregister c h =
    h\<lparr>hb_members := hb_members h - {c}, hb_clients := (hb_clients h)(c \<mapsto> w\<lparr>wc_reader := ClosingConn, wc_out_closed := True\<rparr>)\<rparr>"
  using assms by (simp add: hub_unregister_def close_out_def upd_client_def Let_def)

lemma hub_unregister_ok:
  assumes inv: "hub_inv h" and idle: "hb_pc h = HubIdle" and w: "hb_clients h c = Some w" "wc_reader w = Leaving"
  shows "hub_inv (hub_unregister c h)"
proof -
  have ok: "client_ok h c w" by (rule hub_invD [OF inv w(1)])
  then have m: "c \<in> hb_members h" "\<not> wc_out_closed w" using w(2) by (auto simp: client_ok_def joined_def)
  note h' = hub_unregister_member [OF m(1) w(1) m(2)]
  have "client_ok (hub_unregister c h) d v" if "hb_clients (hub_unregister c h) d = Some v" for d v
  proof (cases "d = c")
    case True
    with that ok w idle show ?thesis
      by (auto simp: h' client_ok_def joined_def offered_def pending_def)
  next
    case False
    with that have "hb_clients h d = Some v" by (simp add: h')
    moreover have "client_ok (hub_unregister c h) d v = client_ok h d v"
      by (rule client_ok_other) (use False in \<open>simp_all add: h' pending_def\<close>)
    ultimately show ?thesis using hub_invD [OF inv] by simp
  qed
  with inv idle w m show ?thesis by (auto simp: hub_inv_def h' round_ok_def)
qed

lemma drop_log_snoc: "n \<le> length l \<Longrightarrow> drop n (l @ [m]) = drop n l @ [m]"
  by simp

lemma hub_take_ok:
  assumes inv: "hub_inv h" and idle: "hb_pc h = HubIdle" and q: "hb_broadcast h = m # q"
  shows "hub_inv (hub_take m q h)"
proof -
  have "client_ok (hub_take m q h) c w" if "hb_clients h c = Some w" for c w
    using hub_invD [OF inv that] idle
    by (auto simp: hub_take_def client_ok_def joined_def offered_def pending_def drop_log_snoc Let_def
        intro: subseq_append_right)
  with inv q show ?thesis by (auto simp: hub_inv_def hub_take_def round_ok_def)
qed

lemma offered_pending:
  assumes "pending h c" "wc_since w < length (hb_log h)" "last (hb_log h) = m"
  shows "offered h c w @ [m] = drop (wc_since w) (hb_log h)"
proof -
  have "last (drop (wc_since w) (hb_log h)) = m" using assms(2,3) by (simp add: last_drop)
  with assms(1,2) append_butlast_last_id [of "drop (wc_since w) (hb_log h)"] show ?thesis
    by (simp add: offered_def Let_def)
qed

lemma hub_offer_ok:
  assumes inv: "hub_inv h" and sending: "hb_pc h = HubSending m todo" and c: "c \<in> todo"
  shows "hub_inv ((hub_offer c m h)\<lparr>hb_pc := HubSending m (todo - {c})\<rparr>)"
proof -
  let ?h = "(hub_offer c m h)\<lparr>hb_pc := HubSending m (todo - {c})\<rparr>"
  have r: "todo \<subseteq> hb_members h" "hb_log h \<noteq> []" "last (hb_log h) = m" using inv sending by (auto simp: hub_inv_def round_ok_def)
  then obtain w where w: "hb_clients h c = Some w" using inv c by (auto simp: hub_inv_def)
  have ok: "client_ok h c w" by (rule hub_invD [OF inv w])
  have p: "pending h c" using sending c by (simp add: pending_def)
  have m: "c \<in> hb_members h" using r c by blast
  have open_out: "\<not> wc_out_closed w" using ok m by (auto simp: client_ok_def joined_def)
  define w' where "w' = (if length (wc_out w) < out_cap then w\<lparr>wc_out := wc_out w @ [m]\<rparr> else w\<lparr>wc_lost := wc_lost w + 1\<rparr>)"
  have h': "?h = h\<lparr>hb_clients := (hb_clients h)(c \<mapsto> w'), hb_pc := HubSending m (todo - {c})\<rparr>"
    using w open_out by (simp add: hub_offer_def upd_client_def w'_def)
  have since: "wc_since w < length (hb_log h)" using ok p by (simp add: client_ok_def)
  have now: "drop (wc_since w) (hb_log h) = offered h c w @ [m]" using offered_pending [OF p since r(3)] by simp
  have fields: "wc_reader w' = wc_reader w" "wc_out_closed w' = wc_out_closed w" "wc_since w' = wc_since w"
    "wc_frames w' = wc_frames w" "wc_writer w' = wc_writer w"
    by (simp_all add: w'_def)
  have np: "\<not> pending ?h c" and same: "hb_log ?h = hb_log h" "hb_members ?h = hb_members h"
    unfolding h' by (simp_all add: pending_def)
  have off: "offered ?h c w' = offered h c w @ [m]"
    unfolding now [symmetric] by (simp only: offered_def np same fields Let_def if_False)
  have out: "length (wc_out w') \<le> out_cap" "wc_reader w \<noteq> Joining"
    using ok m by (auto simp: client_ok_def joined_def w'_def)
  have sub: "subseq (texts (wc_frames w) @ wc_out w) (offered h c w)"
    and exact: "wc_lost w = 0 \<Longrightarrow> texts (wc_frames w) @ wc_out w = offered h c w"
    using ok m by (simp_all add: client_ok_def)
  have "subseq (texts (wc_frames w) @ wc_out w') (offered h c w @ [m])"
    and "wc_lost w' = 0 \<Longrightarrow> texts (wc_frames w) @ wc_out w' = offered h c w @ [m]"
    using sub exact by (auto simp: w'_def subseq_append_right simp flip: append_assoc split: if_splits)
  then have "client_ok ?h c w'"
    using ok m out since unfolding client_ok_def off same fields by (simp add: np)
  moreover have "client_ok ?h d v = client_ok h d v" if "d \<noteq> c" for d v
    by (rule client_ok_other) (use that sending in \<open>simp_all add: h' pending_def\<close>)
  ultimately have "client_ok ?h d v" if "hb_clients ?h d = Some v" for d v
    using that hub_invD [OF inv] by (cases "d = c") (simp_all add: h')
  with inv r w show ?thesis by (auto simp: hub_inv_def h' round_ok_def)
qed

lemma hub_finish_ok:
  assumes "hub_inv h" "hb_pc h = HubSending m {}"
  shows "hub_inv (h\<lparr>hb_pc := HubIdle\<rparr>)"
proof -
  have "client_ok (h\<lparr>hb_pc := HubIdle\<rparr>) d v = client_ok h d v" for d v
    by (rule client_ok_other) (simp_all add: pending_def assms(2))
  with assms show ?thesis by (auto simp: hub_inv_def round_ok_def)
qed

lemma hub_loop_ok: "hub_loop h h' \<Longrightarrow> hub_inv h \<Longrightarrow> hub_inv h'"
  by (induction rule: hub_loop.induct) (simp_all add: hub_take_ok hub_offer_ok hub_finish_ok)

lemma hub_step_ok: "hub_step h h' \<Longrightarrow> hub_inv h \<Longrightarrow> hub_inv h'"
proof (induction rule: hub_step.induct)
  case (upgraded h c)
  have n: "c \<notin> hb_members h" "\<not> pending h c" using upgraded by (auto simp: hub_inv_def round_ok_def pending_def split: hub_pc.splits)
  let ?h = "h\<lparr>hb_clients := (hb_clients h)(c \<mapsto> new_ws_client)\<rparr>"
  have "client_ok ?h = client_ok h" by (rule client_ok_cong) simp_all
  moreover have "client_ok h c new_ws_client"
    using n by (simp add: client_ok_def new_ws_client_def joined_def out_cap_def)
  ultimately show ?case using upgraded round_ok_cong [of ?h h] by (auto simp: hub_inv_def)
next
  case (registers h c w)
  then show ?case by (intro hub_register_ok) simp_all
next
  case (unregisters h c w)
  then show ?case by (intro hub_unregister_ok) simp_all
next
  case (hub_runs h h')
  then show ?case using hub_loop_ok by blast
next
  case (posts h c w m)
  have "hub_inv (upd_client c (\<lambda>w. w\<lparr>wc_reader := Reading\<rparr>) h)"
    by (rule hub_inv_client [OF posts(4,1)]) (rule client_steps_ok(4) [OF _ posts(2)])
  then show ?case using posts(3) hub_inv_broadcast [of "upd_client c (\<lambda>w. w\<lparr>wc_reader := Reading\<rparr>) h" "hb_broadcast h @ [m]"]
    by simp
next
  case (write_fails h c w m ms)
  show ?case by (rule hub_inv_client [OF write_fails(4,1)]) (rule write_fails_ok [OF _ write_fails(3)])
next
  case (out_ends h c w)
  let ?f = "\<lambda>w. (if wc_conn_open w then send_frame CloseFrame w else w)\<lparr>wc_writer := WriterLeaving\<rparr>"
  have "client_ok h c (?f w)" if "client_ok h c w"
    using client_steps_ok(7) [of h c "if wc_conn_open w then send_frame CloseFrame w else w" WriterLeaving]
      control_frame_ok [OF that, of CloseFrame] that out_ends(2)
    by (simp add: send_frame_def)
  then show ?case by (rule hub_inv_client [OF out_ends(5,1)])
next
  case (pings h c w)
  show ?case by (rule hub_inv_client [OF pings(4,1)]) (rule control_frame_ok, simp_all add: pings(2))
next
  case (starts h c w)
  show ?case by (rule hub_inv_client [OF starts(3,1)]) (rule client_steps_ok(1) [OF _ starts(2)])
next
  case (reads h c w m)
  show ?case by (rule hub_inv_client [OF reads(4,1)]) (rule client_steps_ok(2) [OF _ reads(2)])
next
  case (read_fails h c w)
  show ?case by (rule hub_inv_client [OF read_fails(3,1)]) (rule client_steps_ok(3) [OF _ read_fails(2)])
next
  case (reader_closes h c w)
  show ?case by (rule hub_inv_client [OF reader_closes(3,1)]) (rule client_steps_ok(5) [OF _ reader_closes(2)])
next
  case (writes h c w m ms)
  show ?case by (rule hub_inv_client [OF writes(5,1)]) (rule client_steps_ok(6) [OF _ writes(3)])
next
  case (ping_fails h c w)
  show ?case by (rule hub_inv_client [OF ping_fails(3,1)]) (rule client_steps_ok(7), simp_all add: ping_fails(2))
next
  case (writer_closes h c w)
  show ?case by (rule hub_inv_client [OF writer_closes(3,1)]) (rule client_steps_ok(8), simp_all add: writer_closes(2))
qed

interpretation chat: invariant_system init_hub hub_step hub_inv
proof unfold_locales
  show "hub_inv h" if "init_hub h" for h
    using that by (simp add: init_hub_def new_hub_def hub_inv_def round_ok_def)
qed (rule hub_step_ok)

subsection \<open>The hub goroutine never waits inside a round\<close>

lemma hub_loop_members: "hub_loop h h' \<Longrightarrow> hb_members h' = hb_members h"
  by (induction rule: hub_loop.induct)
    (auto simp: hub_take_def hub_offer_def split: option.splits)

lemma hub_offer_fields [simp]:
  "hb_broadcast (hub_offer c m h) = hb_broadcast h" "hb_log (hub_offer c m h) = hb_log h"
  by (simp_all add: hub_offer_def split: option.splits)

text \<open>Left alone, the hub finishes the round it is in.\<close>

lemma hub_round_ends:
  assumes "finite todo" "hb_pc h = HubSending m todo"
  shows "\<exists>h'. hub_loop\<^sup>*\<^sup>* h h' \<and> hb_pc h' = HubIdle \<and> hb_broadcast h' = hb_broadcast h \<and> hb_log h' = hb_log h"
  using assms
proof (induction todo arbitrary: h rule: finite_induct)
  case empty
  then have "hub_loop h (h\<lparr>hb_pc := HubIdle\<rparr>)" by (rule hub_finishes)
  then show ?case by (intro exI [of _ "h\<lparr>hb_pc := HubIdle\<rparr>"]) auto
next
  case (insert c todo)
  let ?h = "(hub_offer c m h)\<lparr>hb_pc := HubSending m (insert c todo - {c})\<rparr>"
  have first: "hub_loop h ?h" using insert.prems by (rule hub_offers) simp
  have "hb_pc ?h = HubSending m todo" using insert.hyps by simp
  then obtain h' where "hub_loop\<^sup>*\<^sup>* ?h h'" "hb_pc h' = HubIdle" "hb_broadcast h' = hb_broadcast ?h" "hb_log h' = hb_log ?h"
    using insert.IH by blast
  with first show ?case by (intro exI [of _ h']) (simp add: converse_rtranclp_into_rtranclp)
qed

lemma hub_idle_drains:
  assumes "finite (hb_members h)" "hb_pc h = HubIdle"
  shows "\<exists>h'. hub_loop\<^sup>*\<^sup>* h h' \<and> hb_pc h' = HubIdle \<and> hb_broadcast h' = [] \<and> hb_log h' = hb_log h @ hb_broadcast h"
  using assms
proof (induction "hb_broadcast h" arbitrary: h)
  case Nil
  then show ?case by (intro exI [of _ h]) simp
next
  case (Cons m q)
  from Cons.prems(2) Cons.hyps(2) [symmetric] have first: "hub_loop h (hub_take m q h)" by (rule hub_takes)
  obtain h1 where h1: "hub_loop\<^sup>*\<^sup>* (hub_take m q h) h1" "hb_pc h1 = HubIdle" "hb_broadcast h1 = q" "hb_log h1 = hb_log h @ [m]"
    using hub_round_ends [of "hb_members h" "hub_take m q h" m] Cons.prems(1) by (auto simp: hub_take_def)
  have run: "hub_loop\<^sup>*\<^sup>* h h1" using first h1(1) by (rule converse_rtranclp_into_rtranclp)
  then have "hb_members h1 = hb_members h"
    by (induction rule: rtranclp_induct) (simp_all add: hub_loop_members)
  with Cons.prems(1) Cons.hyps(1) [of h1] h1 obtain h' where "hub_loop\<^sup>*\<^sup>* h1 h'" "hb_pc h' = HubIdle" "hb_broadcast h' = []"
    "hb_log h' = hb_log h1 @ hb_broadcast h1" by auto
  with run h1(3,4) Cons.hyps(2) [symmetric] show ?case by (intro exI [of _ h']) simp
qed

lemma offered_subseq: "subseq xs (offered h c w) \<Longrightarrow> subseq xs (drop (wc_since w) (hb_log h))"
  using prefix_imp_subseq [OF prefixeq_butlast, of "drop (wc_since w) (hb_log h)"] subseq_order.trans
  by (cases "pending h c") (auto simp: offered_def)

subsection \<open>Properties\<close>

text \<open>
  C17. The hub never panics: in every interleaving of the readers, the writers and the hub, nothing is sent on
  a closed channel and no channel is closed twice. The channels keep their bounds, and a client's channel is
  closed exactly when the client has left the hub, so its writer ends.
\<close>

theorem hub_never_panics:
  assumes "reaches init_hub hub_step h"
  shows "\<not> hb_panic h \<and> length (hb_broadcast h) \<le> 64 \<and>
    (\<forall>c w. hb_clients h c = Some w \<longrightarrow> length (wc_out w) \<le> 16 \<and> \<not> (c \<in> hb_members h \<and> wc_out_closed w) \<and>
      (wc_reader w = ReaderGone \<longrightarrow> c \<notin> hb_members h \<and> wc_out_closed w))"
proof -
  have inv: "hub_inv h" by (rule chat.inv_reaches [OF assms])
  then have "\<not> hb_panic h \<and> length (hb_broadcast h) \<le> 64" by (simp add: hub_inv_def broadcast_cap_def)
  moreover have "length (wc_out w) \<le> 16 \<and> \<not> (c \<in> hb_members h \<and> wc_out_closed w) \<and>
      (wc_reader w = ReaderGone \<longrightarrow> c \<notin> hb_members h \<and> wc_out_closed w)" if "hb_clients h c = Some w" for c w
    using hub_invD [OF inv that] by (auto simp: client_ok_def joined_def out_cap_def)
  ultimately show ?thesis by blast
qed

text \<open>
  C16. What a client of the chat sees: the messages written to it, and then those waiting for it, are
  broadcasts made since it joined, in their order and without repetition; when the hub is between two
  messages and the client has missed none (its queue was never full, no write failed), they are all of them.
\<close>

theorem chat_delivery:
  assumes "reaches init_hub hub_step h" "hb_clients h c = Some w"
  shows "subseq (texts (wc_frames w) @ wc_out w) (drop (wc_since w) (hb_log h)) \<and>
    (hb_pc h = HubIdle \<and> c \<in> hb_members h \<and> wc_lost w = 0 \<longrightarrow>
      texts (wc_frames w) @ wc_out w = drop (wc_since w) (hb_log h))"
proof -
  have ok: "client_ok h c w" by (rule hub_invD [OF chat.inv_reaches [OF assms(1)] assms(2)])
  then have "subseq (texts (wc_frames w) @ wc_out w) (offered h c w)"
    "c \<in> hb_members h \<and> wc_lost w = 0 \<longrightarrow> texts (wc_frames w) @ wc_out w = offered h c w"
    by (simp_all add: client_ok_def)
  then show ?thesis using offered_subseq by (simp add: offered_def pending_def)
qed

text \<open>
  A slow client does not hold up the others: from any reachable state the hub goroutine alone reaches,
  without waiting for anybody, a state in which every message that was waiting has been offered to every
  member.
\<close>

lemma hub_drains:
  assumes "reaches init_hub hub_step h"
  shows "\<exists>h'. hub_loop\<^sup>*\<^sup>* h h' \<and> hb_pc h' = HubIdle \<and> hb_broadcast h' = [] \<and> hb_log h' = hb_log h @ hb_broadcast h"
proof -
  have inv: "hub_inv h" by (rule chat.inv_reaches [OF assms])
  then have fin: "finite (hb_members h)" by (auto simp: hub_inv_def intro: finite_subset)
  obtain h1 where h1: "hub_loop\<^sup>*\<^sup>* h h1" "hb_pc h1 = HubIdle" "hb_broadcast h1 = hb_broadcast h" "hb_log h1 = hb_log h"
  proof (cases "hb_pc h")
    case HubIdle
    with that [of h] show ?thesis by simp
  next
    case (HubSending m todo)
    with inv fin have "finite todo" by (auto simp: hub_inv_def round_ok_def intro: finite_subset)
    from hub_round_ends [OF this HubSending] that show ?thesis by blast
  qed
  from h1(1) have "hb_members h1 = hb_members h"
    by (induction rule: rtranclp_induct) (simp_all add: hub_loop_members)
  with fin hub_idle_drains [of h1] h1 show ?thesis by (metis rtranclp_trans)
qed

subsection \<open>A concrete conversation\<close>

text \<open>One client joins, says hello, and hears it back.\<close>

definition demo_member :: ws_client where
  "demo_member = new_ws_client\<lparr>wc_reader := Reading, wc_writer := Writing\<rparr>"

definition demo_waiting :: hub where
  "demo_waiting = new_hub\<lparr>hb_clients := [0 \<mapsto> demo_member], hb_members := {0}, hb_broadcast := [''hello'']\<rparr>"

definition demo_heard :: hub where
  "demo_heard = new_hub\<lparr>hb_clients := [0 \<mapsto> demo_member\<lparr>wc_frames := [TextFrame ''hello'']\<rparr>], hb_members := {0}, hb_log := [''hello'']\<rparr>"

lemmas demo_chat_defs = demo_waiting_def demo_heard_def demo_member_def new_hub_def new_ws_client_def

lemma demo_waiting_reaches: "reaches init_hub hub_step demo_waiting"
proof -
  let ?h1 = "new_hub\<lparr>hb_clients := [0 \<mapsto> new_ws_client]\<rparr>"
  let ?h2 = "?h1\<lparr>hb_clients := [0 \<mapsto> new_ws_client\<lparr>wc_reader := Starting\<rparr>], hb_members := {0}\<rparr>"
  let ?h3 = "?h2\<lparr>hb_clients := [0 \<mapsto> demo_member]\<rparr>"
  let ?h4 = "?h2\<lparr>hb_clients := [0 \<mapsto> demo_member\<lparr>wc_reader := Posting ''hello''\<rparr>]\<rparr>"
  note d = demo_chat_defs upd_client_def hub_register_def broadcast_cap_def
  have "init_hub new_hub" by (simp add: init_hub_def)
  moreover have "hub_step new_hub ?h1" using upgraded [of new_hub 0] by (simp add: new_hub_def)
  moreover have "hub_step ?h1 ?h2" using registers [of ?h1 0] by (simp add: d)
  moreover have "hub_step ?h2 ?h3" using starts [of ?h2 0] by (simp add: d)
  moreover have "hub_step ?h3 ?h4" using reads [of ?h3 0 demo_member "''hello''"] by (simp add: d)
  moreover have "hub_step ?h4 demo_waiting" using posts [of ?h4 0 "demo_member\<lparr>wc_reader := Posting ''hello''\<rparr>" "''hello''"] by (simp add: d)
  ultimately show ?thesis by (meson reaches.intros)
qed

lemma demo_heard_reaches: "reaches init_hub hub_step demo_heard"
proof -
  let ?h1 = "hub_take ''hello'' [] demo_waiting"
  let ?h2 = "(hub_offer 0 ''hello'' ?h1)\<lparr>hb_pc := HubSending ''hello'' {}\<rparr>"
  let ?h3 = "?h2\<lparr>hb_pc := HubIdle\<rparr>"
  note d = demo_chat_defs upd_client_def hub_take_def hub_offer_def out_cap_def send_frame_def
  have "hub_step demo_waiting ?h1" by (rule hub_runs, rule hub_takes) (simp_all add: d)
  moreover have "hub_step ?h1 ?h2" using hub_offers [of ?h1 "''hello''" "{0}" 0] by (intro hub_runs) (simp add: d)
  moreover have "hub_step ?h2 ?h3" by (rule hub_runs, rule hub_finishes) simp
  moreover have "hub_step ?h3 demo_heard" using writes [of ?h3 0 "demo_member\<lparr>wc_out := [''hello'']\<rparr>" "''hello''" "[]"] by (simp add: d)
  ultimately show ?thesis using demo_waiting_reaches by (meson reaches.intros)
qed

theorem hub_never_panics_witness: "\<not> hb_panic demo_heard \<and> hub_size demo_heard = 1"
  using hub_never_panics [OF demo_heard_reaches] by (simp add: hub_size_def demo_heard_def)

theorem chat_delivery_witness:
  "\<exists>w. hb_clients demo_heard 0 = Some w \<and> texts (wc_frames w) @ wc_out w = [''hello'']"
proof -
  obtain w where w: "hb_clients demo_heard 0 = Some w" "wc_lost w = 0" "wc_since w = 0"
    by (simp add: demo_chat_defs)
  from chat_delivery [OF demo_heard_reaches w(1)] w show ?thesis by (simp add: demo_chat_defs)
qed

lemma hub_drains_example:
  "\<exists>h'. hub_loop\<^sup>*\<^sup>* demo_waiting h' \<and> hb_broadcast h' = [] \<and> hb_log h' = [''hello'']"
  using hub_drains [OF demo_waiting_reaches] by (auto simp: demo_waiting_def new_hub_def)

end
