(* ===== verification/Mux.thy ===== *)
theory Mux
  imports Http Url
begin

text \<open>
  The part of \<open>http.ServeMux\<close> that the example programs use: one pattern for everything (\<open>/\<close>) and patterns of a single
  segment, with the redirect to the cleaned path.
\<close>

subsection \<open>Escaped paths\<close>

definition plain_path_byte :: "char \<Rightarrow> bool" where
  "plain_path_byte c \<longleftrightarrow> is_letter c \<or> is_digit c \<or> c \<in> set ''-_.~$&+,/:;=@''"

definition escape_path :: "string \<Rightarrow> string" where
  "escape_path s =
     concat (map (\<lambda>c. if plain_path_byte c then [c]
       else [CHR ''%'', ''0123456789ABCDEF'' ! (code c div 16), ''0123456789ABCDEF'' ! (code c mod 16)]) s)"

definition valid_encoded :: "string \<Rightarrow> bool" where
  "valid_encoded s \<longleftrightarrow> list_all (\<lambda>c. plain_path_byte c \<or> c \<in> set ''!()*[]%'' \<or> code c = 39) s"

text \<open>\<open>URL.EscapedPath\<close> of a request; \<open>other\<close> is the path in a URI that is not itself a path.\<close>

definition escaped_path :: "(string \<Rightarrow> string) \<Rightarrow> request \<Rightarrow> string" where
  "escaped_path other r =
     (let raw = (if has_prefix (rq_uri r) ''/'' then fst (cut CHR ''?'' (rq_uri r)) else other (rq_uri r))
      in if valid_encoded raw \<and> unescape_path raw = rq_path r then raw
         else if rq_path r = ''*'' then ''*''
         else escape_path (rq_path r))"

subsection \<open>Cleaning\<close>

text \<open>\<open>path.Clean\<close> of a rooted path, segment by segment.\<close>

fun resolve_segments :: "string list \<Rightarrow> string list \<Rightarrow> string list" where
  "resolve_segments acc [] = rev acc"
| "resolve_segments acc (s # ss) =
     (if s = [] \<or> s = ''.'' then resolve_segments acc ss
      else if s = ''..'' then resolve_segments (tl acc) ss
      else resolve_segments (s # acc) ss)"

definition path_clean :: "string \<Rightarrow> string" where
  "path_clean p = CHR ''/'' # join_byte CHR ''/'' (resolve_segments [] (split_byte p CHR ''/''))"

definition clean_path :: "string \<Rightarrow> string" where
  "clean_path p0 =
     (if p0 = [] then ''/''
      else (let p = (if hd p0 = CHR ''/'' then p0 else CHR ''/'' # p0); np = path_clean p
            in if last p = CHR ''/'' \<and> np \<noteq> ''/'' then np @ ''/'' else np))"

subsection \<open>Dispatch\<close>

datatype 'h routed = RunHandler 'h | RedirectTo string | BadRequest

definition mux_lookup :: "(string \<times> 'h) list \<Rightarrow> 'h \<Rightarrow> string \<Rightarrow> 'h" where
  "mux_lookup exact root p =
     (if CHR ''/'' \<in> set (tl p) then root
      else (case map_of exact (unescape_path (tl p)) of Some h \<Rightarrow> h | None \<Rightarrow> root))"

text \<open>A request to tunnel is not redirected for its path, but for having none.\<close>

definition mux_route :: "(string \<Rightarrow> string) \<Rightarrow> (string \<times> 'h) list \<Rightarrow> 'h \<Rightarrow> request \<Rightarrow> 'h routed" where
  "mux_route other exact root r =
     (let p = escaped_path other r
      in if rq_uri r = ''*'' then BadRequest
         else if rq_method r = ''CONNECT'' then (if p = [] then RedirectTo ''//'' else RunHandler (mux_lookup exact root p))
         else if clean_path p \<noteq> p then RedirectTo (clean_path p)
         else RunHandler (mux_lookup exact root p))"

subsection \<open>A redirect leads to a handler\<close>

definition real_segment :: "string \<Rightarrow> bool" where
  "real_segment s \<longleftrightarrow> s \<noteq> [] \<and> s \<noteq> ''.'' \<and> s \<noteq> ''..'' \<and> CHR ''/'' \<notin> set s"

lemma resolve_real:
  "list_all real_segment acc \<Longrightarrow> \<forall>s \<in> set ss. CHR ''/'' \<notin> set s \<Longrightarrow> list_all real_segment (resolve_segments acc ss)"
proof (induction acc ss rule: resolve_segments.induct)
  case (2 acc s ss)
  have "list_all real_segment (tl acc)" using 2(4) by (cases acc) simp_all
  moreover have "list_all real_segment (s # acc)" if "s \<noteq> []" "s \<noteq> ''.''" "s \<noteq> ''..''"
    using that 2(4,5) by (auto simp: real_segment_def list_all_iff)
  ultimately show ?case using 2 by simp
qed (simp add: list_all_iff)

lemma resolve_id: "list_all real_segment ss \<Longrightarrow> resolve_segments acc (ss @ es) = resolve_segments (rev ss @ acc) es"
  by (induction ss arbitrary: acc) (auto simp: real_segment_def)

text \<open>Cleaning a path that is joined from real segments, with or without a slash at its end.\<close>

lemma path_clean_joined:
  assumes "list_all real_segment ss" "slash = [] \<or> slash = ''/''"
  shows "path_clean (CHR ''/'' # join_byte CHR ''/'' ss @ slash) = CHR ''/'' # join_byte CHR ''/'' ss"
proof -
  have no: "\<forall>p \<in> set ss. CHR ''/'' \<notin> set p" using assms(1) by (auto simp: list_all_iff real_segment_def)
  have "resolve_segments [] (split_byte (join_byte CHR ''/'' ss @ slash) CHR ''/'') = ss"
  proof (cases "ss = []")
    case True
    with assms(2) show ?thesis by auto
  next
    case False
    then have l: "CHR ''/'' \<notin> set (last ss)" using no by simp
    have "split_byte (last ss @ slash) CHR ''/'' = last ss # (if slash = [] then [] else [[]])"
      using assms(2) l split_byte_prefix [OF l, of "[]"] by (auto simp: split_byte_single)
    then have "split_byte (join_byte CHR ''/'' ss @ slash) CHR ''/'' = ss @ (if slash = [] then [] else [[]])"
      using split_join_append [OF False no, of slash] False by (metis append_Cons append_Nil append_assoc append_butlast_last_id)
    then show ?thesis using resolve_id [OF assms(1), of "[]"] by simp
  qed
  then show ?thesis by (simp add: path_clean_def)
qed

lemma path_clean_segments: "\<exists>ss. list_all real_segment ss \<and> path_clean p = CHR ''/'' # join_byte CHR ''/'' ss"
proof -
  have "list_all real_segment (resolve_segments [] (split_byte p CHR ''/''))"
    by (rule resolve_real) (auto dest: split_byte_no_sep)
  then show ?thesis unfolding path_clean_def by blast
qed

lemma join_real_last:
  assumes "list_all real_segment ss" "ss \<noteq> []"
  shows "join_byte CHR ''/'' ss \<noteq> [] \<and> last (join_byte CHR ''/'' ss) \<noteq> CHR ''/''"
  using assms
proof (induction "CHR ''/''" ss rule: join_byte.induct)
  case (2 p)
  then have "p \<noteq> []" "CHR ''/'' \<notin> set p" by (simp_all add: real_segment_def)
  then show ?case using last_in_set [of p] by (metis join_byte.simps(2))
qed auto

text \<open>A cleaned path is clean, so a redirect is followed by no other.\<close>

lemma clean_path_idem: "clean_path (clean_path p) = clean_path p"
proof (cases "p = []")
  case True
  show ?thesis unfolding True by code_simp
next
  case False
  define q where "q = (if hd p = CHR ''/'' then p else CHR ''/'' # p)"
  obtain ss where ss: "list_all real_segment ss" "path_clean q = CHR ''/'' # join_byte CHR ''/'' ss"
    using path_clean_segments by blast
  define e where "e = (if last q = CHR ''/'' \<and> ss \<noteq> [] then ''/'' else [])"
  have root: "CHR ''/'' # join_byte CHR ''/'' ss = ''/'' \<longleftrightarrow> ss = []" using join_real_last [OF ss(1)] by (cases "ss = []") auto
  have c: "clean_path p = CHR ''/'' # join_byte CHR ''/'' ss @ e"
    using False root by (auto simp: clean_path_def Let_def ss(2) e_def simp flip: q_def)
  have e: "e = [] \<or> e = ''/''" by (simp add: e_def)
  show ?thesis
  proof (cases "ss = []")
    case True
    then have "clean_path p = ''/''" by (simp add: c e_def)
    moreover have "clean_path ''/'' = ''/''" by code_simp
    ultimately show ?thesis by simp
  next
    case ne: False
    then have "last (CHR ''/'' # join_byte CHR ''/'' ss @ e) = CHR ''/'' \<longleftrightarrow> e = ''/''"
      using join_real_last [OF ss(1) ne] e by auto
    with e ne root show ?thesis
      unfolding c by (auto simp: clean_path_def Let_def path_clean_joined [OF ss(1)] path_clean_joined [OF ss(1), of "[]", simplified])
  qed
qed

lemma redirect_leads_to_handler:
  assumes "mux_route other exact root r = RedirectTo p" "rq_method r \<noteq> ''CONNECT''"
    and "escaped_path other r' = p" "rq_uri r' \<noteq> ''*''"
  shows "\<exists>h. mux_route other exact root r' = RunHandler h"
proof -
  have "p = clean_path (escaped_path other r)" using assms(1,2) by (auto simp: mux_route_def Let_def split: if_splits)
  then have "clean_path p = p" "p \<noteq> []" using clean_path_idem by (auto simp: clean_path_def Let_def path_clean_def)
  with assms(3,4) show ?thesis by (auto simp: mux_route_def Let_def)
qed

end
