(* ===== verification/Examples.thy ===== *)
theory Examples
  imports Hub Responder ProxyClient Axr Mux Quote
begin

text \<open>
  The example programs (\<open>examples/handler\<close>, \<open>examples/proxy\<close>, \<open>examples/websocket\<close>): how each builds its
  client from the environment, how it ends, and what it answers to each request. The hub of the third one has a
  theory of its own.
\<close>

subsection \<open>Settings and outcomes\<close>

definition example_config :: "environment \<Rightarrow> client_config" where
  "example_config e =
     \<lparr>cc_server_addr = env_or e ''AXR_SERVER'' ''localhost:7000'', cc_token = env_or e ''AXR_TOKEN'' [],
      cc_service = env_or e ''AXR_SERVICE'' [], cc_min = 0, cc_max = 0\<rparr>"

text \<open>
  \<open>Run\<close> only returns the error of its context, which no example treats as fatal; the list holds the delays
  between the connections so far.
\<close>

datatype 'e example_exit = BuildFatal 'e | Finished "duration list" | StillRunning "duration list"

definition run_example :: "client_config \<Rightarrow> (run_error \<times> cancel) list \<Rightarrow> 'e example_exit" where
  "run_example c rounds = (case client_run c rounds of (sleeps, returned) \<Rightarrow> if returned then Finished sleeps else StillRunning sleeps)"

definition handler_example :: "environment \<Rightarrow> 'h \<Rightarrow> (run_error \<times> cancel) list \<Rightarrow> handler_error example_exit" where
  "handler_example e mux rounds =
     (case new_handler (example_config e) (Some mux) of
        Inl err \<Rightarrow> BuildFatal err
      | Inr (c, _) \<Rightarrow> run_example c rounds)"

definition proxy_example :: "environment \<Rightarrow> (run_error \<times> cancel) list \<Rightarrow> proxy_error example_exit" where
  "proxy_example e rounds =
     (case new_proxy (example_config e) (env_or e ''AXR_TARGET'' ''http://localhost:8080'') of
        Inl err \<Rightarrow> BuildFatal err
      | Inr pc \<Rightarrow> run_example (pc_config pc) rounds)"

text \<open>The web-socket example serves the same handler on a local listener first, if it has an address for one.\<close>

definition local_listener :: "environment \<Rightarrow> string option" where
  "local_listener e = (let addr = env_or e ''LOCAL_ADDR'' '':8080'' in if addr \<noteq> [] then Some addr else None)"

definition ws_example ::
  "environment \<Rightarrow> 'h \<Rightarrow> (run_error \<times> cancel) list \<Rightarrow> string option \<times> handler_error example_exit" where
  "ws_example e mux rounds =
     (local_listener e,
      case new_handler (example_config e) (Some mux) of
        Inl err \<Rightarrow> BuildFatal err
      | Inr (c, _) \<Rightarrow> run_example c rounds)"

subsection \<open>Handlers\<close>

text \<open>The request's headers, one line per value, in the order in which the map is walked.\<close>

definition headers_handler :: "request \<Rightarrow> rw_op list" where
  "headers_handler r =
     SetHeader ''Content-Type'' ''text/plain'' #
     concat (map (\<lambda>(k, vv). map (\<lambda>v. WriteBody (k @ '': '' @ v @ [CHR 0x0A])) vv) (rq_header r))"

text \<open>The page for every other path.\<close>

definition hello_page :: "(nat \<Rightarrow> bool) \<Rightarrow> request \<Rightarrow> rw_op list" where
  "hello_page printable r =
     [WriteBody (''hello from handler-mode client'' @ [CHR 0x0A] @ ''you hit Host='' @ go_quote printable (rq_host r) @
        '' Path='' @ go_quote printable (rq_path r) @ [CHR 0x0A])]"

definition handler_example_serve :: "(string \<Rightarrow> string) \<Rightarrow> (nat \<Rightarrow> bool) \<Rightarrow> request \<Rightarrow> rw_op list routed" where
  "handler_example_serve other printable r = mux_route other [(''headers'', headers_handler r)] (hello_page printable r) r"

definition chat_index :: "hub \<Rightarrow> request \<Rightarrow> rw_op list" where
  "chat_index h r =
     [WriteBody (''websocket-broadcaster '' @ middle_dot @ '' host='' @ rq_host r @ '' '' @ middle_dot @ '' '' @
        format_nat (hub_size h) @ '' connected client(s)'' @ [CHR 0x0A])]"

text \<open>The web-socket example: its page, or the upgrade that the hub serves (\<open>None\<close>).\<close>

definition chat_serve :: "(string \<Rightarrow> string) \<Rightarrow> hub \<Rightarrow> request \<Rightarrow> rw_op list option routed" where
  "chat_serve other h r = mux_route other [(''ws'', None)] (Some (chat_index h r)) r"

subsection \<open>What they do\<close>

text \<open>An example starts exactly when it has a token; a server address is always there.\<close>

lemma example_needs_token:
  "handler_example e mux rounds = BuildFatal err \<longleftrightarrow> env_or e ''AXR_TOKEN'' [] = [] \<and> err = HandlerConfig TokenRequired"
  by (auto simp: handler_example_def new_handler_def new_client_def example_config_def run_example_def env_or_def
      split: prod.splits option.splits if_splits)

lemma proxy_example_default:
  assumes "e ''AXR_TARGET'' = None" "env_or e ''AXR_TOKEN'' [] \<noteq> []"
  shows "proxy_example e rounds \<noteq> BuildFatal err"
proof -
  have "url_parse ''http://localhost:8080'' = Some \<lparr>url_scheme = ''http'', url_host = ''localhost:8080''\<rparr>" by code_simp
  with assms show ?thesis
    by (auto simp: proxy_example_def new_proxy_def new_client_def example_config_def run_example_def env_or_def
        split: prod.splits option.splits if_splits)
qed

text \<open>
  The local listener cannot be switched off: an empty \<open>LOCAL_ADDR\<close> counts as missing, so the test for an empty
  address never succeeds.
\<close>

lemma local_listener_always: "local_listener e \<noteq> None"
  by (simp add: local_listener_def env_or_def Let_def split: option.splits)

lemma example_finishes: "run_example c rounds = Finished sleeps \<Longrightarrow> \<exists>r \<in> set rounds. snd r \<noteq> NotCancelled"
  using run_loop_returns [of c "cc_min c" rounds]
  by (auto simp: run_example_def client_run_def split: prod.splits if_splits)

text \<open>A path the multiplexer does not redirect reaches the page of its only segment, or the first page.\<close>

lemma handler_example_pages:
  assumes "rq_method r \<noteq> ''CONNECT''" "rq_uri r \<noteq> ''*''" "clean_path (escaped_path other r) = escaped_path other r"
  shows "handler_example_serve other printable r =
    RunHandler (if CHR ''/'' \<notin> set (tl (escaped_path other r)) \<and> unescape_path (tl (escaped_path other r)) = ''headers''
                then headers_handler r else hello_page printable r)"
  using assms by (simp add: handler_example_serve_def mux_route_def mux_lookup_def Let_def)

text \<open>What a visitor puts into host and path cannot break the lines of the page.\<close>

lemma hello_page_lines:
  "\<exists>a b. hello_page printable r =
      [WriteBody (''hello from handler-mode client'' @ [CHR 0x0A] @ ''you hit Host='' @ a @ '' Path='' @ b @ [CHR 0x0A])] \<and>
    list_all visible a \<and> list_all visible b"
  by (intro exI conjI, unfold hello_page_def, rule refl) (simp_all add: go_quote_def visible_quote_bytes visible_letters)

end
