(* ===== verification/Spec2Isabelle.thy ===== *)
theory Spec2Isabelle
  imports RegistryRaces StatsSpec Connect Exchange ProxyWire IssuingPage Cli Examples
begin

text \<open>
  The verification development of ax-router2, a reverse router in Go. Clients behind a firewall dial the control
  port of the router, register a service with a token and keep a multiplexed connection open; the router sends
  each HTTP request for \<open><service>.<base>\<close> over a stream of that connection and relays the answer.

  The parts of the program, and the theory of each:

  \<^item> \<open>internal/protocol/handshake.go\<close>: \<open>Handshake\<close>, over \<open>JsonString\<close> and \<open>Json\<close> (what the program uses of
    \<open>encoding/json\<close>). Frames written to and read from connections that may break after any byte.
  \<^item> \<open>server/registry.go\<close>, \<open>server/session.go\<close>: \<open>Registry\<close> has the operations, each cut at its critical
    sections; \<open>RegistryRaces\<close> runs them as threads with program counters, one critical section or call per
    step. Session objects and channels live in explicit stores (\<open>objs\<close>, \<open>chans\<close>) because they are shared.
  \<^item> \<open>server/stats.go\<close>: \<open>Percentile\<close> (the 64-bit float product of \<open>pick\<close>), \<open>Stats\<close>, and \<open>StatsSpec\<close> with the
    history that the rings refine. Counters keep their 64 and 32 bits.
  \<^item> \<open>server/reload.go\<close>: \<open>Tokens\<close>, the store and the watcher with its debounce timer.
  \<^item> \<open>server/config.go\<close>: \<open>Config\<close>. \<open>server/cert_warmup.go\<close>, \<open>server/tls.go\<close>, \<open>server/acme_dns.go\<close>: \<open>Certs\<close>.
  \<^item> \<open>server/server.go\<close>: host names and the pattern of service names in \<open>Routing\<close>; the public listeners in
    \<open>Public\<close>; the control port in \<open>Control\<close>; \<open>New\<close>, \<open>Run\<close> and \<open>shutdown\<close>, with \<open>cmd/ax-router/main.go\<close>, in
    \<open>Lifecycle\<close>.
  \<^item> \<open>server/proxy.go\<close>: \<open>Forward\<close> (and \<open>is_upgrade\<close> in \<open>Http\<close>). What goes over a stream: \<open>RequestWire\<close> has
    the writing of a request by the router and its reading by a client, \<open>ReadResponse\<close> the reading of the response,
    over \<open>MimeHeader\<close> (lines and header fields) and \<open>Framing\<close> (lengths and chunks). \<open>Exchange\<close> has the goroutines of one
    plain request on both ends of its stream; \<open>Visit\<close> and \<open>ProxyWire\<close> the whole way of a request, through a handler
    and through a local target.
  \<^item> \<open>server/admin.go\<close>: \<open>Admin\<close>; its bodies, \<open>State\<close>, \<open>StatsSnapshot\<close> and \<open>IssuanceState\<close> as JSON, in \<open>Dashboard\<close>
    over \<open>JsonWrite\<close>. \<open>Answers\<close> has the answers of the router's own pages, errors and redirects, \<open>IssuingPage\<close> the
    page of \<open>server/templates/issuing.html\<close>.
  \<^item> \<open>client/client.go\<close>: \<open>RouterClient\<close>. \<open>client/handler.go\<close>: \<open>Responder\<close>. \<open>client/proxy.go\<close>: \<open>ProxyClient\<close>.
    \<open>tools/axr/main.go\<close>: \<open>Axr\<close>, and \<open>Cli\<close> for its command line and that of \<open>cmd/ax-router\<close>, over \<open>Flags\<close> (what they use of
    the package \<open>flag\<close>) and \<open>Quote\<close> (\<open>%q\<close>). The two ends of a control connection run against each other in \<open>Connect\<close>.
  \<^item> \<open>examples/\<close>: \<open>Examples\<close>, over \<open>Mux\<close> (what they use of \<open>http.ServeMux\<close>), and \<open>Hub\<close> for the broadcaster of \<open>examples/websocket\<close> with its goroutines and channels.
  \<^item> \<open>Prelude\<close>, \<open>GoStrings\<close>, \<open>Http\<close> and \<open>Url\<close> hold what they share: error sums, reachability, bytes and strings,
    numerals, headers, requests and answers, and the part of \<open>net/url\<close> that the client uses.

  How they interact: \<open>Control.handle_control\<close> reads a hello (\<open>Handshake\<close>), asks the token store (\<open>Tokens\<close>), registers a
  session (\<open>Registry\<close>) and starts a certificate (\<open>Certs\<close>); \<open>Public.public_handler\<close> finds the service of a request
  (\<open>Routing\<close>), shows the issuing page (\<open>Certs\<close>) or looks the session up (\<open>Registry\<close>) and forwards the request over a
  stream of it (\<open>Forward\<close>, \<open>RequestWire\<close>), which a client answers (\<open>Responder\<close>, \<open>ProxyClient\<close>) and the router relays
  (\<open>ReadResponse\<close>, \<open>Forward\<close>). \<open>Connect\<close> composes the two ends of the control port, \<open>Visit\<close> the router with the client and its
  handler, \<open>ProxyWire\<close> the router with a proxy client and its target, and this theory the control port with the public one.

  Interfaces are locales, each interpreted on the model's own definitions: \<open>invariant_system\<close> (start states, steps and an
  invariant; for the interleaved registry, the watcher, the certificate issuer, the pump, the goroutines of a request and the hub), \<open>simulation\<close> (the statistics
  against their history), \<open>wire_message\<close> (the two frames), and \<open>service_directory\<close> (what the router and the
  certificate policy rely on in the registry).

  What the lemmas show. Registry: a history of registrations ends with the last writer, no waiter sleeps through
  a registration, no channel is closed twice, and how long a look-up waits. Handshake: a message is read back exactly or
  an error is reported, and which byte strings are accepted. Control and public port: a client is served only as its token
  allows, a refused one leaves no trace, client and router never contradict each other on what became of a connection, wherever
  it breaks, and a served client is reached by requests for its name. Statistics: the
  snapshot shows the last minute and the percentiles of the last 256 latencies. Tokens and configuration: reloads, and the shape of every
  accepted configuration; the steps of the watcher are kept apart from those of its environment (changes, signals,
  the clock), so that a property can say when it comes to rest on its own. Lifecycle: what is closed when \<open>Run\<close> returns,
  with connections that outlast the five seconds of \<open>shutdown\<close> and handshakes that end while it waits or after it. Certificates: one issuance per host, a final state, and the two host
  policies. Forwarding: a request arrives at the handler or the local target as it was, the answer arrives at the visitor
  as it was written, what is counted, that every run of a request is bounded and where it can stop before its end, and the same
  for the pump of an upgraded connection. Pages: nothing a visitor or a failure supplies becomes markup of the issuing
  page. Dashboard: the list of tokens and the state are read back from their JSON. Clients: framing, the back-off, what
  reaches a local target, and from where a command line gets its settings. Hub: it never panics, drains, and
  delivers in order. Several properties state behaviour that the program does not mean to have:
  a startup token that is never revoked, the pump that stops half-way, the two ends of a request that wait for each
  other after the visitor has gone, a bound name that autocert blocks, early statuses
  taken for final ones, upgrades lost in proxy mode, and a usage text that shows the token. Lemmas show others: the flag that
  lies after a race (\<open>connected_flag_race\<close>), a session that survives \<open>Run\<close> (\<open>late_handshake_survives\<close>).

  Bounds and fuel. The parsers of JSON values and of chunked bodies take fuel; \<open>Json.enough_fuel\<close>,
  \<open>Json.json_value_fuel\<close> and \<open>Framing.chunk_data_chunks\<close> show that the length of the input (doubled for JSON) is enough.
  A direction of a stream holds a window of pieces, of any positive size.
  \<open>unescape\<close>, the lines of a header, durations and numerals recurse on shrinking input with a termination proof.
  Loops that run as long as the process are step relations or lists of rounds, so a property speaks of
  every finite run. Times are nanoseconds; durations of the client's back-off wrap at 64 bits, as do the counters.

  Not modelled. Third-party code is a parameter: yamux, autocert, certmagic, libdns, fsnotify, gorilla/websocket and
  godotenv; so are the servers of \<open>net/http\<close> (of which \<open>RequestWire.handed_over\<close> states what they give a handler), the
  international host names it may have to encode, and trailers. So are base64 (\<open>BasicAuth\<close>), the table of printable characters above
  Latin-1 and the style sheet of the issuing page. The Unicode case folding of \<open>strings\<close> is that of ASCII. Deadlines and timeouts
  are failures that a reader, writer or wait may have at any time. Of fsnotify the watcher needs that a change of the file is
  reported as a write, a creation or a renaming; of autocert, that the host policy decides about new certificates and
  the cache (a set of hosts) about the others. The separate counters of one request (\<open>HTTPCompleted\<close>) are added in
  one step, and so is the closing of all sessions at the end of a run. Logging carries no state and is left out, and so is the dashboard's
  web app (\<open>web/\<close>, TypeScript, behind one embed directive). Accessors are folded into their
  callers; everything else the Go code under \<open>src/\<close> does, tests apart, has a definition.
\<close>

section \<open>From registration to request\<close>

text \<open>
  \<open>Registry.Lookup\<close> as a request makes it: the part under the lock, and, if the service may come back, the
  wait, which ends for a reason \<open>why\<close> in the registry \<open>later\<close>.
\<close>

definition registry_lookup ::
  "nat \<Rightarrow> nat \<Rightarrow> nat \<Rightarrow> wake_reason \<Rightarrow> registry \<Rightarrow> string \<Rightarrow> registry \<Rightarrow> lookup_error + nat" where
  "registry_lookup now1 now2 fresh why later service r =
     (case snd (lookup_locked now1 now2 fresh service r) of
        Found sid \<Rightarrow> Inr sid
      | NotFound \<Rightarrow> Inl ErrNoClient
      | WaitOn ch remaining \<Rightarrow> lookup_select why service later)"

text \<open>
  C2. A client that registers is reached: once its control connection is served, a request for its label under
  the base domain, at any depth, in any letter case and with any port, is dispatched to the new session,
  as an upgrade or a plain request, unless a certificate is being issued, when the issuing page is shown.
\<close>

theorem registered_service_reachable:
  assumes "handle_control now c tokens sid mux peer st = (Serving svc, st')"
    and "registry_ok (cs_registry st)" "objs (cs_registry st) sid = None" "service_name_ok svc"
    and "rq_path r \<noteq> ''/health''" "to_lower (strip_port (rq_host r)) = pre @ svc @ ''.'' @ to_lower (base_domain c)"
    and "pre = [] \<and> svc \<noteq> ''www'' \<or> (\<exists>p. pre = p @ ''.'')"
    and "\<not> has_suffix (base_domain c) ''.''" "base_domain c \<noteq> []"
  shows "public_handler t c (cs_certs st')
      (\<lambda>s. registry_lookup t1 t2 fresh why later s (cs_registry st')) r =
    (case issuing_for t (cs_certs st') (svc @ ''.'' @ to_lower (base_domain c)) of
       Some (page, status) \<Rightarrow> Answered (ShowIssuing page status)
     | None \<Rightarrow> Dispatched (if is_upgrade r then DoUpgrade sid else DoHttp sid))"
proof -
  obtain h :: hello where reg: "cs_registry st' = register now sid
      (add_session sid (new_session svc (hello_token h) peer) (cs_registry st))"
    using assms(1) by (rule handle_control_serving) blast
  have "owner (add_session sid (new_session svc (hello_token h) peer) (cs_registry st)) sid = Some svc"
    by (simp add: new_session_def)
  then have "sessions (cs_registry st') svc = Some sid"
    unfolding reg by (simp add: directory.find_add)
  then have "registry_lookup t1 t2 fresh why later svc (cs_registry st') = Inr sid"
    by (simp add: registry_lookup_def lookup_locked_hit)
  moreover have "public_route t c (cs_certs st') r =
    (case issuing_for t (cs_certs st') (svc @ ''.'' @ to_lower (base_domain c)) of
       Some (page, status) \<Rightarrow> ShowIssuing page status
     | None \<Rightarrow> LookUp svc)"
    by (rule route_of_service) (use assms in simp_all)
  ultimately show ?thesis
    by (simp add: public_handler_def dispatch_lookup_def split: option.splits prod.splits)
qed










section \<open>Concrete instances\<close>

lemma demo_env_base: "base_domain (env_config demo_env) = ''router.com''" "\<not> has_suffix ''router.com'' ''.''"
  by (simp_all add: demo_fields has_suffix_dot)

theorem registered_service_reachable_witness:
  "\<exists>st'. handle_control 1 (env_config demo_env) wildcard_store 7 None ''peer'' demo_state = (Serving ''foo'', st') \<and>
    public_handler 2 (env_config demo_env) (cs_certs st')
      (\<lambda>s. registry_lookup 2 2 0 TimerFired (new_registry 0) s (cs_registry st'))
      (demo_request ''Api.Foo.router.com:8080'' ''/x'') = Dispatched (DoHttp 7)"
proof -
  let ?r = "demo_request ''Api.Foo.router.com:8080'' ''/x''"
  obtain st' where st: "handle_control 1 (env_config demo_env) wildcard_store 7 None ''peer'' demo_state = (Serving ''foo'', st')"
    using demo_served by blast
  then have certs: "cs_certs st' = None" by (rule handle_control_serving) (simp add: demo_state_def)
  have ok: "service_name_ok ''foo''" by code_simp
  have path: "rq_path ?r \<noteq> ''/health''" "\<not> is_upgrade ?r"
    by (simp_all add: demo_request_def is_upgrade_def header_get_def equal_fold_def) code_simp?
  have host: "to_lower (strip_port (rq_host ?r)) = ''api.'' @ ''foo'' @ ''.'' @ to_lower (base_domain (env_config demo_env))"
    unfolding demo_env_base by (simp only: demo_host demo_request_def request.simps)
  have pre: "''api.'' = [] \<and> ''foo'' \<noteq> ''www'' \<or> (\<exists>p. ''api.'' = p @ ''.'')"
    by (intro disjI2 exI [of _ "''api''"]) simp
  have base: "\<not> has_suffix (base_domain (env_config demo_env)) ''.''" "base_domain (env_config demo_env) \<noteq> []"
    by (simp_all add: demo_env_base)
  from registered_service_reachable [OF st demo_fields_hello(6,7) ok path(1) host pre base, of 2 2 2 0 TimerFired "new_registry 0"]
  have "public_handler 2 (env_config demo_env) (cs_certs st')
      (\<lambda>s. registry_lookup 2 2 0 TimerFired (new_registry 0) s (cs_registry st')) ?r = Dispatched (DoHttp 7)"
    by (simp only: certs issuing_for_def path(2) option.case if_False)
  with st show ?thesis by blast
qed






end
